(* ===== verification/Prelude.thy ===== *)
theory Prelude
  imports Main "HOL-Library.Word"
begin

text \<open>
  Shared vocabulary of the development: the representation of WTF text and C character
  buffers, the loops that advance an index over a buffer, and the generic list lemmas the
  component theories rest on.

  A \<open>WTF::String\<close> (16-bit \<open>UChar\<close>s or 8-bit \<open>LChar\<close>s) and a \<open>char\<close> buffer are lists of
  code units, naturals below \<open>2 ^ 16\<close> or \<open>2 ^ 8\<close>; no text routine modelled here does
  arithmetic on code units that could leave that range. A null \<open>String\<close> is kept apart
  from the empty one (as \<^const>\<open>None\<close>) only where the code distinguishes them.
\<close>

unbundle bit_operations_syntax

named_theorems wtf_defs \<open>definitions of WTF text primitives\<close>
named_theorems url_defs \<open>definitions of the URL component\<close>
named_theorems char_class \<open>character classes as ranges of code units\<close>

type_synonym code_unit = nat
type_synonym wtf_string = "code_unit list"
type_synonym byte = "8 word"

text \<open>\<open>ch CHR ''/''\<close> is the C character constant, \<open>lit ''abc''\<close> the string literal.\<close>

abbreviation ch :: "char \<Rightarrow> code_unit" where
  "ch c \<equiv> of_char c"

definition lit :: "string \<Rightarrow> wtf_string" where
  "lit s = map of_char s"

text \<open>
  Reading position \<open>i\<close> of a buffer that ends in a NUL, or of a \<open>String\<close>, whose
  \<open>operator[]\<close> returns 0 at and beyond the length.
\<close>

definition at :: "wtf_string \<Rightarrow> nat \<Rightarrow> code_unit" where
  "at s i = (if i < length s then s ! i else 0)"

text \<open>\<open>while (p(s[i])) i++;\<close> for a \<open>p\<close> that is false on the terminating NUL.\<close>

function scan_while :: "(code_unit \<Rightarrow> bool) \<Rightarrow> wtf_string \<Rightarrow> nat \<Rightarrow> nat" where
  "scan_while p s i = (if i < length s \<and> p (s ! i) then scan_while p s (Suc i) else i)"
  by pat_completeness auto
termination
  by (relation "measure (\<lambda>(p, s, i). length s - i)") auto

declare scan_while.simps [simp del]

lemma scan_while_ge: "i \<le> scan_while p s i"
proof (induction p s i rule: scan_while.induct)
  case (1 p s i)
  then show ?case by (subst scan_while.simps) auto
qed

lemma scan_while_le: "i \<le> length s \<Longrightarrow> scan_while p s i \<le> length s"
proof (induction p s i rule: scan_while.induct)
  case (1 p s i)
  then show ?case by (subst scan_while.simps) auto
qed

lemma scan_while_all: "i \<le> k \<Longrightarrow> k < scan_while p s i \<Longrightarrow> k < length s \<and> p (s ! k)"
proof (induction p s i rule: scan_while.induct)
  case (1 p s i)
  show ?case
  proof (cases "i < length s \<and> p (s ! i)")
    case True
    with "1.prems"(2) have "k < scan_while p s (Suc i)"
      by (simp add: scan_while.simps [of p s i])
    with True "1" show ?thesis by (cases "k = i") auto
  next
    case False
    with "1.prems" show ?thesis by (auto simp: scan_while.simps [of p s i])
  qed
qed

lemma scan_while_stop: "scan_while p s i < length s \<Longrightarrow> \<not> p (s ! scan_while p s i)"
proof (induction p s i rule: scan_while.induct)
  case (1 p s i)
  then show ?case
    by (cases "i < length s \<and> p (s ! i)") (auto simp: scan_while.simps [of p s i])
qed

lemma scan_while_stop_at: "\<not> p 0 \<Longrightarrow> \<not> p (at s (scan_while p s i))"
  using scan_while_stop [of p s i] by (auto simp: at_def)

text \<open>The loop stops exactly behind the longest run of characters in \<open>p\<close>.\<close>

lemma scan_while_takeWhile: "scan_while p s i = i + length (takeWhile p (drop i s))"
proof (induction p s i rule: scan_while.induct)
  case (1 p s i)
  show ?case
  proof (cases "i < length s")
    case True
    then have "drop i s = s ! i # drop (Suc i) s" by (simp add: Cons_nth_drop_Suc)
    with True "1" show ?thesis by (auto simp: scan_while.simps [of p s i])
  next
    case False
    then show ?thesis by (simp add: scan_while.simps [of p s i])
  qed
qed

text \<open>Facts about every code unit of a finite range, by evaluation.\<close>

lemma enum_range: "list_all P [a..<b] \<Longrightarrow> a \<le> c \<Longrightarrow> c < b \<Longrightarrow> P c"
  by (simp add: list_all_iff)

text \<open>\<open>String::substring\<close> restricted to a range that lies inside the string.\<close>

definition between :: "nat \<Rightarrow> nat \<Rightarrow> 'a list \<Rightarrow> 'a list" where
  "between i j xs = take (j - i) (drop i xs)"

lemma length_between [simp]: "length (between i j xs) = min (j - i) (length xs - i)"
  by (simp add: between_def min.commute)

lemma between_empty [simp]: "between i i xs = []"
  by (simp add: between_def)

lemma nth_between: "k < j - i \<Longrightarrow> i + k < length xs \<Longrightarrow> between i j xs ! k = xs ! (i + k)"
  by (simp add: between_def)

lemma set_betweenE:
  assumes "x \<in> set (between i j xs)"
  obtains k where "i \<le> k" "k < j" "k < length xs" "x = xs ! k"
proof -
  from assms obtain m where m: "m < length (between i j xs)" "x = between i j xs ! m"
    by (auto simp: in_set_conv_nth)
  then have "x = xs ! (i + m)" by (auto simp: nth_between)
  with m(1) show thesis by (intro that [of "i + m"]) auto
qed

lemma set_between_scan_while:
  "x \<in> set (between i (scan_while p s i) s) \<Longrightarrow> p x"
  using scan_while_all by (metis set_betweenE)

lemma between_append_left: "j \<le> length xs \<Longrightarrow> between i j (xs @ ys) = between i j xs"
  by (cases "i \<le> length xs") (simp_all add: between_def)

lemma between_append_right:
  "length xs \<le> i \<Longrightarrow> between i j (xs @ ys) = between (i - length xs) (j - length xs) ys"
  by (simp add: between_def)

lemma between_all [simp]: "between 0 (length xs) xs = xs"
  by (simp add: between_def)

lemma between_add_length: "between (length xs) (length xs + length ys) (xs @ ys @ zs) = ys"
  by (simp add: between_def)

lemma at_append_left: "i < length xs \<Longrightarrow> at (xs @ ys) i = at xs i"
  by (simp add: at_def nth_append)

lemma at_Nil [simp]: "at [] i = 0"
  by (simp add: at_def)

lemma at_nonzero: "at s i \<noteq> 0 \<Longrightarrow> i < length s"
  by (simp add: at_def split: if_splits)

lemma list_all_between: "list_all p xs \<Longrightarrow> list_all p (between i j xs)"
  by (auto simp: list_all_iff between_def dest: in_set_takeD in_set_dropD)

lemma list_all_tl: "list_all P xs \<Longrightarrow> list_all P (tl xs)"
  by (cases xs) auto

lemma list_all_butlast: "list_all P xs \<Longrightarrow> list_all P (butlast xs)"
  by (auto simp: list_all_iff dest: in_set_butlastD)

lemma list_all_scan_while: "list_all p (between i (scan_while p s i) s)"
  by (auto simp: list_all_iff intro: set_between_scan_while)

lemma list_all_between_sub:
  assumes "list_all p (between i j s)" "i \<le> i'" "j' \<le> j"
  shows "list_all p (between i' j' s)"
  unfolding list_all_iff
proof
  fix x assume "x \<in> set (between i' j' s)"
  then obtain k where k: "i' \<le> k" "k < j'" "k < length s" "x = s ! k" by (rule set_betweenE)
  with assms(2,3) have "between i j s ! (k - i) = x" "k - i < length (between i j s)"
    by (auto simp: nth_between)
  with assms(1) show "p x" by (metis list_all_iff nth_mem)
qed

lemma between_split: "i \<le> j \<Longrightarrow> j \<le> k \<Longrightarrow> between i k s = between i j s @ between j k s"
proof -
  assume "i \<le> j" "j \<le> k"
  then have "k - i = (j - i) + (k - j)" "drop (j - i) (drop i s) = drop j s" by simp_all
  then show ?thesis unfolding between_def by (metis take_add)
qed

lemma between_single: "i < length s \<Longrightarrow> between i (Suc i) s = [s ! i]"
  by (simp add: between_def take_Suc hd_drop_conv_nth)

lemma at_Cons [simp]: "at (b # s) 0 = b" "at (b # s) (Suc i) = at s i"
  by (simp_all add: at_def)

section \<open>Simulation of a specification\<close>

text \<open>
  A component whose operations simulate those of a specification: the states \<open>wf\<close> holds of
  are kept by every admissible operation, and the abstraction of the state moves as the
  specification says. Then so does every sequence of operations.
\<close>

locale simulation =
  fixes wf :: "'s \<Rightarrow> bool" and ok :: "'o \<Rightarrow> bool" and abs :: "'s \<Rightarrow> 'a" and step :: "'o \<Rightarrow> 's \<Rightarrow> 's" and spec :: "'o \<Rightarrow> 'a \<Rightarrow> 'a"
  assumes simulates: "wf s \<Longrightarrow> ok x \<Longrightarrow> wf (step x s) \<and> abs (step x s) = spec x (abs s)"
begin

lemma run: "wf s \<Longrightarrow> list_all ok xs \<Longrightarrow> wf (fold step xs s) \<and> abs (fold step xs s) = fold spec xs (abs s)"
proof (induction xs arbitrary: s)
  case (Cons x xs)
  then show ?case using simulates [of s x] by simp
qed simp

end

end
