(* ===== verification/Wtf_Text.thy ===== *)
theory Wtf_Text
  imports Prelude
begin

text \<open>
  The WTF text primitives the other components call: the locale-independent character
  predicates of \<open>WTF/wtf/ASCIICType.h\<close>, hexadecimal output (\<open>HexNumber.h\<close>), the
  \<open>String\<close> operations of \<open>WTFString\<close> and \<open>StringImpl\<close>, and the conversions between
  decimal text and integers. What WTF takes from ICU is the record \<open>icu\<close>, an argument of
  the definitions that need it.
\<close>

record icu =
  u_isWhiteSpaceNeutral :: "code_unit \<Rightarrow> bool"
  u_strToLower :: "wtf_string \<Rightarrow> wtf_string"
  u_foldCase :: "code_unit \<Rightarrow> code_unit"
  uidna_IDNToASCII :: "wtf_string \<Rightarrow> wtf_string option"

section \<open>Character predicates\<close>

definition isASCII :: "code_unit \<Rightarrow> bool" where
  "isASCII c \<longleftrightarrow> c < 0x80"

definition isASCIIAlpha :: "code_unit \<Rightarrow> bool" where
  "isASCIIAlpha c \<longleftrightarrow> c OR 0x20 \<ge> ch CHR ''a'' \<and> c OR 0x20 \<le> ch CHR ''z''"

definition isASCIIDigit :: "code_unit \<Rightarrow> bool" where
  "isASCIIDigit c \<longleftrightarrow> c \<ge> ch CHR ''0'' \<and> c \<le> ch CHR ''9''"

definition isASCIIHexDigit :: "code_unit \<Rightarrow> bool" where
  "isASCIIHexDigit c \<longleftrightarrow>
     isASCIIDigit c \<or> (c OR 0x20 \<ge> ch CHR ''a'' \<and> c OR 0x20 \<le> ch CHR ''f'')"

definition isASCIILower :: "code_unit \<Rightarrow> bool" where
  "isASCIILower c \<longleftrightarrow> c \<ge> ch CHR ''a'' \<and> c \<le> ch CHR ''z''"

definition isASCIIUpper :: "code_unit \<Rightarrow> bool" where
  "isASCIIUpper c \<longleftrightarrow> c \<ge> ch CHR ''A'' \<and> c \<le> ch CHR ''Z''"

definition isASCIISpace :: "code_unit \<Rightarrow> bool" where
  "isASCIISpace c \<longleftrightarrow> c \<le> ch CHR '' '' \<and> (c = ch CHR '' '' \<or> (c \<le> 0xD \<and> c \<ge> 0x9))"

definition toASCIILower :: "code_unit \<Rightarrow> code_unit" where
  "toASCIILower c = c OR push_bit 5 (of_bool (c \<ge> ch CHR ''A'' \<and> c \<le> ch CHR ''Z''))"

definition toASCIIHexValue :: "code_unit \<Rightarrow> nat" where
  "toASCIIHexValue c =
     (if c < ch CHR ''A'' then c - ch CHR ''0'' else (c - ch CHR ''A'' + 10) AND 0xF)"

definition isSpaceOrNewline :: "icu \<Rightarrow> code_unit \<Rightarrow> bool" where
  "isSpaceOrNewline u c = (if c \<le> 0x7F then isASCIISpace c else u_isWhiteSpaceNeutral u c)"

lemma OR_32_upper:
  assumes "65 \<le> c" "c \<le> 90"
  shows "c OR 32 = c + (32::nat)"
proof -
  have "list_all (\<lambda>c. c OR 32 = c + (32::nat)) [65..<91]" by code_simp
  from enum_range [OF this, of c] assms show ?thesis by simp
qed

lemma toASCIILower_alt: "toASCIILower c = (if isASCIIUpper c then c + 32 else c)"
  by (simp add: toASCIILower_def isASCIIUpper_def OR_32_upper)

lemma toASCIILower_not_upper: "\<not> isASCIIUpper (toASCIILower c)"
  by (auto simp: toASCIILower_alt isASCIIUpper_def split: if_splits)

lemma toASCIILower_id [simp]: "\<not> isASCIIUpper c \<Longrightarrow> toASCIILower c = c"
  by (simp add: toASCIILower_alt)

lemma toASCIILower_idem [simp]: "toASCIILower (toASCIILower c) = toASCIILower c"
  by (simp add: toASCIILower_not_upper)

lemma toASCIILower_isASCII: "isASCII c \<Longrightarrow> isASCII (toASCIILower c)"
  by (auto simp: toASCIILower_alt isASCII_def isASCIIUpper_def)

section \<open>Hexadecimal digits\<close>

definition upperHexDigits :: wtf_string where
  "upperHexDigits = lit ''0123456789ABCDEF''"

text \<open>The two digits \<open>placeByteAsHex\<close> and \<open>appendByteAsHex\<close> write in their default mode.\<close>

definition placeByteAsHex :: "code_unit \<Rightarrow> wtf_string" where
  "placeByteAsHex byte = [upperHexDigits ! drop_bit 4 byte, upperHexDigits ! (byte AND 0xF)]"

lemma AND_15: "(n::nat) AND 15 = n mod 16"
  using take_bit_eq_mask [of 4 n] by (simp add: take_bit_eq_mod mask_eq_exp_minus_1)

lemma upperHexDigits_cases:
  assumes "d < 16"
  shows "upperHexDigits ! d = (if d < 10 then 48 + d else 55 + d)"
proof -
  have "list_all (\<lambda>d. upperHexDigits ! d = (if d < 10 then 48 + d else 55 + d)) [0..<16]"
    by code_simp
  from enum_range [OF this, of d] assms show ?thesis by simp
qed

lemma hexDigit_roundtrip: "d < 16 \<Longrightarrow> toASCIIHexValue (upperHexDigits ! d) = d"
  by (simp add: upperHexDigits_cases toASCIIHexValue_def AND_15)

lemma hexDigit_isHex: "d < 16 \<Longrightarrow> isASCIIHexDigit (upperHexDigits ! d)"
  by (simp add: upperHexDigits_cases isASCIIHexDigit_def isASCIIDigit_def OR_32_upper)

lemma placeByteAsHex_value:
  "b < 256 \<Longrightarrow> map toASCIIHexValue (placeByteAsHex b) = [b div 16, b mod 16]"
  by (simp add: placeByteAsHex_def hexDigit_roundtrip AND_15 drop_bit_eq_div)

lemma length_placeByteAsHex [simp]: "length (placeByteAsHex b) = 2"
  by (simp add: placeByteAsHex_def)

lemma set_placeByteAsHex:
  "b < 256 \<Longrightarrow> c \<in> set (placeByteAsHex b) \<Longrightarrow> (48 \<le> c \<and> c \<le> 57) \<or> (65 \<le> c \<and> c \<le> 70)"
  by (auto simp: placeByteAsHex_def upperHexDigits_cases AND_15 drop_bit_eq_div split: if_splits)

section \<open>Strings\<close>

definition substring :: "wtf_string \<Rightarrow> nat \<Rightarrow> nat \<Rightarrow> wtf_string" where
  "substring s start len = (if start \<ge> length s then [] else take len (drop start s))"

text \<open>\<open>substring\<close> with its default length \<open>UINT_MAX\<close>.\<close>

definition substring_from :: "wtf_string \<Rightarrow> nat \<Rightarrow> wtf_string" where
  "substring_from s start = (if start \<ge> length s then [] else drop start s)"

definition left :: "wtf_string \<Rightarrow> nat \<Rightarrow> wtf_string" where
  "left s len = substring s 0 len"

text \<open>
  \<open>right(len)\<close> is \<open>substring(length() - len, len)\<close>; for a \<open>len\<close> above the length the
  unsigned difference wraps to a start beyond the string, which yields the empty string.
\<close>

definition right :: "wtf_string \<Rightarrow> nat \<Rightarrow> wtf_string" where
  "right s len = (if len > length s then [] else substring s (length s - len) len)"

definition find_char :: "code_unit \<Rightarrow> wtf_string \<Rightarrow> nat \<Rightarrow> nat option" where
  "find_char c s index =
     (let k = scan_while (\<lambda>x. x \<noteq> c) s index in if k < length s then Some k else None)"

primrec reverse_scan :: "code_unit \<Rightarrow> wtf_string \<Rightarrow> nat \<Rightarrow> nat option" where
  "reverse_scan c s 0 = (if s ! 0 = c then Some 0 else None)"
| "reverse_scan c s (Suc index) =
     (if s ! Suc index = c then Some (Suc index) else reverse_scan c s index)"

definition reverseFind :: "code_unit \<Rightarrow> wtf_string \<Rightarrow> nat \<Rightarrow> nat option" where
  "reverseFind c s index =
     (if s = [] then None
      else reverse_scan c s (if index \<ge> length s then length s - 1 else index))"

definition replace_char :: "wtf_string \<Rightarrow> code_unit \<Rightarrow> code_unit \<Rightarrow> wtf_string" where
  "replace_char s oldC newC = map (\<lambda>c. if c = oldC then newC else c) s"

definition containsOnlyASCII :: "wtf_string \<Rightarrow> bool" where
  "containsOnlyASCII s = list_all isASCII s"

definition lower :: "icu \<Rightarrow> wtf_string \<Rightarrow> wtf_string" where
  "lower u s = (if containsOnlyASCII s then map toASCIILower s else u_strToLower u s)"

definition foldCase :: "icu \<Rightarrow> code_unit \<Rightarrow> code_unit" where
  "foldCase u c = (if isASCII c then toASCIILower c else u_foldCase u c)"

text \<open>\<open>startsWith(prefix, false)\<close>, for a prefix that is an ASCII literal.\<close>

definition startsWithIgnoringCase :: "icu \<Rightarrow> wtf_string \<Rightarrow> wtf_string \<Rightarrow> bool" where
  "startsWithIgnoringCase u s prefix \<longleftrightarrow>
     length prefix \<le> length s \<and> map (foldCase u) (take (length prefix) s) = map toASCIILower prefix"

definition equalIgnoringCase :: "icu \<Rightarrow> wtf_string \<Rightarrow> wtf_string \<Rightarrow> bool" where
  "equalIgnoringCase u a b \<longleftrightarrow> map (foldCase u) a = map (foldCase u) b"

lemma left_take: "left s n = take n s"
  by (simp add: left_def substring_def)

lemma substring_between: "substring s i (j - i) = between i j s"
  by (simp add: substring_def between_def)

lemma substring_from_drop: "substring_from s i = drop i s"
  by (simp add: substring_from_def)

lemma find_char_Some:
  "find_char c s i = Some k \<Longrightarrow> i \<le> k \<and> k < length s \<and> s ! k = c \<and> (\<forall>j. i \<le> j \<and> j < k \<longrightarrow> s ! j \<noteq> c)"
  using scan_while_ge [of i "\<lambda>x. x \<noteq> c" s] scan_while_stop [of "\<lambda>x. x \<noteq> c" s i]
    scan_while_all [of i _ "\<lambda>x. x \<noteq> c" s]
  by (auto simp: find_char_def Let_def split: if_splits)

lemma find_char_None: "find_char c s i = None \<Longrightarrow> i \<le> j \<Longrightarrow> j < length s \<Longrightarrow> s ! j \<noteq> c"
  using scan_while_all [of i j "\<lambda>x. x \<noteq> c" s]
  by (auto simp: find_char_def Let_def split: if_splits)

section \<open>Decimal numbers\<close>

definition isCharacterAllowedInBase :: "code_unit \<Rightarrow> nat \<Rightarrow> bool" where
  "isCharacterAllowedInBase c base =
     (if c > 0x7F then False
      else if isASCIIDigit c then c - ch CHR ''0'' < base
      else if isASCIIAlpha c then
        (let base = (if base > 36 then 36 else base)
         in (c \<ge> ch CHR ''a'' \<and> c < ch CHR ''a'' + base - 10) \<or>
            (c \<ge> ch CHR ''A'' \<and> c < ch CHR ''A'' + base - 10))
      else False)"

definition digitValue :: "code_unit \<Rightarrow> nat" where
  "digitValue c =
     (if isASCIIDigit c then c - ch CHR ''0''
      else if c \<ge> ch CHR ''a'' then c - ch CHR ''a'' + 10
      else c - ch CHR ''A'' + 10)"

text \<open>
  The digit loop of \<open>toIntegralType\<close>: the value and the unread text, or \<open>None\<close> when the
  next digit would exceed \<open>integralMax\<close> (by one more for a negative number).
\<close>

fun digit_loop :: "nat \<Rightarrow> nat \<Rightarrow> bool \<Rightarrow> wtf_string \<Rightarrow> nat \<Rightarrow> (nat \<times> wtf_string) option" where
  "digit_loop integralMax base isNegative [] v = Some (v, [])"
| "digit_loop integralMax base isNegative (c # data) v =
     (if isCharacterAllowedInBase c base then
        if v > integralMax div base \<or>
           (v = integralMax div base \<and> digitValue c > integralMax mod base + of_bool isNegative)
        then None
        else digit_loop integralMax base isNegative data (base * v + digitValue c)
      else Some (v, c # data))"

definition toIntegralType :: "icu \<Rightarrow> nat \<Rightarrow> bool \<Rightarrow> nat \<Rightarrow> wtf_string \<Rightarrow> int option" where
  "toIntegralType u integralMax isSigned base data0 =
     (let data1 = dropWhile (isSpaceOrNewline u) data0;
          (isNegative, data2) =
            (case data1 of [] \<Rightarrow> (False, [])
             | c # rest \<Rightarrow> if isSigned \<and> c = ch CHR ''-'' then (True, rest)
                         else if c = ch CHR ''+'' then (False, rest) else (False, data1))
      in case data2 of [] \<Rightarrow> None
         | c # rest \<Rightarrow>
             if \<not> isCharacterAllowedInBase c base then None
             else case digit_loop integralMax base isNegative data2 0 of
                    None \<Rightarrow> None
                  | Some (v, rest) \<Rightarrow>
                      if dropWhile (isSpaceOrNewline u) rest = []
                      then Some (if isNegative then - int v else int v) else None)"

definition charactersToUIntStrict :: "icu \<Rightarrow> wtf_string \<Rightarrow> nat option" where
  "charactersToUIntStrict u data = map_option nat (toIntegralType u (2 ^ 32 - 1) False 10 data)"

text \<open>\<open>lengthOfCharactersAsInteger\<close>, as the prefix it measures.\<close>

definition charactersAsInteger :: "wtf_string \<Rightarrow> icu \<Rightarrow> wtf_string" where
  "charactersAsInteger data u =
     (let spaces = takeWhile (isSpaceOrNewline u) data; rest = drop (length spaces) data;
          sign = (case rest of [] \<Rightarrow> []
                  | c # _ \<Rightarrow> if c = ch CHR ''+'' \<or> c = ch CHR ''-'' then [c] else [])
      in spaces @ sign @ takeWhile isASCIIDigit (drop (length sign) rest))"

definition charactersToInt :: "icu \<Rightarrow> wtf_string \<Rightarrow> int option" where
  "charactersToInt u data = toIntegralType u (2 ^ 31 - 1) True 10 (charactersAsInteger data u)"

fun numberToString :: "nat \<Rightarrow> wtf_string" where
  "numberToString number =
     (if number div 10 = 0 then [number mod 10 + ch CHR ''0'']
      else numberToString (number div 10) @ [number mod 10 + ch CHR ''0''])"

declare numberToString.simps [simp del]

lemma numberToString_nonempty [simp]: "numberToString n \<noteq> []"
  by (subst numberToString.simps) simp

lemma numberToString_digits: "c \<in> set (numberToString n) \<Longrightarrow> 48 \<le> c \<and> c \<le> 57"
proof (induction n rule: numberToString.induct)
  case (1 n)
  then show ?case
    by (subst (asm) (2) numberToString.simps) (auto split: if_splits)
qed

lemma digit_loop_append:
  "digit_loop m b neg xs v = Some (w, []) \<Longrightarrow>
     digit_loop m b neg (xs @ ys) v = digit_loop m b neg ys w"
  by (induction m b neg xs v rule: digit_loop.induct) (auto split: if_splits)

lemma digit_allowed [simp]: "d < 10 \<Longrightarrow> isCharacterAllowedInBase (d + 48) 10"
  by (simp add: isCharacterAllowedInBase_def isASCIIDigit_def)

lemma digitValue_digit [simp]: "d < 10 \<Longrightarrow> digitValue (d + 48) = d"
  by (simp add: digitValue_def isASCIIDigit_def)

lemma digit_loop_numberToString:
  "n \<le> m \<Longrightarrow> digit_loop m 10 False (numberToString n) 0 = Some (n, [])"
proof (induction n rule: numberToString.induct)
  case (1 n)
  have last: "digit_loop m 10 False [n mod 10 + 48] (n div 10) = Some (n, [])"
  proof -
    have "n div 10 \<le> m div 10" using "1.prems" by (rule div_le_mono)
    moreover have "n div 10 = m div 10 \<Longrightarrow> n mod 10 \<le> m mod 10"
      using "1.prems" by (metis add_le_cancel_left mult_div_mod_eq)
    ultimately show ?thesis by auto
  qed
  show ?case
  proof (cases "n div 10 = 0")
    case True
    then show ?thesis using last by (simp add: numberToString.simps [of n])
  next
    case False
    then have "digit_loop m 10 False (numberToString (n div 10)) 0 = Some (n div 10, [])"
      using "1" by simp
    from digit_loop_append [OF this] last False show ?thesis
      by (simp add: numberToString.simps [of n])
  qed
qed

lemma toIntegralType_numberToString:
  assumes "n \<le> m"
  shows "toIntegralType u m False 10 (numberToString n) = Some (int n)"
proof -
  obtain c rest where cr: "numberToString n = c # rest" by (cases "numberToString n") auto
  then have c: "48 \<le> c" "c \<le> 57" using numberToString_digits [of c n] by auto
  then have sp: "\<not> isSpaceOrNewline u c" and plus: "c \<noteq> 43"
    by (auto simp: isSpaceOrNewline_def isASCIISpace_def)
  have al: "isCharacterAllowedInBase c 10"
    using digit_allowed [of "c - 48"] c by simp
  have "digit_loop m 10 False (c # rest) 0 = Some (n, [])"
    using digit_loop_numberToString [OF assms] cr by simp
  then show ?thesis
    using cr sp plus al by (simp add: toIntegralType_def Let_def)
qed

end
