(* ===== verification/Wtf_Utf8.thy ===== *)
theory Wtf_Utf8
  imports Wtf_Text
begin

text \<open>
  \<open>wtf/unicode/UTF8.cpp\<close> and the \<open>String::utf8\<close> family: the conversions between UTF-16 and
  UTF-8 with their four results. A conversion is given the source and the number of units
  the target has room for; it returns the result, the part of the source it did not
  consume (the pointer it hands back) and the units it wrote. The lemmas show that strict
  conversion accepts exactly the well-formed UTF-16, that three bytes per unit suffice,
  and that decoding gives the source back.
\<close>

datatype ConversionResult = conversionOK | sourceExhausted | targetExhausted | sourceIllegal

datatype ConversionMode = LenientConversion | StrictConversion
  | StrictConversionReplacingUnpairedSurrogatesWithFFFD

definition replacementCharacter :: code_unit where "replacementCharacter = 0xFFFD"

section \<open>Sequences\<close>

definition inlineUTF8SequenceLengthNonASCII :: "code_unit \<Rightarrow> nat" where
  "inlineUTF8SequenceLengthNonASCII b0 =
     (if b0 AND 0xC0 \<noteq> 0xC0 then 0
      else if b0 AND 0xE0 = 0xC0 then 2
      else if b0 AND 0xF0 = 0xE0 then 3
      else if b0 AND 0xF8 = 0xF0 then 4
      else 0)"

definition inlineUTF8SequenceLength :: "code_unit \<Rightarrow> nat" where
  "inlineUTF8SequenceLength b0 = (if isASCII b0 then 1 else inlineUTF8SequenceLengthNonASCII b0)"

text \<open>The sequence of one character as a NUL-terminated buffer; \<^const>\<open>None\<close> is \<open>-1\<close>.\<close>

definition decodeUTF8Sequence :: "wtf_string \<Rightarrow> nat option" where
  "decodeUTF8Sequence s =
     (let b0 = at s 0; len = inlineUTF8SequenceLength b0; b1 = at s 1; b2 = at s 2; b3 = at s 3; b4 = at s 4 in
      if len = 0 then None
      else if len = 1 then if b1 \<noteq> 0 then None else Some b0
      else if b1 AND 0xC0 \<noteq> 0x80 then None
      else if len = 2 then
        if b2 \<noteq> 0 then None
        else let c = push_bit 6 (b0 AND 0x1F) OR (b1 AND 0x3F) in
          if c < 0x80 then None else Some c
      else if b2 AND 0xC0 \<noteq> 0x80 then None
      else if len = 3 then
        if b3 \<noteq> 0 then None
        else let c = push_bit 12 (b0 AND 0xF) OR push_bit 6 (b1 AND 0x3F) OR (b2 AND 0x3F) in
          if c < 0x800 then None else if c \<ge> 0xD800 \<and> c \<le> 0xDFFF then None else Some c
      else if b3 AND 0xC0 \<noteq> 0x80 then None
      else if len = 4 then
        if b4 \<noteq> 0 then None
        else let c = push_bit 18 (b0 AND 0x7) OR push_bit 12 (b1 AND 0x3F)
                   OR push_bit 6 (b2 AND 0x3F) OR (b3 AND 0x3F) in
          if c < 0x10000 \<or> c > 0x10FFFF then None else Some c
      else None)"

definition firstByteMark :: "nat list" where
  "firstByteMark = [0x00, 0x00, 0xC0, 0xE0, 0xF0, 0xF8, 0xFC]"

text \<open>
  The switch that falls through from \<open>case 4\<close> to \<open>case 1\<close>, writing backwards: the low six
  bits of each remaining value, then the first byte with its mark.
\<close>

fun write_sequence :: "nat \<Rightarrow> nat \<Rightarrow> nat \<Rightarrow> wtf_string" where
  "write_sequence mark 0 c = []"
| "write_sequence mark (Suc 0) c = [(c OR mark) mod 256]"
| "write_sequence mark (Suc (Suc n)) c =
     write_sequence mark (Suc n) (drop_bit 6 c) @ [(c OR 0x80) AND 0xBF]"

section \<open>Latin-1 and UTF-16 to UTF-8\<close>

fun convertLatin1ToUTF8 :: "wtf_string \<Rightarrow> nat \<Rightarrow> ConversionResult \<times> wtf_string \<times> wtf_string" where
  "convertLatin1ToUTF8 [] room = (conversionOK, [], [])"
| "convertLatin1ToUTF8 (c # source) room =
     (let bytesToWrite = (if c < 0x80 then 1 else 2) in
      if bytesToWrite > room then (targetExhausted, c # source, [])
      else let (result, rest, target) = convertLatin1ToUTF8 source (room - bytesToWrite) in
        (result, rest, write_sequence (firstByteMark ! bytesToWrite) bytesToWrite c @ target))"

text \<open>One character of the source: the value and the units behind it, or the error.\<close>

definition next_utf16 :: "bool \<Rightarrow> code_unit \<Rightarrow> wtf_string \<Rightarrow> ConversionResult + nat \<times> wtf_string" where
  "next_utf16 strict c source =
     (if c \<ge> 0xD800 \<and> c \<le> 0xDBFF then
        case source of [] \<Rightarrow> Inl sourceExhausted
        | c2 # rest \<Rightarrow>
            if c2 \<ge> 0xDC00 \<and> c2 \<le> 0xDFFF then
              Inr (push_bit 10 (c - 0xD800) + (c2 - 0xDC00) + 0x10000, rest)
            else if strict then Inl sourceIllegal else Inr (c, source)
      else if strict \<and> c \<ge> 0xDC00 \<and> c \<le> 0xDFFF then Inl sourceIllegal
      else Inr (c, source))"

definition utf8_bytes :: "nat \<Rightarrow> nat \<times> nat" where
  "utf8_bytes c =
     (if c < 0x80 then (1, c) else if c < 0x800 then (2, c) else if c < 0x10000 then (3, c)
      else if c < 0x110000 then (4, c) else (3, replacementCharacter))"

lemma next_utf16_shorter: "next_utf16 strict c source = Inr (v, rest) \<Longrightarrow> length rest \<le> length source"
  by (auto simp: next_utf16_def split: if_splits list.splits)

function convertUTF16ToUTF8 :: "bool \<Rightarrow> wtf_string \<Rightarrow> nat \<Rightarrow> ConversionResult \<times> wtf_string \<times> wtf_string" where
  "convertUTF16ToUTF8 strict [] room = (conversionOK, [], [])"
| "convertUTF16ToUTF8 strict (c # source) room =
     (case next_utf16 strict c source of
        Inl result \<Rightarrow> (result, c # source, [])
      | Inr (v, after) \<Rightarrow>
          (let (bytesToWrite, v') = utf8_bytes v in
           if bytesToWrite > room then (targetExhausted, c # source, [])
           else let (result, rest, target) = convertUTF16ToUTF8 strict after (room - bytesToWrite) in
             (result, rest, write_sequence (firstByteMark ! bytesToWrite) bytesToWrite v' @ target)))"
  by pat_completeness auto
termination
  by (relation "measure (\<lambda>(strict, source, room). length source)")
    (auto dest: next_utf16_shorter simp: less_Suc_eq_le)

definition putUTF8Triple :: "code_unit \<Rightarrow> wtf_string" where
  "putUTF8Triple c = [(drop_bit 12 c AND 0x0F) OR 0xE0, (drop_bit 6 c AND 0x3F) OR 0x80, (c AND 0x3F) OR 0x80]"

text \<open>
  \<open>utf8Impl\<close> with the buffer it is given; \<^const>\<open>None\<close> is \<open>false\<close>. The loop of the
  replacing mode consumes at least one unit per turn: a failed conversion leaves the
  offending surrogate, which is skipped.
\<close>

lemma convertUTF16_rest: "convertUTF16ToUTF8 strict s room = (r, rest, t) \<Longrightarrow> length rest \<le> length s"
proof (induction strict s room arbitrary: r rest t rule: convertUTF16ToUTF8.induct)
  case (2 strict c source room)
  then show ?case
    by (fastforce simp: Let_def dest: next_utf16_shorter split: sum.splits prod.splits if_splits)
qed simp

function utf8_replacing :: "wtf_string \<Rightarrow> nat \<Rightarrow> wtf_string" where
  "utf8_replacing s room =
     (if s = [] then []
      else case convertUTF16ToUTF8 True s room of (result, rest, target) \<Rightarrow>
        if result \<noteq> conversionOK
        then target @ putUTF8Triple replacementCharacter @ utf8_replacing (tl rest) (room - length target - 3)
        else target)"
  by pat_completeness auto
termination
  by (relation "measure (\<lambda>(s, room). length s)")
    (auto dest!: convertUTF16_rest [OF sym] simp: length_greater_0_conv [symmetric] simp del: length_greater_0_conv)

declare utf8_replacing.simps [simp del]

definition utf8Impl :: "wtf_string \<Rightarrow> nat \<Rightarrow> ConversionMode \<Rightarrow> wtf_string option" where
  "utf8Impl characters bufferSize mode =
     (if mode = StrictConversionReplacingUnpairedSurrogatesWithFFFD
      then Some (utf8_replacing characters bufferSize)
      else let strict = (mode = StrictConversion);
               (result, rest, target) = convertUTF16ToUTF8 strict characters bufferSize in
        if result = sourceIllegal then None
        else if result = sourceExhausted then
          if strict then None else Some (target @ putUTF8Triple (hd rest))
        else Some target)"

text \<open>
  \<open>utf8ForRange(0, length(), mode)\<close>, of an 8-bit or a 16-bit string; \<^const>\<open>None\<close> is the null
  \<open>CString\<close>.
\<close>

definition utf8 :: "bool \<Rightarrow> wtf_string \<Rightarrow> ConversionMode \<Rightarrow> wtf_string option" where
  "utf8 is8Bit s mode =
     (if s = [] then Some []
      else if length s > (2 ^ 32 - 1) div 3 then None
      else if is8Bit then Some (snd (snd (convertLatin1ToUTF8 s (length s * 3))))
      else utf8Impl s (length s * 3) mode)"

section \<open>UTF-8 to UTF-16\<close>

definition isLegalUTF8 :: "wtf_string \<Rightarrow> nat \<Rightarrow> bool" where
  "isLegalUTF8 source len =
     (if len = 0 \<or> len > 4 then False
      else if len \<ge> 4 \<and> (at source 3 < 0x80 \<or> at source 3 > 0xBF) then False
      else if len \<ge> 3 \<and> (at source 2 < 0x80 \<or> at source 2 > 0xBF) then False
      else if len \<ge> 2 \<and> at source 1 > 0xBF then False
      else if len \<ge> 2 \<and> (if at source 0 = 0xE0 then at source 1 < 0xA0
                      else if at source 0 = 0xED then at source 1 > 0x9F
                      else if at source 0 = 0xF0 then at source 1 < 0x90
                      else if at source 0 = 0xF4 then at source 1 > 0x8F
                      else at source 1 < 0x80) then False
      else if at source 0 \<ge> 0x80 \<and> at source 0 < 0xC2 then False
      else \<not> at source 0 > 0xF4)"

definition offsetsFromUTF8 :: "int list" where
  "offsetsFromUTF8 = [0x00000000, 0x00003080, 0x000E2080, 0x03C82080]"

text \<open>The fall-through of \<open>readUTF8Sequence\<close>: \<open>character += byte; character <<= 6;\<close> per byte but the last.\<close>

fun read_bytes :: "int \<Rightarrow> wtf_string \<Rightarrow> int" where
  "read_bytes character [] = character"
| "read_bytes character [b] = character + int b"
| "read_bytes character (b # bs) = read_bytes (push_bit 6 (character + int b)) bs"

definition readUTF8Sequence :: "wtf_string \<Rightarrow> nat \<Rightarrow> int" where
  "readUTF8Sequence source len = read_bytes 0 (take len source) - offsetsFromUTF8 ! (len - 1)"

definition U_IS_SURROGATE :: "int \<Rightarrow> bool" where
  "U_IS_SURROGATE c \<longleftrightarrow> c AND 0xfffff800 = 0xd800"

definition U16_LEAD :: "int \<Rightarrow> code_unit" where
  "U16_LEAD c = nat ((drop_bit 10 c + 0xd7c0) mod 2 ^ 16)"

definition U16_TRAIL :: "int \<Rightarrow> code_unit" where
  "U16_TRAIL c = nat (((c AND 0x3ff) OR 0xdc00) mod 2 ^ 16)"

text \<open>
  What is written for one character, \<^const>\<open>None\<close> in strict mode where it is illegal. The
  last component of \<open>convertUTF8ToUTF16\<close> is \<open>orAllData\<close>.
\<close>

definition utf16_units :: "bool \<Rightarrow> int \<Rightarrow> wtf_string option" where
  "utf16_units strict c =
     (if 0 \<le> c \<and> c \<le> 0xffff then
        if U_IS_SURROGATE c then if strict then None else Some [replacementCharacter]
        else Some [nat c]
      else if 0x10000 \<le> c \<and> c \<le> 0x10ffff then Some [U16_LEAD c, U16_TRAIL c]
      else if strict then None else Some [replacementCharacter])"

function convertUTF8ToUTF16 ::
    "bool \<Rightarrow> wtf_string \<Rightarrow> nat \<Rightarrow> nat \<Rightarrow> ConversionResult \<times> wtf_string \<times> wtf_string \<times> nat" where
  "convertUTF8ToUTF16 strict source room orAllData =
     (if source = [] then (conversionOK, [], [], orAllData)
      else let len = inlineUTF8SequenceLength (hd source) in
        if length source < len then (sourceExhausted, source, [], orAllData)
        else if \<not> isLegalUTF8 source len then (sourceIllegal, source, [], orAllData)
        else if room = 0 then (targetExhausted, source, [], orAllData)
        else case utf16_units strict (readUTF8Sequence source len) of
            None \<Rightarrow> (sourceIllegal, source, [], orAllData)
          | Some units \<Rightarrow>
              if length units > room then (targetExhausted, source, [], orAllData)
              else let (result, rest, target, orAll) =
                  convertUTF8ToUTF16 strict (drop len source) (room - length units)
                    (if length units = 2 then 0xffff else orAllData OR hd units) in
                (result, rest, units @ target, orAll))"
  by pat_completeness auto
termination
  by (relation "measure (\<lambda>(strict, source, room, orAllData). length source)")
    (auto simp: isLegalUTF8_def split: if_splits)

declare convertUTF8ToUTF16.simps [simp del]

definition sourceAllASCII :: "nat \<Rightarrow> bool" where
  "sourceAllASCII orAllData \<longleftrightarrow> orAllData div 0x80 = 0"

text \<open>\<open>String::fromUTF8\<close>: \<^const>\<open>None\<close> is the null string.\<close>

definition fromUTF8 :: "wtf_string \<Rightarrow> wtf_string option" where
  "fromUTF8 s =
     (if s = [] then Some []
      else if containsOnlyASCII s then Some s
      else case convertUTF8ToUTF16 True s (length s) 0 of (result, rest, target, _) \<Rightarrow>
        if result \<noteq> conversionOK then None else Some target)"

definition fromUTF8WithLatin1Fallback :: "wtf_string \<Rightarrow> wtf_string" where
  "fromUTF8WithLatin1Fallback s = (case fromUTF8 s of None \<Rightarrow> s | Some t \<Rightarrow> t)"

section \<open>Sequences as arithmetic\<close>

lemma or_mark: 
  assumes "c < 2 ^ n"
  shows "c OR push_bit n m = c + push_bit n (m::nat)"
proof -
  have "\<not> bit c k \<or> \<not> bit (push_bit n m) k" for k
    using assms by (metis bit_push_bit_iff_nat bit_take_bit_iff not_le take_bit_nat_eq_self)
  then show ?thesis by (simp add: disjunctive_add)
qed

lemma and_high: "b AND push_bit n (mask m) = (b div 2 ^ n mod 2 ^ m) * (2 ^ n :: nat)"
proof -
  have "b AND push_bit n (mask m) = push_bit n (take_bit m (drop_bit n b))"
    by (rule bit_eqI) (auto simp: bit_simps)
  then show ?thesis by (simp add: push_bit_eq_mult take_bit_eq_mod drop_bit_eq_div)
qed

lemma and_63: "c AND 63 = (c mod 64 :: nat)"
  using and_high [of c 0 6] by (simp add: mask_numeral)

lemma mask_trail: "(c OR 0x80) AND 0xBF = (0x80 + c mod 64 :: nat)"
proof -
  have "(c OR m) AND (k OR m) = (c AND k) OR m" for k m :: nat
    by (rule bit_eqI) (auto simp: bit_or_iff bit_and_iff)
  from this [of "0x80" 63] have "(c OR 0x80) AND (63 OR 0x80) = (c AND 63) OR 0x80" .
  also have "\<dots> = 0x80 + c mod 64"
    using or_mark [of "c mod 64" 6 2] by (simp add: and_63 push_bit_eq_mult)
  finally show ?thesis by simp
qed

lemma div_eq_range: "0 < m \<Longrightarrow> b div m = q \<longleftrightarrow> q * m \<le> b \<and> b < Suc q * (m::nat)"
  using less_eq_div_iff_mult_less_eq [of m q b] div_less_iff_less_mult [of m b "Suc q"] by auto

lemma inlineUTF8SequenceLength_ranges:
  assumes "b < 256"
  shows "inlineUTF8SequenceLength b = (if b < 0x80 then 1 else if b < 0xC0 then 0 else if b < 0xE0 then 2
    else if b < 0xF0 then 3 else if b < 0xF8 then 4 else 0)"
proof -
  have "b AND 0xC0 = b div 64 mod 4 * 64" "b AND 0xE0 = b div 32 mod 8 * 32"
    "b AND 0xF0 = b div 16 mod 16 * 16" "b AND 0xF8 = b div 8 mod 32 * 8"
    using and_high [of b 6 2] and_high [of b 5 3] and_high [of b 4 4] and_high [of b 3 5]
    by (simp_all add: mask_numeral push_bit_eq_mult)
  moreover have "b div 64 < 4" "b div 32 < 8" "b div 16 < 16" "b div 8 < 32"
    using assms by (simp_all add: div_less_iff_less_mult)
  moreover have "b div 64 = 3 \<longleftrightarrow> 0xC0 \<le> b" "b div 32 = 6 \<longleftrightarrow> 0xC0 \<le> b \<and> b < 0xE0"
    "b div 16 = 14 \<longleftrightarrow> 0xE0 \<le> b \<and> b < 0xF0" "b div 8 = 30 \<longleftrightarrow> 0xF0 \<le> b \<and> b < 0xF8"
    using assms by (simp_all add: div_eq_range)
  ultimately show ?thesis
    unfolding inlineUTF8SequenceLength_def inlineUTF8SequenceLengthNonASCII_def isASCII_def by simp
qed

lemma write_sequence_2: "write_sequence mark 2 c = [(c div 64 OR mark) mod 256, 0x80 + c mod 64]"
  unfolding numeral_2_eq_2 by (simp add: mask_trail drop_bit_eq_div)

lemma write_sequence_3:
  "write_sequence mark 3 c = [(c div 4096 OR mark) mod 256, 0x80 + c div 64 mod 64, 0x80 + c mod 64]"
  unfolding numeral_3_eq_3 by (simp add: mask_trail drop_bit_eq_div div_mult2_eq [symmetric])

lemma write_sequence_4:
  "write_sequence mark 4 c =
     [(c div 262144 OR mark) mod 256, 0x80 + c div 4096 mod 64, 0x80 + c div 64 mod 64, 0x80 + c mod 64]"
proof -
  have 4: "(4::nat) = Suc (Suc (Suc (Suc 0)))" by simp
  show ?thesis unfolding 4 by (simp add: mask_trail drop_bit_eq_div div_mult2_eq [symmetric])
qed

definition encode_scalar :: "nat \<Rightarrow> wtf_string" where
  "encode_scalar c = (case utf8_bytes c of (n, v) \<Rightarrow> write_sequence (firstByteMark ! n) n v)"

lemma encode_scalar_1: "c < 0x80 \<Longrightarrow> encode_scalar c = [c]"
  by (simp add: encode_scalar_def utf8_bytes_def firstByteMark_def)

lemma encode_scalar_2: 
  assumes "0x80 \<le> c" "c < 0x800"
  shows "encode_scalar c = [0xC0 + c div 64, 0x80 + c mod 64]"
proof -
  have "c div 64 < 2 ^ 5" using assms by (simp add: div_less_iff_less_mult)
  from or_mark [OF this, of 6] have "c div 64 OR 0xC0 = c div 64 + 0xC0"
    by (simp add: push_bit_eq_mult)
  then show ?thesis using assms
    by (simp add: encode_scalar_def utf8_bytes_def firstByteMark_def write_sequence_2)
qed

lemma encode_scalar_3:
  assumes "0x800 \<le> c" "c < 0x10000"
  shows "encode_scalar c = [0xE0 + c div 4096, 0x80 + c div 64 mod 64, 0x80 + c mod 64]"
proof -
  have "c div 4096 < 2 ^ 4" using assms by (simp add: div_less_iff_less_mult)
  from or_mark [OF this, of 14] have "c div 4096 OR 0xE0 = c div 4096 + 0xE0"
    by (simp add: push_bit_eq_mult)
  then show ?thesis using assms
    by (simp add: encode_scalar_def utf8_bytes_def firstByteMark_def write_sequence_3)
qed

lemma encode_scalar_4:
  assumes "0x10000 \<le> c" "c < 0x110000"
  shows "encode_scalar c = [0xF0 + c div 262144, 0x80 + c div 4096 mod 64, 0x80 + c div 64 mod 64, 0x80 + c mod 64]"
proof -
  have "c div 262144 < 2 ^ 3" using assms by (simp add: div_less_iff_less_mult)
  from or_mark [OF this, of 30] have "c div 262144 OR 0xF0 = c div 262144 + 0xF0"
    by (simp add: push_bit_eq_mult)
  moreover have "c div 262144 < 16" using assms by (simp add: div_less_iff_less_mult)
  ultimately show ?thesis using assms
    by (simp add: encode_scalar_def utf8_bytes_def firstByteMark_def write_sequence_4)
qed

definition surrogate :: "nat \<Rightarrow> bool" where
  "surrogate c \<longleftrightarrow> 0xD800 \<le> c \<and> c \<le> 0xDFFF"

lemma decode_encode_2:
  assumes "0x80 \<le> c" "c < 0x800"
  shows "inlineUTF8SequenceLength (0xC0 + c div 64) = 2"
    "isLegalUTF8 ((0xC0 + c div 64) # (0x80 + c mod 64) # rest) 2"
    "readUTF8Sequence ((0xC0 + c div 64) # (0x80 + c mod 64) # rest) 2 = int c"
proof -
  have d: "c div 64 < 32" "2 \<le> c div 64" "c mod 64 < 64" 
    using assms by (simp_all add: div_less_iff_less_mult less_eq_div_iff_mult_less_eq)
  then show "inlineUTF8SequenceLength (0xC0 + c div 64) = 2"
    by (subst inlineUTF8SequenceLength_ranges) simp_all
  show "isLegalUTF8 ((0xC0 + c div 64) # (0x80 + c mod 64) # rest) 2"
    using d by (simp add: isLegalUTF8_def)
  have "int c = int (c div 64) * 64 + int (c mod 64)"
    by (metis div_mult_mod_eq of_nat_add of_nat_mult of_nat_numeral)
  then show "readUTF8Sequence ((0xC0 + c div 64) # (0x80 + c mod 64) # rest) 2 = int c"
    by (simp add: readUTF8Sequence_def numeral_2_eq_2 offsetsFromUTF8_def push_bit_eq_mult)
qed

lemma decode_encode_3:
  assumes "0x800 \<le> c" "c < 0x10000" "\<not> surrogate c"
    and s_def: "s = (0xE0 + c div 4096) # (0x80 + c div 64 mod 64) # (0x80 + c mod 64) # rest"
  shows "inlineUTF8SequenceLength (hd s) = 3" "isLegalUTF8 s 3" "readUTF8Sequence s 3 = int c"
proof -
  have d: "c div 4096 < 16" "c mod 64 < 64" "c div 64 mod 64 < 64"
    using assms by (simp_all add: div_less_iff_less_mult)
  show "inlineUTF8SequenceLength (hd s) = 3"
    unfolding s_def using d by (subst list.sel, subst inlineUTF8SequenceLength_ranges) simp_all
  have "c div 64 div 64 = c div 4096" by (simp add: div_mult2_eq [symmetric])
  then have c: "c = c div 4096 * 4096 + c div 64 mod 64 * 64 + c mod 64"
    using div_mult_mod_eq [of c 64] div_mult_mod_eq [of "c div 64" 64] by linarith
  have "0xA0 \<le> 0x80 + c div 64 mod 64" if "c div 4096 = 0" using c d that assms(1) by linarith
  moreover have "0x80 + c div 64 mod 64 \<le> 0x9F" if "c div 4096 = 13"
    using c d that assms(3) unfolding surrogate_def by linarith
  ultimately show "isLegalUTF8 s 3" unfolding s_def isLegalUTF8_def using d
    by (auto simp: numeral_2_eq_2)
  have "int c = int (c div 4096) * 4096 + int (c div 64 mod 64) * 64 + int (c mod 64)"
    using arg_cong [OF c, of int] by (simp only: of_nat_add of_nat_mult of_nat_numeral)
  then show "readUTF8Sequence s 3 = int c"
    unfolding s_def by (simp add: readUTF8Sequence_def numeral_3_eq_3 offsetsFromUTF8_def push_bit_eq_mult)
qed

lemma isLegalUTF8_4:
  "(q = 0 \<Longrightarrow> 16 \<le> x) \<Longrightarrow> (q = 4 \<Longrightarrow> x \<le> 15) \<Longrightarrow> at s 0 = 0xF0 + q \<Longrightarrow> at s 1 = 0x80 + x \<Longrightarrow> at s 2 = 0x80 + y \<Longrightarrow>
     at s 3 = 0x80 + z \<Longrightarrow> q < 5 \<Longrightarrow> z < 64 \<Longrightarrow> y < 64 \<Longrightarrow> x < 64 \<Longrightarrow> isLegalUTF8 s 4"
  by (auto simp add: isLegalUTF8_def)

lemma decode_encode_4:
  assumes "0x10000 \<le> c" "c < 0x110000"
    and s_def: "s = (0xF0 + c div 262144) # (0x80 + c div 4096 mod 64) # (0x80 + c div 64 mod 64) # (0x80 + c mod 64) # rest"
  shows "inlineUTF8SequenceLength (hd s) = 4" "isLegalUTF8 s 4" "readUTF8Sequence s 4 = int c"
proof -
  have d: "c div 262144 < 5" "c mod 64 < 64" "c div 64 mod 64 < 64" "c div 4096 mod 64 < 64"
    using assms by (simp_all add: div_less_iff_less_mult)
  show "inlineUTF8SequenceLength (hd s) = 4"
    unfolding s_def using d by (subst list.sel, subst inlineUTF8SequenceLength_ranges) simp_all
  have "c div 64 div 64 = c div 4096" "c div 4096 div 64 = c div 262144" by (simp_all add: div_mult2_eq [symmetric])
  then have c: "c = c div 262144 * 262144 + c div 4096 mod 64 * 4096 + c div 64 mod 64 * 64 + c mod 64"
    using div_mult_mod_eq [of c 64] div_mult_mod_eq [of "c div 64" 64] div_mult_mod_eq [of "c div 4096" 64]
    by linarith
  have "16 \<le> c div 4096 mod 64" if "c div 262144 = 0" using c d that assms(1) by linarith
  moreover have "c div 4096 mod 64 \<le> 15" if "c div 262144 = 4"
    using c d that assms(2) by linarith
  moreover have "at s 0 = 0xF0 + c div 262144" "at s 1 = 0x80 + c div 4096 mod 64"
    "at s 2 = 0x80 + c div 64 mod 64" "at s 3 = 0x80 + c mod 64"
    by (simp_all add: s_def at_def)
  ultimately show "isLegalUTF8 s 4" using d by (intro isLegalUTF8_4)
  have "int c = int (c div 262144) * 262144 + int (c div 4096 mod 64) * 4096 + int (c div 64 mod 64) * 64 + int (c mod 64)"
    using arg_cong [OF c, of int] by (simp only: of_nat_add of_nat_mult of_nat_numeral)
  moreover have "take 4 s = [0xF0 + c div 262144, 0x80 + c div 4096 mod 64, 0x80 + c div 64 mod 64, 0x80 + c mod 64]"
    by (simp add: s_def)
  ultimately show "readUTF8Sequence s 4 = int c"
    by (simp add: readUTF8Sequence_def offsetsFromUTF8_def push_bit_eq_mult)
qed

section \<open>Well-formed UTF-16\<close>

definition high_surrogate :: "code_unit \<Rightarrow> bool" where
  "high_surrogate c \<longleftrightarrow> 0xD800 \<le> c \<and> c \<le> 0xDBFF"

definition low_surrogate :: "code_unit \<Rightarrow> bool" where
  "low_surrogate c \<longleftrightarrow> 0xDC00 \<le> c \<and> c \<le> 0xDFFF"

text \<open>The scalar values a UTF-16 string denotes, \<^const>\<open>None\<close> if it has an unpaired surrogate.\<close>

fun scalars :: "wtf_string \<Rightarrow> nat list option" where
  "scalars [] = Some []"
| "scalars (c # s) =
     (if high_surrogate c then
        (case s of [] \<Rightarrow> None
         | d # r \<Rightarrow> if low_surrogate d
             then map_option ((#) (0x10000 + (c - 0xD800) * 1024 + (d - 0xDC00))) (scalars r) else None)
      else if low_surrogate c then None
      else map_option ((#) c) (scalars s))"

definition units :: "nat \<Rightarrow> wtf_string" where
  "units c = (if c < 0x10000 then [c] else [0xD800 + (c - 0x10000) div 1024, 0xDC00 + (c - 0x10000) mod 1024])"

definition scalar_value :: "nat \<Rightarrow> bool" where
  "scalar_value c \<longleftrightarrow> c < 0x110000 \<and> \<not> surrogate c"

lemma length_encode_scalar: "length (encode_scalar c) = fst (utf8_bytes c)"
proof -
  have "length (write_sequence m n v) = n" for m n v by (induction m n v rule: write_sequence.induct) auto
  then show ?thesis by (simp add: encode_scalar_def split: prod.split)
qed

lemma encode_scalar_write:
  "utf8_bytes v = (n, v') \<Longrightarrow> write_sequence (firstByteMark ! n) n v' = encode_scalar v"
  by (simp add: encode_scalar_def)

lemma U_IS_SURROGATE_iff: "0 \<le> c \<Longrightarrow> c \<le> 0xffff \<Longrightarrow> U_IS_SURROGATE c \<longleftrightarrow> surrogate (nat c)"
proof -
  assume c: "0 \<le> c" "c \<le> 0xffff"
  have "c AND push_bit 11 (mask 21) = push_bit 11 (take_bit 21 (drop_bit 11 c))"
    by (rule bit_eqI) (auto simp: bit_simps)
  then have "c AND 0xfffff800 = c div 2048 mod 2097152 * 2048"
    by (simp add: mask_numeral push_bit_eq_mult take_bit_eq_mod drop_bit_eq_div)
  moreover have "c div 2048 mod 2097152 = c div 2048" using c by (simp add: mod_pos_pos_trivial pos_imp_zdiv_nonneg_iff)
  ultimately have "U_IS_SURROGATE c \<longleftrightarrow> c div 2048 = 27" by (simp add: U_IS_SURROGATE_def)
  also have "\<dots> \<longleftrightarrow> 0xD800 \<le> c \<and> c \<le> 0xDFFF" by auto
  also have "\<dots> \<longleftrightarrow> surrogate (nat c)" using c by (auto simp: surrogate_def)
  finally show ?thesis .
qed

lemma U16_LEAD_units:
  assumes "0x10000 \<le> c" "c < 0x110000"
  shows "U16_LEAD (int c) = 0xD800 + (c - 0x10000) div 1024"
proof -
  obtain k where k: "c = k + 0x10000" using assms(1) by (metis add.commute le_Suc_ex)
  have "k div 1024 < 1024" using assms k by (simp add: div_less_iff_less_mult)
  moreover have "int c div 1024 = int (k div 1024) + 64" by (simp add: k zdiv_int)
  ultimately show ?thesis by (simp add: U16_LEAD_def drop_bit_eq_div k)
qed

lemma U16_TRAIL_units:
  assumes "0x10000 \<le> c"
  shows "U16_TRAIL (int c) = 0xDC00 + (c - 0x10000) mod 1024"
proof -
  obtain k where k: "c = k + 0x10000" using assms(1) by (metis add.commute le_Suc_ex)
  have "int c AND mask 10 = int (k mod 1024)"
    using mod_mult_self1 [of "int k" 64 1024]
    by (simp only: take_bit_eq_mask [symmetric]) (simp add: take_bit_eq_mod k zmod_int)
  then have c: "int c AND 0x3ff = int (k mod 1024)" by (simp add: mask_numeral)
  have "k mod 1024 OR 0xdc00 = k mod 1024 + 0xdc00"
    using or_mark [of "k mod 1024" 10 55] by (simp add: push_bit_eq_mult)
  from arg_cong [OF this, of int] have "int (k mod 1024) OR 0xdc00 = int (k mod 1024 + 0xdc00)"
    by (simp only: of_nat_or_eq of_nat_numeral)
  moreover have "k mod 1024 < 1024" by simp
  ultimately show ?thesis unfolding U16_TRAIL_def c by (simp add: k nat_mod_distrib)
qed

lemma decode_scalar:
  assumes "scalar_value c"
  defines "n \<equiv> length (encode_scalar c)"
  shows "inlineUTF8SequenceLength (hd (encode_scalar c @ rest)) = n"
    "isLegalUTF8 (encode_scalar c @ rest) n" "readUTF8Sequence (encode_scalar c @ rest) n = int c"
proof -
  consider "c < 0x80" | "0x80 \<le> c" "c < 0x800" | "0x800 \<le> c" "c < 0x10000" | "0x10000 \<le> c" by linarith
  then have "inlineUTF8SequenceLength (hd (encode_scalar c @ rest)) = n \<and>
      isLegalUTF8 (encode_scalar c @ rest) n \<and> readUTF8Sequence (encode_scalar c @ rest) n = int c"
  proof cases
    case 1
    then show ?thesis unfolding n_def encode_scalar_1 [OF 1]
      by (simp add: inlineUTF8SequenceLength_def isASCII_def isLegalUTF8_def readUTF8Sequence_def offsetsFromUTF8_def)
  next
    case 2
    then show ?thesis unfolding n_def encode_scalar_2 [OF 2]
      using decode_encode_2 [OF 2] by (simp add: numeral_2_eq_2)
  next
    case 3
    then show ?thesis unfolding n_def encode_scalar_3 [OF 3]
      using decode_encode_3 [OF 3 _ refl, of rest] assms(1) by (simp add: numeral_3_eq_3 scalar_value_def)
  next
    case 4
    then have "c < 0x110000" using assms(1) by (simp add: scalar_value_def)
    note e = encode_scalar_4 [OF 4 this]
    have "n = 4" by (simp add: n_def e)
    then show ?thesis unfolding e
      using decode_encode_4 [OF 4 \<open>c < 0x110000\<close> refl, of rest] by simp
  qed
  then show "inlineUTF8SequenceLength (hd (encode_scalar c @ rest)) = n"
    "isLegalUTF8 (encode_scalar c @ rest) n" "readUTF8Sequence (encode_scalar c @ rest) n = int c" by blast+
qed

lemma utf16_units_scalar: "scalar_value c \<Longrightarrow> utf16_units strict (int c) = Some (units c)"
  using U_IS_SURROGATE_iff [of "int c"] U16_LEAD_units [of c] U16_TRAIL_units [of c]
  by (auto simp: utf16_units_def units_def scalar_value_def)

lemma length_units: "length (units c) = (if c < 0x10000 then 1 else 2)"
  by (simp add: units_def)

lemma encode_scalar_nonempty: "encode_scalar c \<noteq> []"
  using length_encode_scalar [of c] by (auto simp: utf8_bytes_def split: if_splits)

lemma convertUTF8_scalars:
  assumes "list_all scalar_value cs" "length (concat (map units cs)) \<le> room"
  shows "\<exists>orAll'. convertUTF8ToUTF16 strict (concat (map encode_scalar cs)) room orAll =
    (conversionOK, [], concat (map units cs), orAll')"
  using assms
proof (induction cs arbitrary: room orAll)
  case Nil
  then show ?case by (simp add: convertUTF8ToUTF16.simps)
next
  case (Cons c cs)
  let ?rest = "concat (map encode_scalar cs)" and ?u = "units c"
  let ?or = "if length ?u = 2 then 0xffff else orAll OR hd ?u"
  have c: "scalar_value c" using Cons.prems by simp
  have room: "length ?u \<le> room" "room \<noteq> 0" using Cons.prems(2) length_units [of c] by (auto split: if_splits)
  obtain o' where "convertUTF8ToUTF16 strict ?rest (room - length ?u) ?or =
      (conversionOK, [], concat (map units cs), o')"
    using Cons.IH [of "room - length ?u"] Cons.prems by fastforce
  then show ?case
    using decode_scalar [OF c, of ?rest] utf16_units_scalar [OF c, of strict] room encode_scalar_nonempty [of c]
    by (subst convertUTF8ToUTF16.simps) (simp add: Let_def)
qed

lemma surrogate_split: "surrogate c \<longleftrightarrow> high_surrogate c \<or> low_surrogate c"
  by (auto simp: surrogate_def high_surrogate_def low_surrogate_def)

lemma next_utf16_not_ok: "next_utf16 strict c s \<noteq> Inl conversionOK"
  by (auto simp: next_utf16_def split: list.splits)

lemma scalars_units:
  assumes "scalars s = Some cs" "list_all (\<lambda>c. c < 0x10000) s"
  shows "list_all scalar_value cs" "concat (map units cs) = s"
proof -
  have "list_all scalar_value cs \<and> concat (map units cs) = s"
    using assms
  proof (induction s arbitrary: cs rule: scalars.induct)
    case (2 c s)
    show ?case
    proof (cases "high_surrogate c")
      case True
      with "2.prems"(1) obtain d r cs' where s: "s = d # r" and d: "low_surrogate d"
        and r: "scalars r = Some cs'" and cs: "cs = (0x10000 + (c - 0xD800) * 1024 + (d - 0xDC00)) # cs'"
        by (auto split: list.splits if_splits)
      define h l where "h = c - 0xD800" and "l = d - 0xDC00"
      have "h < 1024" "l < 1024" and c: "c = 0xD800 + h" "d = 0xDC00 + l"
        using True d by (auto simp: h_def l_def high_surrogate_def low_surrogate_def)
      then have "units (0x10000 + h * 1024 + l) = [c, d]" "scalar_value (0x10000 + h * 1024 + l)"
        by (auto simp: units_def scalar_value_def surrogate_def)
      then show ?thesis
        using "2.IH"(1) [OF True s d r] "2.prems"(2) by (simp add: cs s h_def l_def)
    next
      case False
      with "2.prems"(1) obtain cs' where "scalars s = Some cs'" "cs = c # cs'" "\<not> low_surrogate c"
        by (auto split: if_splits)
      then show ?thesis using "2.IH"(2) [OF False] "2.prems"(2) False
        by (simp add: units_def scalar_value_def surrogate_split)
    qed
  qed simp
  then show "list_all scalar_value cs" "concat (map units cs) = s" by blast+
qed

lemma fst_utf8_bytes: "fst (utf8_bytes c) \<le> 4" "c < 0x10000 \<Longrightarrow> fst (utf8_bytes c) \<le> 3"
  by (simp_all add: utf8_bytes_def)

lemma convertUTF16_scalars:
  assumes "scalars s = Some cs" "list_all (\<lambda>c. c < 0x10000) s" "3 * length s \<le> room"
  shows "convertUTF16ToUTF8 strict s room = (conversionOK, [], concat (map encode_scalar cs))"
  using assms
proof (induction s arbitrary: cs room rule: scalars.induct)
  case (2 c s)
  obtain v after cs' where n: "next_utf16 strict c s = Inr (v, after)" and cs: "cs = v # cs'"
    and r: "scalars after = Some cs'" and len: "3 * length after + fst (utf8_bytes v) \<le> 3 * length (c # s)"
    and IH: "\<And>room. 3 * length after \<le> room \<Longrightarrow>
      convertUTF16ToUTF8 strict after room = (conversionOK, [], concat (map encode_scalar cs'))"
  proof (cases "high_surrogate c")
    case True
    with "2.prems"(1) obtain d r cs' where s: "s = d # r" and d: "low_surrogate d"
      and r: "scalars r = Some cs'" and cs: "cs = (0x10000 + (c - 0xD800) * 1024 + (d - 0xDC00)) # cs'"
      by (auto split: list.splits if_splits)
    show thesis
    proof (rule that)
      show "next_utf16 strict c s = Inr (0x10000 + (c - 0xD800) * 1024 + (d - 0xDC00), r)"
        using True d by (simp add: s next_utf16_def high_surrogate_def low_surrogate_def push_bit_eq_mult)
      show "3 * length r + fst (utf8_bytes (0x10000 + (c - 0xD800) * 1024 + (d - 0xDC00))) \<le> 3 * length (c # s)"
        using fst_utf8_bytes(1) [of "0x10000 + (c - 0xD800) * 1024 + (d - 0xDC00)"] by (simp add: s)
    qed (use "2.IH"(1) [OF True s d r] "2.prems"(2) cs r s in simp_all)
  next
    case False
    with "2.prems"(1) obtain cs' where c: "scalars s = Some cs'" "cs = c # cs'" "\<not> low_surrogate c"
      by (auto split: if_splits)
    show thesis
    proof (rule that [of c s cs'])
      show "next_utf16 strict c s = Inr (c, s)"
        using False c(3) by (auto simp: next_utf16_def high_surrogate_def low_surrogate_def)
      show "3 * length s + fst (utf8_bytes c) \<le> 3 * length (c # s)"
        using fst_utf8_bytes(2) [of c] "2.prems"(2) by simp
    qed (use "2.IH"(2) [OF False c(3,1)] "2.prems"(2) c in simp_all)
  qed
  obtain b v' where b: "utf8_bytes v = (b, v')" by fastforce
  then show ?case
    using n len "2.prems"(3) IH [of "room - b"] encode_scalar_write [OF b] by (simp add: cs)
qed simp

lemma convertUTF16_strict:
  "convertUTF16ToUTF8 True s room = (conversionOK, rest, t) \<Longrightarrow> \<exists>cs. scalars s = Some cs"
proof (induction s arbitrary: room rest t rule: scalars.induct)
  case (2 c s)
  from "2.prems" obtain v after b v' rest' t' where n: "next_utf16 True c s = Inr (v, after)"
    and r: "convertUTF16ToUTF8 True after (room - b) = (conversionOK, rest', t')"
    by (auto simp: Let_def next_utf16_not_ok split: sum.splits prod.splits if_splits)
  show ?case
  proof (cases "high_surrogate c")
    case True
    with n obtain d where "s = d # after" "low_surrogate d"
      by (auto simp: next_utf16_def high_surrogate_def low_surrogate_def split: list.splits if_splits)
    with True "2.IH"(1) r show ?thesis by fastforce
  next
    case False
    with n have "after = s" "\<not> low_surrogate c"
      by (auto simp: next_utf16_def high_surrogate_def low_surrogate_def split: if_splits)
    with False "2.IH"(2) r show ?thesis by fastforce
  qed
qed simp

section \<open>Room in the target\<close>

lemma length_write_sequence: "length (write_sequence m n v) = n"
  by (induction m n v rule: write_sequence.induct) auto

lemma convertUTF16_room: "convertUTF16ToUTF8 strict s room = (r, rest, t) \<Longrightarrow> length t \<le> room"
proof (induction strict s room arbitrary: r rest t rule: convertUTF16ToUTF8.induct)
  case (2 strict c source room)
  then show ?case
    by (fastforce simp: Let_def length_write_sequence split: sum.splits prod.splits if_splits)
qed simp

lemma next_utf16_cost:
  assumes "next_utf16 strict c s = Inr (v, after)" "list_all (\<lambda>c. c < 0x10000) (c # s)"
  shows "fst (utf8_bytes v) + 3 * length after \<le> 3 * length (c # s)" "list_all (\<lambda>c. c < 0x10000) after"
proof -
  consider "v = c" "after = s" | "length s = Suc (length after)" "list_all (\<lambda>c. c < 0x10000) after"
    using assms by (auto simp: next_utf16_def split: if_splits list.splits)
  then show "fst (utf8_bytes v) + 3 * length after \<le> 3 * length (c # s)" "list_all (\<lambda>c. c < 0x10000) after"
    by (cases, use assms(2) fst_utf8_bytes [of v] in auto)+
qed

lemma next_utf16_error: "next_utf16 strict c s = Inl r \<Longrightarrow> r \<noteq> targetExhausted \<and> (\<not> strict \<longrightarrow> s = [] \<and> r = sourceExhausted)"
  by (auto simp: next_utf16_def split: if_splits list.splits)

lemma convertUTF16_enough_room:
  assumes "convertUTF16ToUTF8 strict s room = (r, rest, t)" "list_all (\<lambda>c. c < 0x10000) s" "3 * length s \<le> room"
  shows "r \<noteq> targetExhausted \<and> (\<not> strict \<longrightarrow> r = conversionOK \<and> rest = [] \<or> r = sourceExhausted \<and> (\<exists>c. rest = [c]))"
  using assms
proof (induction strict s room arbitrary: r rest t rule: convertUTF16ToUTF8.induct)
  case (2 strict c source room)
  show ?case
  proof (cases "next_utf16 strict c source")
    case (Inl e)
    with "2.prems"(1) next_utf16_error [OF Inl] show ?thesis by auto
  next
    case (Inr p)
    then obtain v after where n: "next_utf16 strict c source = Inr (v, after)" by (cases p) auto
    obtain b v' where b: "utf8_bytes v = (b, v')" by fastforce
    note cost = next_utf16_cost [OF n "2.prems"(2)]
    have room: "\<not> b > room" "3 * length after \<le> room - b" using cost(1) "2.prems"(3) b by auto
    obtain t' where "convertUTF16ToUTF8 strict after (room - b) = (r, rest, t')"
      using "2.prems"(1) room by (auto simp: n b split: prod.splits)
    then show ?thesis using "2.IH" [OF n refl refl b [symmetric] room(1) _ cost(2) room(2)] by blast
  qed
qed simp

section \<open>Latin-1\<close>

lemma convertLatin1_eq:
  "list_all (\<lambda>c. c < 256) s \<Longrightarrow> convertLatin1ToUTF8 s room = convertUTF16ToUTF8 strict s room"
proof (induction s room rule: convertLatin1ToUTF8.induct)
  case (2 c source room)
  have "next_utf16 strict c source = Inr (c, source)" "utf8_bytes c = (if c < 0x80 then 1 else 2, c)"
    using "2.prems" by (simp_all add: next_utf16_def utf8_bytes_def)
  then show ?case using 2 by (simp add: Let_def)
qed simp

section \<open>One sequence\<close>

lemma and_low: "b AND mask m = (b mod 2 ^ m :: nat)"
  by (simp add: take_bit_eq_mask [symmetric] take_bit_eq_mod)

lemma trail_bits:
  assumes "z < 64"
  shows "(0x80 + z) AND 0xC0 = (0x80 :: nat)" "(0x80 + z) AND 0x3F = z"
proof -
  have "(0x80 + z) div 64 = 2" "(0x80 + z) mod 64 = z"
    using assms div_mult_self1 [of 64 z 2] mod_mult_self1 [of z 2 64] by (simp_all add: add.commute)
  then show "(0x80 + z) AND 0xC0 = 0x80" "(0x80 + z) AND 0x3F = z"
    using and_high [of "0x80 + z" 6 2] and_low [of "0x80 + z" 6]
    by (simp_all add: mask_numeral push_bit_eq_mult)
qed

lemma or_disjoint: "x < 2 ^ n \<Longrightarrow> push_bit n m OR x = m * 2 ^ n + (x :: nat)"
  using or_mark [of x n m] by (simp add: or.commute push_bit_eq_mult)

lemma and_numerals: "b AND 0x1F = (b mod 32 :: nat)" "b AND 0xF = (b mod 16 :: nat)" "b AND 0x7 = (b mod 8 :: nat)"
proof -
  have "mask 5 = (0x1F :: nat)" "mask 4 = (0xF :: nat)" "mask 3 = (0x7 :: nat)"
    by (simp_all add: mask_eq_exp_minus_1)
  then show "b AND 0x1F = b mod 32" "b AND 0xF = b mod 16" "b AND 0x7 = b mod 8"
    using and_low [of b 5] and_low [of b 4] and_low [of b 3] by simp_all
qed

lemma first_bits:
  "q < 32 \<Longrightarrow> (0xC0 + q) AND 0x1F = (q::nat)" "q < 16 \<Longrightarrow> (0xE0 + q) AND 0xF = q"
  "q < 8 \<Longrightarrow> (0xF0 + q) AND 0x7 = q"
  unfolding and_numerals
  using mod_mult_self1 [of q 6 32] mod_mult_self1 [of q 14 16] mod_mult_self1 [of q 30 8]
  by (simp_all add: add.commute)

lemma at_list: "at [a] 0 = a" "at [a, b] 1 = b" "at [a, b, c] 2 = c" "at [a, b, c, d] 3 = d"
  "at [a, b, c] 1 = b" "at [a, b, c, d] 1 = b" "at [a, b, c, d] 2 = c" "at [a] 1 = 0" "at [a, b] 2 = 0"
  "at [a, b, c] 3 = 0" "at [a, b, c, d] 4 = 0" 
  by (simp_all add: at_def)

lemma decodeUTF8Sequence_2:
  assumes "q < 32" "2 \<le> q" "r < 64"
  shows "decodeUTF8Sequence [0xC0 + q, 0x80 + r] = Some (q * 64 + r)"
proof -
  have "inlineUTF8SequenceLength (0xC0 + q) = 2"
    using assms by (subst inlineUTF8SequenceLength_ranges) simp_all
  moreover have "push_bit 6 q OR r = q * 64 + r" using or_disjoint [of r 6 q] assms by simp
  ultimately show ?thesis using assms
    unfolding decodeUTF8Sequence_def Let_def at_Cons(1) at_list trail_bits [OF assms(3)] first_bits(1) [OF assms(1)]
    by simp
qed

lemma decodeUTF8Sequence_3:
  assumes "q < 16" "x < 64" "r < 64" "0x800 \<le> q * 4096 + x * 64 + r" "\<not> surrogate (q * 4096 + x * 64 + r)"
  shows "decodeUTF8Sequence [0xE0 + q, 0x80 + x, 0x80 + r] = Some (q * 4096 + x * 64 + r)"
proof -
  have "inlineUTF8SequenceLength (0xE0 + q) = 3"
    using assms by (subst inlineUTF8SequenceLength_ranges) simp_all
  moreover have "push_bit 12 q OR push_bit 6 x OR r = q * 4096 + x * 64 + r"
    using or_disjoint [of r 6 x] or_disjoint [of "x * 64 + r" 12 q] assms by simp
  ultimately show ?thesis using assms(4,5)
    unfolding decodeUTF8Sequence_def Let_def at_Cons(1) at_list trail_bits [OF assms(2)] trail_bits [OF assms(3)]
      first_bits(2) [OF assms(1)] surrogate_def
    by simp
qed

lemma decodeUTF8Sequence_4:
  assumes "q < 5" "x < 64" "y < 64" "r < 64" "0x10000 \<le> q * 262144 + x * 4096 + y * 64 + r"
    "q * 262144 + x * 4096 + y * 64 + r < 0x110000"
  shows "decodeUTF8Sequence [0xF0 + q, 0x80 + x, 0x80 + y, 0x80 + r] = Some (q * 262144 + x * 4096 + y * 64 + r)"
proof -
  have q: "q < 8" using assms by simp
  have "inlineUTF8SequenceLength (0xF0 + q) = 4"
    using assms by (subst inlineUTF8SequenceLength_ranges) simp_all
  moreover have "push_bit 18 q OR push_bit 12 x OR push_bit 6 y OR r = q * 262144 + x * 4096 + y * 64 + r"
    using or_disjoint [of r 6 y] or_disjoint [of "y * 64 + r" 12 x] or_disjoint [of "x * 4096 + y * 64 + r" 18 q] assms
    by (simp add: add.assoc)
  ultimately show ?thesis using assms(5,6)
    unfolding decodeUTF8Sequence_def Let_def at_Cons(1) at_list trail_bits [OF assms(2)] trail_bits [OF assms(3)]
      trail_bits [OF assms(4)] first_bits(3) [OF q]
    by simp
qed

lemma encode_scalar_ascii:
  assumes "list_all (\<lambda>b. b < 0x80) (encode_scalar c)"
  shows "encode_scalar c = units c"
proof -
  consider "c < 0x80" | "0x80 \<le> c" "c < 0x800" | "0x800 \<le> c" "c < 0x10000"
    | "0x10000 \<le> c" "c < 0x110000" | "0x110000 \<le> c" by linarith
  then show ?thesis
  proof cases
    case 5
    then have "encode_scalar c = encode_scalar 0xFFFD"
      by (simp add: encode_scalar_def utf8_bytes_def replacementCharacter_def)
    with encode_scalar_3 [of "0xFFFD"] assms show ?thesis by simp
  qed (use assms encode_scalar_1 encode_scalar_2 encode_scalar_3 encode_scalar_4 in \<open>auto simp: units_def\<close>)
qed

lemma encode_scalars_ascii:
  "list_all (\<lambda>b. b < 0x80) (concat (map encode_scalar cs)) \<Longrightarrow>
     concat (map encode_scalar cs) = concat (map units cs)"
  by (induction cs) (auto intro: encode_scalar_ascii)

lemma length_units_le: "length (units c) \<le> length (encode_scalar c)"
  using length_encode_scalar [of c] length_units [of c] by (auto simp: utf8_bytes_def split: if_splits)

lemma length_concat_units: "length (concat (map units cs)) \<le> length (concat (map encode_scalar cs))"
  by (induction cs) (auto intro: add_mono length_units_le)

lemma fromUTF8_encode:
  assumes "list_all scalar_value cs"
  shows "fromUTF8 (concat (map encode_scalar cs)) = Some (concat (map units cs))"
proof (cases "containsOnlyASCII (concat (map encode_scalar cs))")
  case True
  then have "concat (map encode_scalar cs) = concat (map units cs)"
    by (intro encode_scalars_ascii) (simp add: containsOnlyASCII_def isASCII_def list_all_iff)
  with True show ?thesis by (simp add: fromUTF8_def)
next
  case False
  moreover have "containsOnlyASCII []" by (simp add: containsOnlyASCII_def)
  ultimately have "concat (map encode_scalar cs) \<noteq> []" by metis
  with False convertUTF8_scalars [OF assms length_concat_units, of True 0] show ?thesis
    by (auto simp: fromUTF8_def)
qed

section \<open>Properties\<close>

text \<open>
  C16: Decoding the strict UTF-8 encoding of a 16-bit string gives the string back: whenever
  \<open>String::utf8\<close> succeeds in strict mode, \<open>String::fromUTF8\<close> of its bytes is the string.
\<close>

theorem fromUTF8_utf8:
  assumes "list_all (\<lambda>c. c < 2 ^ 16) s" "utf8 False s StrictConversion = Some t"
  shows "fromUTF8 t = Some s"
proof (cases "s = []")
  case True
  with assms(2) show ?thesis by (simp add: utf8_def fromUTF8_def)
next
  case False
  with assms(2) obtain r rest where r: "convertUTF16ToUTF8 True s (length s * 3) = (r, rest, t)"
    "r \<noteq> sourceIllegal" "r \<noteq> sourceExhausted"
    by (auto simp: utf8_def utf8Impl_def split: prod.splits if_splits)
  have u: "list_all (\<lambda>c. c < 0x10000) s" using assms(1) by simp
  have "r = conversionOK" using convertUTF16_enough_room [OF r(1) u] r by (cases r) auto
  with r(1) obtain cs where cs: "scalars s = Some cs" using convertUTF16_strict by blast
  have "t = concat (map encode_scalar cs)" using convertUTF16_scalars [OF cs u, of "length s * 3" True] r(1) by simp
  with scalars_units [OF cs u] fromUTF8_encode [of cs] show ?thesis by simp
qed

theorem fromUTF8_utf8_witness:
  "fromUTF8 [0xC3, 0xA9, 0xF0, 0x9F, 0x98, 0x80] = Some [0xE9, 0xD83D, 0xDE00]"
proof (rule fromUTF8_utf8)
  show "list_all (\<lambda>c. c < 2 ^ 16) [0xE9, 0xD83D, 0xDE00 :: nat]" by simp
  show "utf8 False [0xE9, 0xD83D, 0xDE00] StrictConversion = Some [0xC3, 0xA9, 0xF0, 0x9F, 0x98, 0x80]"
    by (simp add: utf8_def utf8Impl_def next_utf16_def utf8_bytes_def firstByteMark_def
        write_sequence_2 write_sequence_4 push_bit_eq_mult)
qed

text \<open>
  C30: Strict conversion to UTF-8 succeeds exactly on well-formed UTF-16, that is, where
  every surrogate is part of a pair; three bytes of room per unit are given.
\<close>

theorem convertUTF16ToUTF8_strict_iff:
  assumes "list_all (\<lambda>c. c < 2 ^ 16) s"
  shows "fst (convertUTF16ToUTF8 True s (3 * length s)) = conversionOK \<longleftrightarrow> scalars s \<noteq> None"
proof
  assume "fst (convertUTF16ToUTF8 True s (3 * length s)) = conversionOK"
  then show "scalars s \<noteq> None"
    using convertUTF16_strict by (cases "convertUTF16ToUTF8 True s (3 * length s)") fastforce
next
  assume "scalars s \<noteq> None"
  then obtain cs where "scalars s = Some cs" by blast
  from convertUTF16_scalars [OF this _ order_refl, of True] assms
  show "fst (convertUTF16ToUTF8 True s (3 * length s)) = conversionOK" by simp
qed

theorem convertUTF16ToUTF8_strict_iff_witness:
  "fst (convertUTF16ToUTF8 True [0x41, 0xD83D] (3 * length [0x41, 0xD83D :: nat])) \<noteq> conversionOK"
  using convertUTF16ToUTF8_strict_iff [of "[0x41, 0xD83D]"]
  by (simp add: high_surrogate_def low_surrogate_def)

text \<open>
  C31: The buffer of \<open>StringImpl::utf8ForRange\<close>, three bytes per unit, is never exhausted and
  never overrun, whatever the string and the mode; a lenient conversion consumes the whole
  string, or all but a final unpaired high surrogate.
\<close>

theorem convertUTF16ToUTF8_fits:
  assumes "list_all (\<lambda>c. c < 2 ^ 16) s" "convertUTF16ToUTF8 strict s (3 * length s) = (r, rest, t)"
  shows "r \<noteq> targetExhausted \<and> length t \<le> 3 * length s \<and>
    (\<not> strict \<longrightarrow> r = conversionOK \<and> rest = [] \<or> r = sourceExhausted \<and> length rest = 1)"
  using convertUTF16_enough_room [OF assms(2) _ order_refl] convertUTF16_room [OF assms(2)] assms(1) by auto

theorem convertUTF16ToUTF8_fits_witness:
  "\<exists>r rest t. convertUTF16ToUTF8 False [0xE9, 0xD83D] (3 * length [0xE9, 0xD83D :: nat]) = (r, rest, t) \<and>
     r \<noteq> targetExhausted \<and> length t \<le> 6 \<and> rest = [0xD83D]"
proof -
  have e: "convertUTF16ToUTF8 False [0xE9, 0xD83D] (3 * length [0xE9, 0xD83D :: nat]) =
      (sourceExhausted, [0xD83D], [0xC3, 0xA9])"
    by (simp add: next_utf16_def utf8_bytes_def firstByteMark_def write_sequence_2)
  have "list_all (\<lambda>c. c < 2 ^ 16) [0xE9, 0xD83D :: nat]" by simp
  from convertUTF16ToUTF8_fits [OF this e] e show ?thesis by auto
qed

text \<open>On a string of 8-bit units the Latin-1 conversion computes the same as the UTF-16 one.\<close>

lemma convertLatin1ToUTF8_agrees:
  "list_all (\<lambda>c. c < 2 ^ 8) s \<Longrightarrow> convertLatin1ToUTF8 s room = convertUTF16ToUTF8 strict s room"
  by (rule convertLatin1_eq) simp

lemma convertLatin1ToUTF8_agrees_example:
  "convertLatin1ToUTF8 [0x41, 0xE9] 6 = convertUTF16ToUTF8 True [0x41, 0xE9] 6"
  by (rule convertLatin1ToUTF8_agrees) simp

text \<open>C40: \<open>decodeUTF8Sequence\<close> reads back every scalar value from the bytes the converter writes for it.\<close>

theorem decodeUTF8Sequence_encode:
  assumes "scalar_value c"
  shows "decodeUTF8Sequence (encode_scalar c) = Some c"
proof -
  have d: "c div 64 div 64 = c div 4096" "c div 4096 div 64 = c div 262144" by (simp_all add: div_mult2_eq [symmetric])
  have eq: "c = c div 64 * 64 + c mod 64" "c = c div 4096 * 4096 + c div 64 mod 64 * 64 + c mod 64"
    "c = c div 262144 * 262144 + c div 4096 mod 64 * 4096 + c div 64 mod 64 * 64 + c mod 64"
    using d div_mult_mod_eq [of c 64] div_mult_mod_eq [of "c div 64" 64] div_mult_mod_eq [of "c div 4096" 64]
    by linarith+
  consider "c < 0x80" | "0x80 \<le> c" "c < 0x800" | "0x800 \<le> c" "c < 0x10000" | "0x10000 \<le> c" "c < 0x110000"
    using assms unfolding scalar_value_def by linarith
  then show ?thesis
  proof cases
    case 1
    then show ?thesis
      by (simp add: encode_scalar_1 decodeUTF8Sequence_def inlineUTF8SequenceLength_def isASCII_def at_list [simplified])
  next
    case 2
    then have "c div 64 < 32" "2 \<le> c div 64" "c mod 64 < 64"
      by (simp_all add: div_less_iff_less_mult less_eq_div_iff_mult_less_eq)
    from decodeUTF8Sequence_2 [OF this] show ?thesis unfolding encode_scalar_2 [OF 2] eq(1) [symmetric] .
  next
    case 3
    then have "c div 4096 < 16" "c div 64 mod 64 < 64" "c mod 64 < 64" by (simp_all add: div_less_iff_less_mult)
    from decodeUTF8Sequence_3 [OF this, folded eq(2)] 3 assms show ?thesis
      unfolding encode_scalar_3 [OF 3] scalar_value_def by blast
  next
    case 4
    then have "c div 262144 < 5" "c div 4096 mod 64 < 64" "c div 64 mod 64 < 64" "c mod 64 < 64"
      by (simp_all add: div_less_iff_less_mult)
    from decodeUTF8Sequence_4 [OF this, folded eq(3)] 4 show ?thesis unfolding encode_scalar_4 [OF 4] by blast
  qed
qed

theorem decodeUTF8Sequence_encode_witness:
  "encode_scalar 0x20AC = [0xE2, 0x82, 0xAC] \<and> decodeUTF8Sequence (encode_scalar 0x20AC) = Some 0x20AC"
proof
  show "encode_scalar 0x20AC = [0xE2, 0x82, 0xAC]" by (simp add: encode_scalar_3)
  show "decodeUTF8Sequence (encode_scalar 0x20AC) = Some 0x20AC"
    by (rule decodeUTF8Sequence_encode) (simp add: scalar_value_def surrogate_def)
qed

end
