(* ===== verification/Url_Chars.thy ===== *)
theory Url_Chars
  imports Wtf_Text
begin

text \<open>
  The character classes of \<open>WebCore/platform/URL.cpp\<close>: the table, its predicates, the
  case-insensitive letter comparison and the scheme tests of the parser. The table is kept
  as the source has it; the equations in \<open>char_class\<close> say which code units each class
  holds, and are what the later theories reason and evaluate with.
\<close>

section \<open>The table\<close>

definition SchemeFirstChar :: nat where "SchemeFirstChar = push_bit 0 1"
definition SchemeChar :: nat where "SchemeChar = push_bit 1 1"
definition UserInfoChar :: nat where "UserInfoChar = push_bit 2 1"
definition HostnameChar :: nat where "HostnameChar = push_bit 3 1"
definition IPv6Char :: nat where "IPv6Char = push_bit 4 1"
definition PathSegmentEndChar :: nat where "PathSegmentEndChar = push_bit 5 1"
definition BadChar :: nat where "BadChar = push_bit 6 1"

definition characterClassTable :: "nat list" where
  "characterClassTable = [
    PathSegmentEndChar, BadChar, BadChar, BadChar, BadChar, BadChar, BadChar, BadChar, BadChar,
    BadChar, BadChar, BadChar, BadChar, BadChar, BadChar, BadChar, BadChar, BadChar, BadChar,
    BadChar, BadChar, BadChar, BadChar, BadChar, BadChar, BadChar, BadChar, BadChar, BadChar,
    BadChar, BadChar, BadChar, BadChar, UserInfoChar, BadChar, PathSegmentEndChar OR BadChar,
    UserInfoChar, UserInfoChar OR HostnameChar OR IPv6Char OR BadChar, UserInfoChar, UserInfoChar,
    UserInfoChar, UserInfoChar, UserInfoChar, SchemeChar OR UserInfoChar, UserInfoChar,
    SchemeChar OR UserInfoChar OR HostnameChar,
    SchemeChar OR UserInfoChar OR HostnameChar OR IPv6Char, PathSegmentEndChar,
    SchemeChar OR UserInfoChar OR HostnameChar OR IPv6Char,
    SchemeChar OR UserInfoChar OR HostnameChar OR IPv6Char,
    SchemeChar OR UserInfoChar OR HostnameChar OR IPv6Char,
    SchemeChar OR UserInfoChar OR HostnameChar OR IPv6Char,
    SchemeChar OR UserInfoChar OR HostnameChar OR IPv6Char,
    SchemeChar OR UserInfoChar OR HostnameChar OR IPv6Char,
    SchemeChar OR UserInfoChar OR HostnameChar OR IPv6Char,
    SchemeChar OR UserInfoChar OR HostnameChar OR IPv6Char,
    SchemeChar OR UserInfoChar OR HostnameChar OR IPv6Char,
    SchemeChar OR UserInfoChar OR HostnameChar OR IPv6Char, UserInfoChar OR IPv6Char, UserInfoChar,
    BadChar, UserInfoChar, BadChar, PathSegmentEndChar OR BadChar, 0,
    SchemeFirstChar OR SchemeChar OR UserInfoChar OR HostnameChar OR IPv6Char,
    SchemeFirstChar OR SchemeChar OR UserInfoChar OR HostnameChar OR IPv6Char,
    SchemeFirstChar OR SchemeChar OR UserInfoChar OR HostnameChar OR IPv6Char,
    SchemeFirstChar OR SchemeChar OR UserInfoChar OR HostnameChar OR IPv6Char,
    SchemeFirstChar OR SchemeChar OR UserInfoChar OR HostnameChar OR IPv6Char,
    SchemeFirstChar OR SchemeChar OR UserInfoChar OR HostnameChar OR IPv6Char,
    SchemeFirstChar OR SchemeChar OR UserInfoChar OR HostnameChar,
    SchemeFirstChar OR SchemeChar OR UserInfoChar OR HostnameChar,
    SchemeFirstChar OR SchemeChar OR UserInfoChar OR HostnameChar,
    SchemeFirstChar OR SchemeChar OR UserInfoChar OR HostnameChar,
    SchemeFirstChar OR SchemeChar OR UserInfoChar OR HostnameChar,
    SchemeFirstChar OR SchemeChar OR UserInfoChar OR HostnameChar,
    SchemeFirstChar OR SchemeChar OR UserInfoChar OR HostnameChar,
    SchemeFirstChar OR SchemeChar OR UserInfoChar OR HostnameChar,
    SchemeFirstChar OR SchemeChar OR UserInfoChar OR HostnameChar,
    SchemeFirstChar OR SchemeChar OR UserInfoChar OR HostnameChar,
    SchemeFirstChar OR SchemeChar OR UserInfoChar OR HostnameChar,
    SchemeFirstChar OR SchemeChar OR UserInfoChar OR HostnameChar,
    SchemeFirstChar OR SchemeChar OR UserInfoChar OR HostnameChar,
    SchemeFirstChar OR SchemeChar OR UserInfoChar OR HostnameChar,
    SchemeFirstChar OR SchemeChar OR UserInfoChar OR HostnameChar,
    SchemeFirstChar OR SchemeChar OR UserInfoChar OR HostnameChar,
    SchemeFirstChar OR SchemeChar OR UserInfoChar OR HostnameChar,
    SchemeFirstChar OR SchemeChar OR UserInfoChar OR HostnameChar,
    SchemeFirstChar OR SchemeChar OR UserInfoChar OR HostnameChar,
    SchemeFirstChar OR SchemeChar OR UserInfoChar OR HostnameChar, 0, 0, 0, 0,
    UserInfoChar OR HostnameChar, 0,
    SchemeFirstChar OR SchemeChar OR UserInfoChar OR HostnameChar OR IPv6Char,
    SchemeFirstChar OR SchemeChar OR UserInfoChar OR HostnameChar OR IPv6Char,
    SchemeFirstChar OR SchemeChar OR UserInfoChar OR HostnameChar OR IPv6Char,
    SchemeFirstChar OR SchemeChar OR UserInfoChar OR HostnameChar OR IPv6Char,
    SchemeFirstChar OR SchemeChar OR UserInfoChar OR HostnameChar OR IPv6Char,
    SchemeFirstChar OR SchemeChar OR UserInfoChar OR HostnameChar OR IPv6Char,
    SchemeFirstChar OR SchemeChar OR UserInfoChar OR HostnameChar,
    SchemeFirstChar OR SchemeChar OR UserInfoChar OR HostnameChar,
    SchemeFirstChar OR SchemeChar OR UserInfoChar OR HostnameChar,
    SchemeFirstChar OR SchemeChar OR UserInfoChar OR HostnameChar,
    SchemeFirstChar OR SchemeChar OR UserInfoChar OR HostnameChar,
    SchemeFirstChar OR SchemeChar OR UserInfoChar OR HostnameChar,
    SchemeFirstChar OR SchemeChar OR UserInfoChar OR HostnameChar,
    SchemeFirstChar OR SchemeChar OR UserInfoChar OR HostnameChar,
    SchemeFirstChar OR SchemeChar OR UserInfoChar OR HostnameChar,
    SchemeFirstChar OR SchemeChar OR UserInfoChar OR HostnameChar,
    SchemeFirstChar OR SchemeChar OR UserInfoChar OR HostnameChar,
    SchemeFirstChar OR SchemeChar OR UserInfoChar OR HostnameChar,
    SchemeFirstChar OR SchemeChar OR UserInfoChar OR HostnameChar,
    SchemeFirstChar OR SchemeChar OR UserInfoChar OR HostnameChar,
    SchemeFirstChar OR SchemeChar OR UserInfoChar OR HostnameChar,
    SchemeFirstChar OR SchemeChar OR UserInfoChar OR HostnameChar,
    SchemeFirstChar OR SchemeChar OR UserInfoChar OR HostnameChar,
    SchemeFirstChar OR SchemeChar OR UserInfoChar OR HostnameChar,
    SchemeFirstChar OR SchemeChar OR UserInfoChar OR HostnameChar,
    SchemeFirstChar OR SchemeChar OR UserInfoChar OR HostnameChar, 0, 0, 0, UserInfoChar, BadChar,
    BadChar, BadChar, BadChar, BadChar, BadChar, BadChar, BadChar, BadChar, BadChar, BadChar,
    BadChar, BadChar, BadChar, BadChar, BadChar, BadChar, BadChar, BadChar, BadChar, BadChar,
    BadChar, BadChar, BadChar, BadChar, BadChar, BadChar, BadChar, BadChar, BadChar, BadChar,
    BadChar, BadChar, BadChar, BadChar, BadChar, BadChar, BadChar, BadChar, BadChar, BadChar,
    BadChar, BadChar, BadChar, BadChar, BadChar, BadChar, BadChar, BadChar, BadChar, BadChar,
    BadChar, BadChar, BadChar, BadChar, BadChar, BadChar, BadChar, BadChar, BadChar, BadChar,
    BadChar, BadChar, BadChar, BadChar, BadChar, BadChar, BadChar, BadChar, BadChar, BadChar,
    BadChar, BadChar, BadChar, BadChar, BadChar, BadChar, BadChar, BadChar, BadChar, BadChar,
    BadChar, BadChar, BadChar, BadChar, BadChar, BadChar, BadChar, BadChar, BadChar, BadChar,
    BadChar, BadChar, BadChar, BadChar, BadChar, BadChar, BadChar, BadChar, BadChar, BadChar,
    BadChar, BadChar, BadChar, BadChar, BadChar, BadChar, BadChar, BadChar, BadChar, BadChar,
    BadChar, BadChar, BadChar, BadChar, BadChar, BadChar, BadChar, BadChar, BadChar, BadChar,
    BadChar, BadChar, BadChar, BadChar, BadChar, BadChar, BadChar, BadChar
  ]"

text \<open>
  The \<open>UChar\<close> overloads guard the lookup with \<open>c <= 0xff\<close>; for an \<open>unsigned char\<close> the
  guard is always true.
\<close>

definition hasClass :: "nat \<Rightarrow> code_unit \<Rightarrow> bool" where
  "hasClass cls c \<longleftrightarrow> c \<le> 0xff \<and> characterClassTable ! c AND cls \<noteq> 0"

definition isSchemeFirstChar :: "code_unit \<Rightarrow> bool" where
  "isSchemeFirstChar c = hasClass SchemeFirstChar c"

definition isSchemeChar :: "code_unit \<Rightarrow> bool" where
  "isSchemeChar c = hasClass SchemeChar c"

definition isUserInfoChar :: "code_unit \<Rightarrow> bool" where
  "isUserInfoChar c = hasClass UserInfoChar c"

definition isHostnameChar :: "code_unit \<Rightarrow> bool" where
  "isHostnameChar c = hasClass HostnameChar c"

definition isIPv6Char :: "code_unit \<Rightarrow> bool" where
  "isIPv6Char c = hasClass IPv6Char c"

definition isPathSegmentEndChar :: "code_unit \<Rightarrow> bool" where
  "isPathSegmentEndChar c = hasClass PathSegmentEndChar c"

definition isBadChar :: "code_unit \<Rightarrow> bool" where
  "isBadChar c = hasClass BadChar c"

section \<open>The classes as ranges\<close>

lemmas class_defs = hasClass_def SchemeFirstChar_def SchemeChar_def UserInfoChar_def
  HostnameChar_def IPv6Char_def PathSegmentEndChar_def BadChar_def

definition alpha :: "code_unit \<Rightarrow> bool" where
  "alpha c \<longleftrightarrow> (65 \<le> c \<and> c \<le> 90) \<or> (97 \<le> c \<and> c \<le> 122)"

definition digit :: "code_unit \<Rightarrow> bool" where
  "digit c \<longleftrightarrow> 48 \<le> c \<and> c \<le> 57"

text \<open>The same table as a function of the code unit.\<close>

definition classOf :: "code_unit \<Rightarrow> nat" where
  "classOf c =
     (if c < 48 then
        if c = 0 then 32 else if c \<le> 32 then 64 else if c = 34 then 64 else if c = 35 then 96
        else if c = 37 then 92 else if c = 43 then 6 else if c = 45 then 14 else if c = 46 then 30
        else if c = 47 then 32 else 4
      else if c \<le> 57 then 30
      else if c < 65 then
        if c = 58 then 20 else if c = 60 \<or> c = 62 then 64 else if c = 63 then 96
        else if c = 64 then 0 else 4
      else if c \<le> 70 then 31 else if c \<le> 90 then 15
      else if c < 97 then if c = 95 then 12 else 0
      else if c \<le> 102 then 31 else if c \<le> 122 then 15
      else if c < 126 then 0 else if c = 126 then 4 else 64)"

lemma upt_256: "[0..<256] = concat (map (\<lambda>k. map (\<lambda>i. 16 * k + i)
    [0,1,2,3,4,5,6,7,8,9,10,11,12,13,14,15]) [0,1,2,3,4,5,6,7,8,9,10,11,12,13,14,15::nat])"
  by code_simp

lemma characterClassTable_eq: "characterClassTable = map classOf [0..<256]"
  unfolding characterClassTable_def class_defs upt_256
  by (simp add: classOf_def)

lemma class_lookup: "hasClass cls c \<longleftrightarrow> c < 256 \<and> classOf c AND cls \<noteq> 0"
  by (auto simp: hasClass_def characterClassTable_eq)

lemmas predicate_defs = isSchemeFirstChar_def isSchemeChar_def isUserInfoChar_def isHostnameChar_def
  isIPv6Char_def isPathSegmentEndChar_def isBadChar_def

lemma isSchemeFirstChar_ranges [char_class, code]: "isSchemeFirstChar c \<longleftrightarrow> alpha c"
  by (auto simp: isSchemeFirstChar_def class_lookup SchemeFirstChar_def classOf_def alpha_def)

lemma isSchemeChar_ranges [char_class, code]:
  "isSchemeChar c \<longleftrightarrow> alpha c \<or> digit c \<or> c = 43 \<or> c = 45 \<or> c = 46"
  by (auto simp: isSchemeChar_def class_lookup SchemeChar_def classOf_def alpha_def digit_def)

lemma isUserInfoChar_ranges [char_class, code]:
  "isUserInfoChar c \<longleftrightarrow> alpha c \<or> digit c \<or> c = 33 \<or> (36 \<le> c \<and> c \<le> 46) \<or> c = 58 \<or> c = 59 \<or>
     c = 61 \<or> c = 95 \<or> c = 126"
  by (auto simp: isUserInfoChar_def class_lookup UserInfoChar_def classOf_def alpha_def digit_def)

lemma isHostnameChar_ranges [char_class, code]:
  "isHostnameChar c \<longleftrightarrow> alpha c \<or> digit c \<or> c = 37 \<or> c = 45 \<or> c = 46 \<or> c = 95"
  by (auto simp: isHostnameChar_def class_lookup HostnameChar_def classOf_def alpha_def digit_def)

lemma isIPv6Char_ranges [char_class, code]:
  "isIPv6Char c \<longleftrightarrow> digit c \<or> (65 \<le> c \<and> c \<le> 70) \<or> (97 \<le> c \<and> c \<le> 102) \<or> c = 37 \<or> c = 46 \<or> c = 58"
  by (auto simp: isIPv6Char_def class_lookup IPv6Char_def classOf_def digit_def)

lemma isPathSegmentEndChar_ranges [char_class, code]:
  "isPathSegmentEndChar c \<longleftrightarrow> c = 0 \<or> c = 35 \<or> c = 47 \<or> c = 63"
  by (auto simp: isPathSegmentEndChar_def class_lookup PathSegmentEndChar_def classOf_def)

lemma isBadChar_ranges [char_class, code]:
  "isBadChar c \<longleftrightarrow> (1 \<le> c \<and> c \<le> 32) \<or> c = 34 \<or> c = 35 \<or> c = 37 \<or> c = 60 \<or> c = 62 \<or> c = 63 \<or>
     (127 \<le> c \<and> c < 256)"
  by (auto simp: isBadChar_def class_lookup BadChar_def classOf_def)

section \<open>Letters and schemes\<close>

definition isLetterMatchIgnoringCase :: "code_unit \<Rightarrow> code_unit \<Rightarrow> bool" where
  "isLetterMatchIgnoringCase character lowercaseLetter \<longleftrightarrow> character OR 0x20 = lowercaseLetter"

definition isSchemeCharacterMatchIgnoringCase :: "code_unit \<Rightarrow> code_unit \<Rightarrow> bool" where
  "isSchemeCharacterMatchIgnoringCase character schemeCharacter \<longleftrightarrow>
     character OR 0x20 = schemeCharacter"

definition wsScheme :: wtf_string where "wsScheme = lit ''ws''"
definition ftpScheme :: wtf_string where "ftpScheme = lit ''ftp''"
definition ftpPort :: wtf_string where "ftpPort = lit ''21''"
definition wssScheme :: wtf_string where "wssScheme = lit ''wss''"
definition fileScheme :: wtf_string where "fileScheme = lit ''file''"
definition httpScheme :: wtf_string where "httpScheme = lit ''http''"
definition httpPort :: wtf_string where "httpPort = lit ''80''"
definition httpsScheme :: wtf_string where "httpsScheme = lit ''https''"
definition httpsPort :: wtf_string where "httpsPort = lit ''443''"
definition gopherScheme :: wtf_string where "gopherScheme = lit ''gopher''"
definition gopherPort :: wtf_string where "gopherPort = lit ''70''"

lemmas scheme_defs = wsScheme_def ftpScheme_def ftpPort_def wssScheme_def fileScheme_def
  httpScheme_def httpPort_def httpsScheme_def httpsPort_def gopherScheme_def gopherPort_def lit_def

text \<open>
  \<open>equal(a, b)\<close> compares the first characters of the buffer \<open>a\<close> with the array \<open>b\<close>; the
  overload with a length also wants that length to be that of \<open>b\<close>. A scheme or a port is
  given as the text from its start to the end of the buffer, and its length.
\<close>

definition equal_chars :: "wtf_string \<Rightarrow> wtf_string \<Rightarrow> bool" where
  "equal_chars a b \<longleftrightarrow> take (length b) a = b"

definition equal_length_chars :: "wtf_string \<Rightarrow> nat \<Rightarrow> wtf_string \<Rightarrow> bool" where
  "equal_length_chars stringA lengthA stringB \<longleftrightarrow>
     lengthA = length stringB \<and> equal_chars stringA stringB"

definition isDefaultPortForScheme :: "wtf_string \<Rightarrow> nat \<Rightarrow> wtf_string \<Rightarrow> nat \<Rightarrow> bool" where
  "isDefaultPortForScheme port portLength scheme schemeLength =
     (if schemeLength = 2 then
        equal_chars scheme wsScheme \<and> equal_length_chars port portLength httpPort
      else if schemeLength = 3 then
        if equal_chars scheme ftpScheme then equal_length_chars port portLength ftpPort
        else if equal_chars scheme wssScheme then equal_length_chars port portLength httpsPort
        else False
      else if schemeLength = 4 then
        equal_chars scheme httpScheme \<and> equal_length_chars port portLength httpPort
      else if schemeLength = 5 then
        equal_chars scheme httpsScheme \<and> equal_length_chars port portLength httpsPort
      else if schemeLength = 6 then
        equal_chars scheme gopherScheme \<and> equal_length_chars port portLength gopherPort
      else False)"

definition hostPortIsEmptyButCredentialsArePresent :: "nat \<Rightarrow> nat \<Rightarrow> code_unit \<Rightarrow> bool" where
  "hostPortIsEmptyButCredentialsArePresent hostStart portEnd userinfoEndChar \<longleftrightarrow>
     userinfoEndChar = ch CHR ''@'' \<and> hostStart = portEnd"

definition isNonFileHierarchicalScheme :: "wtf_string \<Rightarrow> nat \<Rightarrow> bool" where
  "isNonFileHierarchicalScheme scheme schemeLength =
     (if schemeLength = 2 then equal_chars scheme wsScheme
      else if schemeLength = 3 then equal_chars scheme ftpScheme \<or> equal_chars scheme wssScheme
      else if schemeLength = 4 then equal_chars scheme httpScheme
      else if schemeLength = 5 then equal_chars scheme httpsScheme
      else if schemeLength = 6 then equal_chars scheme gopherScheme
      else False)"

definition isCanonicalHostnameLowercaseForScheme :: "wtf_string \<Rightarrow> nat \<Rightarrow> bool" where
  "isCanonicalHostnameLowercaseForScheme scheme schemeLength =
     (if schemeLength = 2 then equal_chars scheme wsScheme
      else if schemeLength = 3 then equal_chars scheme ftpScheme \<or> equal_chars scheme wssScheme
      else if schemeLength = 4 then equal_chars scheme httpScheme \<or> equal_chars scheme fileScheme
      else if schemeLength = 5 then equal_chars scheme httpsScheme
      else if schemeLength = 6 then equal_chars scheme gopherScheme
      else False)"

lemma OR_32: "(c::nat) OR 32 = (if odd (c div 32) then c else c + 32)"
  using set_bit_eq [of 5 c] by (simp add: set_bit_eq_or push_bit_eq_mult bit_iff_odd)

lemma div_32_lower: "97 \<le> c \<Longrightarrow> c \<le> 122 \<Longrightarrow> c div 32 = (3::nat)"
  by simp

lemma div_32_upper: "65 \<le> c \<Longrightarrow> c \<le> 90 \<Longrightarrow> c div 32 = (2::nat)"
  by simp

lemma isLetterMatchIgnoringCase_iff:
  assumes "97 \<le> l" "l \<le> 122"
  shows "isLetterMatchIgnoringCase c l \<longleftrightarrow> toASCIILower c = l"
proof
  assume "isLetterMatchIgnoringCase c l"
  then have "c = l \<or> c + 32 = l" by (auto simp: isLetterMatchIgnoringCase_def OR_32 split: if_splits)
  with assms show "toASCIILower c = l" by (auto simp: toASCIILower_alt isASCIIUpper_def)
next
  assume "toASCIILower c = l"
  then have "(c + 32 = l \<and> 65 \<le> c \<and> c \<le> 90) \<or> c = l"
    by (auto simp: toASCIILower_alt isASCIIUpper_def split: if_splits)
  then show "isLetterMatchIgnoringCase c l"
    using assms div_32_lower [of l] div_32_upper [of c]
    by (auto simp: isLetterMatchIgnoringCase_def OR_32)
qed

end
