(* ===== verification/Url_Path.thy ===== *)
theory Url_Path
  imports Url_Chars
begin

text \<open>
  The escaping and dot-removal passes of \<open>URL.cpp\<close>. Each pass appends to a buffer that is
  big enough for three bytes per input byte; here it returns the appended text, and the
  length bounds say that the buffer suffices. Dot removal is compared with a specification
  on path segments.
\<close>

section \<open>Escaping\<close>

definition appendEscapedChar :: "code_unit \<Rightarrow> wtf_string" where
  "appendEscapedChar c = ch CHR ''%'' # placeByteAsHex c"

fun appendEscapingBadChars :: "wtf_string \<Rightarrow> wtf_string" where
  "appendEscapingBadChars [] = []"
| "appendEscapingBadChars (c # str) =
     (if isBadChar c then
        if c = ch CHR ''%'' \<or> c = ch CHR ''?'' then [c]
        else if c \<noteq> 0x09 \<and> c \<noteq> 0x0a \<and> c \<noteq> 0x0d then appendEscapedChar c
        else []
      else [c]) @ appendEscapingBadChars str"

fun escapeAndAppendNonHierarchicalPart :: "wtf_string \<Rightarrow> wtf_string" where
  "escapeAndAppendNonHierarchicalPart [] = []"
| "escapeAndAppendNonHierarchicalPart (c # str) =
     (if c = 0x09 \<or> c = 0x0a \<or> c = 0x0d then []
      else if c < 0x20 \<or> c \<ge> 127 then appendEscapedChar c
      else [c]) @ escapeAndAppendNonHierarchicalPart str"

text \<open>The bytes a valid URL string consists of.\<close>

definition printable :: "code_unit \<Rightarrow> bool" where
  "printable c \<longleftrightarrow> 32 \<le> c \<and> c < 127"

lemma length_appendEscapedChar [simp]: "length (appendEscapedChar c) = 3"
  by (simp add: appendEscapedChar_def)

lemma printable_appendEscapedChar:
  "b < 256 \<Longrightarrow> c \<in> set (appendEscapedChar b) \<Longrightarrow> printable c"
  using set_placeByteAsHex [of b c] by (auto simp: appendEscapedChar_def printable_def)

lemma length_appendEscapingBadChars: "length (appendEscapingBadChars s) \<le> 3 * length s"
  by (induction s rule: appendEscapingBadChars.induct) auto

lemma length_escapeAndAppend: "length (escapeAndAppendNonHierarchicalPart s) \<le> 3 * length s"
  by (induction s rule: escapeAndAppendNonHierarchicalPart.induct) auto

lemma printable_appendEscapingBadChars:
  "\<forall>c \<in> set s. 0 < c \<and> c < 256 \<Longrightarrow> c \<in> set (appendEscapingBadChars s) \<Longrightarrow> printable c"
proof (induction s rule: appendEscapingBadChars.induct)
  case (2 b s)
  have "printable c" if "c \<in> set (appendEscapedChar b)"
    using that "2.prems"(1) by (auto intro: printable_appendEscapedChar)
  moreover have "printable b" if "\<not> isBadChar b \<or> b = 37 \<or> b = 63"
    using that "2.prems"(1) by (auto simp: char_class printable_def)
  ultimately show ?case
    using "2" by (auto split: if_splits)
qed simp

lemma printable_escapeAndAppend:
  "\<forall>c \<in> set s. c < 256 \<Longrightarrow> c \<in> set (escapeAndAppendNonHierarchicalPart s) \<Longrightarrow> printable c"
proof (induction s rule: escapeAndAppendNonHierarchicalPart.induct)
  case (2 b s)
  have "printable c" if "c \<in> set (appendEscapedChar b)"
    using that "2.prems"(1) by (auto intro: printable_appendEscapedChar)
  with "2" show ?case
    by (auto simp: printable_def split: if_splits)
qed simp

lemma no_query_appendEscapingBadChars:
  assumes "\<forall>b \<in> set s. b < 256" "63 \<notin> set s"
  shows "63 \<notin> set (appendEscapingBadChars s) \<and> 35 \<notin> set (appendEscapingBadChars s)"
  using assms
proof (induction s rule: appendEscapingBadChars.induct)
  case (2 b s)
  have "x \<noteq> 63 \<and> x \<noteq> 35" if "x \<in> set (appendEscapedChar b)" for x
    using that "2.prems"(1) set_placeByteAsHex [of b x] by (auto simp: appendEscapedChar_def)
  with "2" show ?case by (auto simp: char_class)
qed simp

section \<open>Removing dot segments\<close>

text \<open>\<open>while (dst > bufferPathStart && dst[-1] != '/') dst--;\<close>\<close>

definition rewind_to_slash :: "wtf_string \<Rightarrow> wtf_string" where
  "rewind_to_slash dst = rev (dropWhile (\<lambda>c. c \<noteq> ch CHR ''/'') (rev dst))"

text \<open>
  The loop of \<open>copyPathRemovingDots\<close>: the source text from \<open>baseStringPos\<close> to
  \<open>baseStringEnd\<close> and the text written so far. The tests \<open>baseStringPos[1] == '/'\<close> and
  \<open>baseStringPos[2] == '/'\<close> are each or-ed with the test for the end of the source, so
  what lies beyond the end never matters.
\<close>

function copy_dots_loop :: "wtf_string \<Rightarrow> wtf_string \<Rightarrow> wtf_string" where
  "copy_dots_loop [] dst = dst"
| "copy_dots_loop (c # rest) dst =
     (if c = ch CHR ''.'' \<and> dst \<noteq> [] \<and> last dst = ch CHR ''/'' then
        if rest = [] \<or> hd rest = ch CHR ''/'' then copy_dots_loop (tl rest) dst
        else if hd rest = ch CHR ''.'' \<and> (tl rest = [] \<or> hd (tl rest) = ch CHR ''/'') then
          copy_dots_loop (tl (tl rest))
            (rewind_to_slash (if length dst > 1 then butlast dst else dst))
        else copy_dots_loop rest (dst @ [c])
      else copy_dots_loop rest (dst @ [c]))"
  by pat_completeness auto
termination
  by (relation "measure (\<lambda>(rest, dst). length rest)") (auto simp: less_Suc_eq_le)

definition copyPathRemovingDots :: "wtf_string \<Rightarrow> nat \<Rightarrow> nat \<Rightarrow> wtf_string" where
  "copyPathRemovingDots src srcStart srcEnd =
     (case between srcStart srcEnd src of [] \<Rightarrow> []
      | c # rest \<Rightarrow> copy_dots_loop rest [c])"

fun slash_dot_loop :: "code_unit \<Rightarrow> wtf_string \<Rightarrow> bool" where
  "slash_dot_loop pc [] = False"
| "slash_dot_loop pc (c # str) =
     (if c = ch CHR ''.'' \<and> (pc = ch CHR ''/'' \<or> pc = ch CHR ''.'') then True
      else slash_dot_loop c str)"

text \<open>The buffer ends at its first NUL.\<close>

definition hasSlashDotOrDotDot :: "wtf_string \<Rightarrow> bool" where
  "hasSlashDotOrDotDot str =
     (case takeWhile (\<lambda>c. c \<noteq> 0) str of [] \<Rightarrow> False | pc # rest \<Rightarrow> slash_dot_loop pc rest)"

section \<open>Specification of dot removal\<close>

text \<open>
  A path is split into its segments; a \<open>.\<close> segment is dropped and a \<open>..\<close> segment drops
  the directory before it, if there is one. \<open>resolve\<close> keeps the directories passed so far,
  innermost first, and the last segment of the result.
\<close>

fun segments :: "wtf_string \<Rightarrow> wtf_string list" where
  "segments [] = [[]]"
| "segments (c # cs) =
     (if c = 47 then [] # segments cs else (c # hd (segments cs)) # tl (segments cs))"

abbreviation dot :: wtf_string where "dot \<equiv> [46]"
abbreviation dotdot :: wtf_string where "dotdot \<equiv> [46, 46]"

fun resolve :: "wtf_string list \<Rightarrow> wtf_string list \<Rightarrow> wtf_string list \<times> wtf_string" where
  "resolve dirs [] = (dirs, [])"
| "resolve dirs [s] =
     (if s = dot then (dirs, []) else if s = dotdot then (tl dirs, []) else (dirs, s))"
| "resolve dirs (s # t # ss) =
     resolve (if s = dot then dirs else if s = dotdot then tl dirs else s # dirs) (t # ss)"

definition render :: "wtf_string list \<times> wtf_string \<Rightarrow> wtf_string" where
  "render r = 47 # concat (map (\<lambda>s. s @ [47]) (rev (fst r))) @ snd r"

subsection \<open>Facts on segments\<close>

lemma segments_nonempty [simp]: "segments s \<noteq> []"
  by (cases s) auto

lemma segments_no_slash: "s \<in> set (segments p) \<Longrightarrow> 47 \<notin> set s"
proof (induction p arbitrary: s)
  case (Cons c p)
  have "hd (segments p) \<in> set (segments p)" and "set (tl (segments p)) \<subseteq> set (segments p)"
    by (auto dest: list.set_sel(2) [OF segments_nonempty])
  with Cons show ?case by (auto split: if_splits)
qed simp

lemma resolve_Cons [simp]:
  "ss \<noteq> [] \<Longrightarrow> resolve dirs (s # ss) =
     resolve (if s = dot then dirs else if s = dotdot then tl dirs else s # dirs) ss"
  by (cases ss) auto

lemma last_render:
  "47 \<notin> set p \<Longrightarrow> last (render (dirs, p)) = 47 \<longleftrightarrow> p = []"
proof (cases "p = []")
  case True
  then show ?thesis by (cases dirs) (auto simp: render_def)
next
  case False
  assume "47 \<notin> set p"
  then have "last p \<noteq> 47" using last_in_set [OF False] by metis
  with False show ?thesis by (simp add: render_def)
qed

lemma render_nonempty [simp]: "render r \<noteq> []"
  by (simp add: render_def)

lemma rewind_snoc_slash [simp]: "rewind_to_slash (xs @ [47]) = xs @ [47]"
  by (simp add: rewind_to_slash_def)

lemma rewind_no_slash: "47 \<notin> set s \<Longrightarrow> rewind_to_slash (xs @ s) = rewind_to_slash xs"
  by (auto simp: rewind_to_slash_def dropWhile_append3 intro!: arg_cong [where f = rev] dropWhile_append2)

lemma render_dirs_ends: "\<exists>xs. render (dirs, []) = xs @ [47]"
  by (cases dirs) (auto simp: render_def)

lemma rewind_render [simp]:
  assumes "\<forall>d \<in> set dirs. 47 \<notin> set d"
  shows "rewind_to_slash (if length (render (dirs, [])) > 1 then butlast (render (dirs, []))
     else render (dirs, [])) = render (tl dirs, [])"
proof (cases dirs)
  case Nil
  then show ?thesis using rewind_snoc_slash [of "[]"] by (simp add: render_def)
next
  case (Cons d ds)
  then have "render (dirs, []) = render (ds, []) @ d @ [47]" by (simp add: render_def)
  moreover obtain xs where "render (ds, []) = xs @ [47]" using render_dirs_ends by blast
  ultimately show ?thesis
    using assms Cons rewind_no_slash [of d "xs @ [47]"] by (simp add: butlast_append)
qed

lemma hd_segments_Nil: "hd (segments s) = [] \<longleftrightarrow> s = [] \<or> hd s = 47"
  by (cases s) auto

lemma hd_segments_Cons: "hd (segments s) = c # x \<Longrightarrow> s \<noteq> [] \<and> hd s = c \<and> hd (segments (tl s)) = x"
  by (cases s) (auto split: if_splits)

subsection \<open>The loop against the specification\<close>

lemma copy_dots_loop_spec:
  assumes "47 \<notin> set partial" "\<forall>d \<in> set dirs. 47 \<notin> set d"
    and "partial = [] \<or> partial @ hd (segments rest) \<notin> {dot, dotdot}"
  shows "copy_dots_loop rest (render (dirs, partial)) =
    render (resolve dirs ((partial @ hd (segments rest)) # tl (segments rest)))"
  using assms
proof (induction rest arbitrary: partial dirs rule: length_induct)
  case (1 rest)
  show ?case
  proof (cases rest)
    case Nil
    with "1.prems" show ?thesis by auto
  next
    case (Cons c cs)
    have push: "render (dirs, partial) @ [47] = render (partial # dirs, [])"
      by (simp add: render_def)
    have grow: "render (dirs, partial) @ [c] = render (dirs, partial @ [c])"
      by (simp add: render_def)
    consider (slash) "c = 47"
      | (dot1) "c = 46" "partial = []" "cs = [] \<or> hd cs = 47"
      | (dot2) "c = 46" "partial = []" "cs \<noteq> []" "hd cs = 46" "tl cs = [] \<or> hd (tl cs) = 47"
      | (copy) "c \<noteq> 47" "\<not> (c = 46 \<and> partial = [] \<and> (cs = [] \<or> hd cs = 47 \<or> 
           (hd cs = 46 \<and> (tl cs = [] \<or> hd (tl cs) = 47))))"
      by blast
    then show ?thesis
    proof cases
      case slash
      have "copy_dots_loop cs (render (partial # dirs, [])) =
          render (resolve (partial # dirs) (segments cs))"
        using "1.IH" [rule_format, of cs "[]" "partial # dirs"] Cons "1.prems"(1,2) by auto
      with slash Cons "1.prems" push show ?thesis by auto
    next
      case dot1
      have "copy_dots_loop (tl cs) (render (dirs, [])) = render (resolve dirs (segments (tl cs)))"
        using "1.IH" [rule_format, of "tl cs" "[]" dirs] Cons "1.prems" by simp
      with dot1 Cons last_render [of "[]" dirs] show ?thesis by (cases cs) auto
    next
      case dot2
      have "copy_dots_loop (tl (tl cs)) (render (tl dirs, [])) =
          render (resolve (tl dirs) (segments (tl (tl cs))))"
        using "1.IH" [rule_format, of "tl (tl cs)" "[]" "tl dirs"] Cons "1.prems"
        by (cases dirs) (simp_all add: less_Suc_eq_le)
      with dot2 Cons last_render [of "[]" dirs] rewind_render [OF "1.prems"(2)] show ?thesis
        by (cases cs; cases "tl cs") (auto simp: render_def)
    next
      case copy
      then have nl: "\<not> (c = 46 \<and> last (render (dirs, partial)) = 47 \<and> (cs = [] \<or> hd cs = 47 \<or> 
           (hd cs = 46 \<and> (tl cs = [] \<or> hd (tl cs) = 47))))"
        using last_render [OF "1.prems"(1)] by blast
      have "(partial @ [c]) @ hd (segments cs) \<notin> {dot, dotdot}"
        using copy "1.prems"(3) Cons hd_segments_Nil [of cs] hd_segments_Nil [of "tl cs"]
          hd_segments_Cons [of cs 46 "[]"]
        by (cases "partial = []") auto
      then have "copy_dots_loop cs (render (dirs, partial @ [c])) =
          render (resolve dirs (((partial @ [c]) @ hd (segments cs)) # tl (segments cs)))"
        using "1.IH" [rule_format, of cs "partial @ [c]" dirs] Cons "1.prems" copy(1) by simp
      with copy(1) nl Cons grow show ?thesis by auto
    qed
  qed
qed

lemma copyPathRemovingDots_spec:
  assumes "between i j src = 47 # p"
  shows "copyPathRemovingDots src i j = render (resolve [] (segments p))"
  using copy_dots_loop_spec [of "[]" "[]" p] assms
  by (simp add: copyPathRemovingDots_def render_def)

lemma list_all_resolve:
  assumes "P []" "list_all P dirs" "list_all (\<lambda>s. s \<notin> {dot, dotdot} \<longrightarrow> P s) ss"
  shows "list_all P (fst (resolve dirs ss)) \<and> P (snd (resolve dirs ss))"
  using assms(2,3)
proof (induction ss arbitrary: dirs)
  case (Cons s ss)
  show ?case
  proof (cases "ss = []")
    case False
    with Cons show ?thesis by (simp add: list_all_tl)
  qed (use Cons assms(1) in \<open>simp add: list_all_tl\<close>)
qed (simp add: assms(1))

lemma resolve_no_dots:
  "list_all (\<lambda>d. d \<notin> {dot, dotdot}) (fst (resolve [] ss)) \<and> snd (resolve [] ss) \<notin> {dot, dotdot}"
  by (rule list_all_resolve) (simp_all add: list_all_iff)

lemma resolve_no_slash:
  assumes "list_all (\<lambda>d. 47 \<notin> set d) ss"
  shows "list_all (\<lambda>d. 47 \<notin> set d) (fst (resolve [] ss)) \<and> 47 \<notin> set (snd (resolve [] ss))"
  by (rule list_all_resolve) (use assms in \<open>auto simp: list_all_iff\<close>)

lemma segments_append_slash: "47 \<notin> set s \<Longrightarrow> segments (s @ 47 # p) = s # segments p"
  by (induction s) auto

lemma segments_plain: "47 \<notin> set s \<Longrightarrow> segments s = [s]"
  by (induction s) auto

lemma segments_concat:
  "\<forall>d \<in> set ds. 47 \<notin> set d \<Longrightarrow> 47 \<notin> set l \<Longrightarrow>
     segments (concat (map (\<lambda>s. s @ [47]) ds) @ l) = ds @ [l]"
  by (induction ds) (simp_all add: segments_append_slash segments_plain)

lemma tl_render: "list_all (\<lambda>d. 47 \<notin> set d) (fst r) \<Longrightarrow> 47 \<notin> set (snd r) \<Longrightarrow>
    segments (tl (render r)) = rev (fst r) @ [snd r]"
  by (simp add: render_def segments_concat list_all_iff)

lemma copyPathRemovingDots_no_dots:
  assumes "between i j src = 47 # p"
  shows "\<exists>q. copyPathRemovingDots src i j = 47 # q \<and> dot \<notin> set (segments q) \<and> dotdot \<notin> set (segments q)"
proof -
  define r where "r = resolve [] (segments p)"
  have "list_all (\<lambda>d. 47 \<notin> set d) (segments p)"
    unfolding list_all_iff using segments_no_slash by blast
  from resolve_no_slash [OF this, folded r_def]
  have "segments (tl (render r)) = rev (fst r) @ [snd r]" using tl_render by blast
  moreover obtain q where q: "render r = 47 # q" by (simp add: render_def)
  ultimately have "segments q = rev (fst r) @ [snd r]" by simp
  moreover have "dot \<notin> set (fst r)" "dotdot \<notin> set (fst r)" "dot \<noteq> snd r" "dotdot \<noteq> snd r"
    using resolve_no_dots [of "segments p", folded r_def] unfolding list_all_iff
    by (simp_all only: insert_iff empty_iff) metis+
  moreover have "copyPathRemovingDots src i j = 47 # q"
    using copyPathRemovingDots_spec [OF assms, folded r_def] q by (rule trans)
  ultimately show ?thesis by simp
qed

text \<open>A path the cheap test accepts is a fixed point of the pass.\<close>

lemma slash_dot_loop_no_dots:
  "\<not> slash_dot_loop pc s \<Longrightarrow> dst \<noteq> [] \<Longrightarrow> last dst = pc \<Longrightarrow> copy_dots_loop s dst = dst @ s"
  by (induction pc s arbitrary: dst rule: slash_dot_loop.induct) (auto split: if_splits)

lemma slash_dot_loop_append: "\<not> slash_dot_loop pc (xs @ ys) \<Longrightarrow> \<not> slash_dot_loop pc xs"
  by (induction pc xs rule: slash_dot_loop.induct) (auto split: if_splits)

lemma slash_dot_loop_drop: "\<not> slash_dot_loop pc (xs @ y # ys) \<Longrightarrow> \<not> slash_dot_loop y ys"
  by (induction pc xs rule: slash_dot_loop.induct) (auto split: if_splits)

lemma copy_dots_loop_Cons:
  "copy_dots_loop (c # rest) dst = copy_dots_loop (tl rest) dst \<or>
   copy_dots_loop (c # rest) dst = copy_dots_loop (tl (tl rest))
     (rewind_to_slash (if length dst > 1 then butlast dst else dst)) \<or>
   copy_dots_loop (c # rest) dst = copy_dots_loop rest (dst @ [c])"
  by simp

lemma length_copy_dots_loop: "length (copy_dots_loop s dst) \<le> length dst + length s"
proof (induction s arbitrary: dst rule: length_induct)
  case (1 s)
  show ?case
  proof (cases s)
    case (Cons c rest)
    define prev where "prev = (if length dst > 1 then butlast dst else dst)"
    have "length (rewind_to_slash prev) \<le> length prev"
      using length_dropWhile_le [of _ "rev prev"] by (simp add: rewind_to_slash_def)
    then have "length (rewind_to_slash prev) \<le> length dst"
      by (simp add: prev_def split: if_splits)
    then show ?thesis
      using "1.IH" [rule_format, of "tl (tl rest)" "rewind_to_slash prev"]
        "1.IH" [rule_format, of "tl rest" dst] "1.IH" [rule_format, of rest "dst @ [c]"]
        Cons copy_dots_loop_Cons [of c rest dst] prev_def [symmetric]
      by (elim disjE) (simp_all add: less_Suc_eq_le)
  qed simp
qed

lemma length_copyPathRemovingDots: "length (copyPathRemovingDots src i j) \<le> length (between i j src)"
proof (cases "between i j src")
  case (Cons c rest)
  then show ?thesis using length_copy_dots_loop [of rest "[c]"] by (simp add: copyPathRemovingDots_def)
qed (simp add: copyPathRemovingDots_def)

lemma list_all_rewind: "list_all P xs \<Longrightarrow> list_all P (rewind_to_slash xs)"
  by (auto simp: rewind_to_slash_def list_all_iff dest: set_dropWhileD)

lemma list_all_copy_dots_loop:
  "list_all P dst \<Longrightarrow> list_all P s \<Longrightarrow> list_all P (copy_dots_loop s dst)"
proof (induction s arbitrary: dst rule: length_induct)
  case (1 s)
  show ?case
  proof (cases s)
    case (Cons c rest)
    have "list_all P (rewind_to_slash (if length dst > 1 then butlast dst else dst))"
      using 1 by (simp add: list_all_rewind list_all_butlast)
    then show ?thesis
      using 1 Cons copy_dots_loop_Cons [of c rest dst]
      by (elim disjE) (simp_all add: list_all_tl less_Suc_eq_le)
  qed (use 1 in simp)
qed

lemma list_all_copyPathRemovingDots:
  "list_all P (between i j src) \<Longrightarrow> list_all P (copyPathRemovingDots src i j)"
  by (auto simp: copyPathRemovingDots_def list_all_copy_dots_loop split: list.split)

section \<open>Properties\<close>

text \<open>
  C4: The dot removal of \<open>copyPathRemovingDots\<close>, which rewinds the output buffer in place,
  computes the resolution of the path's segments: \<open>.\<close> dropped, \<open>..\<close> dropping the directory
  before it and ignored at the root.
\<close>

theorem copyPathRemovingDots_resolves:
  assumes "between srcStart srcEnd src = 47 # p"
  shows "copyPathRemovingDots src srcStart srcEnd = render (resolve [] (segments p))"
  using assms by (rule copyPathRemovingDots_spec)

theorem copyPathRemovingDots_resolves_witness:
  "copyPathRemovingDots (lit ''x:/a/b/../c/.'') 2 13 = render (resolve [] (segments (lit ''a/b/../c/.'')))
   \<and> render (resolve [] (segments (lit ''a/b/../c/.''))) = lit ''/a/c/''"
proof
  show "copyPathRemovingDots (lit ''x:/a/b/../c/.'') 2 13 = render (resolve [] (segments (lit ''a/b/../c/.'')))"
    by (rule copyPathRemovingDots_resolves) code_simp
  show "render (resolve [] (segments (lit ''a/b/../c/.''))) = lit ''/a/c/''" by code_simp
qed

text \<open>
  C13: No segment of a path that went through \<open>copyPathRemovingDots\<close> is \<open>.\<close> or \<open>..\<close>, and the
  path is never longer than the source.
\<close>

theorem copyPathRemovingDots_no_dot_segments:
  assumes "between srcStart srcEnd src = 47 # p"
  shows "\<exists>q. copyPathRemovingDots src srcStart srcEnd = 47 # q \<and> dot \<notin> set (segments q) \<and>
    dotdot \<notin> set (segments q) \<and> length q \<le> length p"
proof -
  obtain q where "copyPathRemovingDots src srcStart srcEnd = 47 # q" "dot \<notin> set (segments q)"
    "dotdot \<notin> set (segments q)"
    using copyPathRemovingDots_no_dots [OF assms] by blast
  moreover from this(1) have "length q \<le> length p"
    using length_copyPathRemovingDots [of src srcStart srcEnd] by (simp add: assms del: length_between)
  ultimately show ?thesis by blast
qed

theorem copyPathRemovingDots_no_dot_segments_witness:
  "\<exists>q. copyPathRemovingDots (lit ''/../..'') 0 6 = 47 # q \<and> dot \<notin> set (segments q) \<and>
    dotdot \<notin> set (segments q) \<and> length q \<le> length (lit ''../..'')"
  by (rule copyPathRemovingDots_no_dot_segments) code_simp

text \<open>
  Skipping the dot removal is sound: when \<open>hasSlashDotOrDotDot\<close> finds nothing in the URL,
  the pass would copy the path unchanged.
\<close>

lemma hasSlashDotOrDotDot_skip:
  assumes "\<not> hasSlashDotOrDotDot s" "between i j s = 47 # p" "j \<le> length s" "list_all (\<lambda>c. c \<noteq> 0) (take j s)"
  shows "copyPathRemovingDots s i j = between i j s"
proof -
  have ij: "i < j" using assms(2) by (cases "i < j") (auto simp: between_def)
  have "take j s = take i s @ 47 # p"
    using between_split [of 0 i j s] ij assms(2) by (simp add: between_def)
  moreover have "takeWhile (\<lambda>c. c \<noteq> 0) s = take j s @ takeWhile (\<lambda>c. c \<noteq> 0) (drop j s)"
    using assms(4) by (metis append_take_drop_id list_all_iff takeWhile_append2)
  ultimately obtain rest where s: "takeWhile (\<lambda>c. c \<noteq> 0) s = take i s @ 47 # p @ rest" by simp
  have "\<not> slash_dot_loop 47 (p @ rest)"
  proof (cases "take i s")
    case Nil
    with s assms(1) show ?thesis by (simp add: hasSlashDotOrDotDot_def)
  next
    case (Cons c cs)
    with s assms(1) have "\<not> slash_dot_loop c (cs @ 47 # p @ rest)" by (simp add: hasSlashDotOrDotDot_def)
    then show ?thesis by (rule slash_dot_loop_drop)
  qed
  then have "\<not> slash_dot_loop 47 p" by (rule slash_dot_loop_append)
  then show ?thesis using slash_dot_loop_no_dots [of 47 p "[47]"] assms(2) by (simp add: copyPathRemovingDots_def)
qed

lemma hasSlashDotOrDotDot_skip_example:
  "copyPathRemovingDots (lit ''x:/a.b/c'') 2 8 = between 2 8 (lit ''x:/a.b/c'')"
  by (rule hasSlashDotOrDotDot_skip [of _ 2 8 "lit ''a.b/c''"]) (code_simp+)

end
