(* ===== verification/Url_Parse.thy ===== *)
theory Url_Parse
  imports Url_Path
begin

text \<open>
  \<open>URL::parse\<close>: the scanner that finds the ranges of the components in the input, and the
  assembly of the canonical string with the component ends that the accessors use. The
  input is a NUL-terminated buffer; reading it at or behind its end gives 0, which no scan
  passes. The lemmas show that the scanned ranges are ordered, that the ends of a valid
  URL are ordered and lie inside its string, that the string is printable ASCII, and that
  the output buffer of \<open>3 * fragmentEnd + 1\<close> bytes is never overrun.
\<close>

section \<open>State\<close>

record url =
  m_string :: wtf_string
  m_isValid :: bool
  m_protocolIsInHTTPFamily :: bool
  m_schemeEnd :: nat
  m_userStart :: nat
  m_userEnd :: nat
  m_passwordEnd :: nat
  m_hostEnd :: nat
  m_portEnd :: nat
  m_pathAfterLastSlash :: nat
  m_pathEnd :: nat
  m_queryEnd :: nat
  m_fragmentEnd :: nat

definition invalidate :: "url \<Rightarrow> url" where
  "invalidate u = u\<lparr>m_isValid := False, m_protocolIsInHTTPFamily := False, m_schemeEnd := 0,
     m_userStart := 0, m_userEnd := 0, m_passwordEnd := 0, m_hostEnd := 0, m_portEnd := 0,
     m_pathEnd := 0, m_pathAfterLastSlash := 0, m_queryEnd := 0, m_fragmentEnd := 0\<rparr>"

text \<open>\<open>m_string = s; invalidate();\<close> which overwrites every member.\<close>

definition invalid_url :: "wtf_string \<Rightarrow> url" where
  "invalid_url s = invalidate \<lparr>m_string = s, m_isValid = False, m_protocolIsInHTTPFamily = False,
     m_schemeEnd = 0, m_userStart = 0, m_userEnd = 0, m_passwordEnd = 0, m_hostEnd = 0,
     m_portEnd = 0, m_pathAfterLastSlash = 0, m_pathEnd = 0, m_queryEnd = 0, m_fragmentEnd = 0\<rparr>"

text \<open>The local variables of the scan: the authority, then path, query and fragment.\<close>

record authority =
  userStart :: nat
  userEnd :: nat
  passwordStart :: nat
  passwordEnd :: nat
  hostStart :: nat
  hostEnd :: nat
  portStart :: nat
  portEnd :: nat

record tail_ranges =
  pathStart :: nat
  pathEnd :: nat
  queryStart :: nat
  queryEnd :: nat
  fragmentStart :: nat
  fragmentEnd :: nat

section \<open>Scanning\<close>

text \<open>A chain of \<open>isLetterMatchIgnoringCase(url[i + k], letters[k])\<close>.\<close>

fun letters_match :: "wtf_string \<Rightarrow> nat \<Rightarrow> string \<Rightarrow> bool" where
  "letters_match s i [] = True"
| "letters_match s i (l # ls) = (isLetterMatchIgnoringCase (at s i) (ch l) \<and> letters_match s (Suc i) ls)"

definition url_isFile :: "wtf_string \<Rightarrow> nat \<Rightarrow> bool" where
  "url_isFile s schemeEnd \<longleftrightarrow> schemeEnd = 4 \<and> letters_match s 0 ''file''"

definition url_isInHTTPFamily :: "wtf_string \<Rightarrow> bool" where
  "url_isInHTTPFamily s \<longleftrightarrow> letters_match s 0 ''http''
     \<and> (at s 4 = ch CHR '':'' \<or> (isLetterMatchIgnoringCase (at s 4) (ch CHR ''s'') \<and> at s 5 = ch CHR '':''))"

definition authority_start :: "wtf_string \<Rightarrow> nat \<Rightarrow> nat" where
  "authority_start s schemeEnd =
     (let u = schemeEnd + 1 in
      if at s (schemeEnd + 1) = ch CHR ''/'' then
        if at s (schemeEnd + 2) = ch CHR ''/'' then
          if isNonFileHierarchicalScheme s schemeEnd
          then scan_while (\<lambda>c. c = ch CHR ''/'') s (u + 2)
          else u + 2
        else u + 1
      else u)"

text \<open>
  The user name and password before an \<open>@\<close>; \<open>colonPos\<close> is the first colon of the run of
  user-info characters, 0 when it has none. The result holds \<open>userEnd\<close>, \<open>passwordStart\<close>,
  \<open>passwordEnd\<close> and \<open>hostStart\<close>; \<^const>\<open>None\<close> is the invalid character.
\<close>

definition scan_userinfo :: "wtf_string \<Rightarrow> nat \<Rightarrow> (nat \<times> nat \<times> nat \<times> nat) option" where
  "scan_userinfo s start =
     (let uend = scan_while isUserInfoChar s start;
          colon = scan_while (\<lambda>c. isUserInfoChar c \<and> c \<noteq> ch CHR '':'') s start;
          colonPos = (if colon < uend then colon else 0) in
      if at s uend = ch CHR ''@'' then
        if colonPos \<noteq> 0 then Some (colonPos, colonPos + 1, uend, uend + 1)
        else Some (uend, uend, uend, uend + 1)
      else if at s uend = ch CHR ''['' \<or> isPathSegmentEndChar (at s uend) then
        Some (start, start, start, start)
      else None)"

definition scan_host :: "wtf_string \<Rightarrow> nat \<Rightarrow> nat option" where
  "scan_host s start =
     (if at s start = ch CHR ''['' then
        let e = scan_while isIPv6Char s (start + 1) in
        if at s e = ch CHR '']'' then Some (e + 1) else None
      else Some (scan_while isHostnameChar s start))"

definition scan_port :: "wtf_string \<Rightarrow> nat \<Rightarrow> nat \<times> nat" where
  "scan_port s hend =
     (if at s hend = ch CHR '':'' then (hend + 1, scan_while isASCIIDigit s (hend + 1))
      else (hend, hend))"

definition empty_authority :: "nat \<Rightarrow> authority" where
  "empty_authority i = \<lparr>userStart = i, userEnd = i, passwordStart = i, passwordEnd = i,
     hostStart = i, hostEnd = i, portStart = i, portEnd = i\<rparr>"

definition scan_authority :: "wtf_string \<Rightarrow> nat \<Rightarrow> authority option" where
  "scan_authority s schemeEnd =
     (let hierarchical = (at s (schemeEnd + 1) = ch CHR ''/'');
          hasSecondSlash = (hierarchical \<and> at s (schemeEnd + 2) = ch CHR ''/'') in
      if (hierarchical \<and> hasSecondSlash) \<or> isNonFileHierarchicalScheme s schemeEnd then
        (let start = authority_start s schemeEnd in
         case scan_userinfo s start of None \<Rightarrow> None
         | Some (uend, pwstart, pwend, hstart) \<Rightarrow>
             (case scan_host s hstart of None \<Rightarrow> None
              | Some hend \<Rightarrow>
                  (let (pstart, pend) = scan_port s hend in
                   if \<not> isPathSegmentEndChar (at s pend) then None
                   else if hostPortIsEmptyButCredentialsArePresent hstart pend (at s pwend) then None
                   else if start = pend \<and> \<not> url_isInHTTPFamily s \<and> \<not> url_isFile s schemeEnd
                   then Some (empty_authority (start - 2))
                   else Some \<lparr>userStart = start, userEnd = uend, passwordStart = pwstart,
                          passwordEnd = pwend, hostStart = hstart, hostEnd = hend,
                          portStart = pstart, portEnd = pend\<rparr>)))
      else Some (empty_authority (schemeEnd + 1)))"

definition scan_tail :: "wtf_string \<Rightarrow> nat \<Rightarrow> tail_ranges" where
  "scan_tail s start =
     (let pend = scan_while (\<lambda>c. c \<noteq> 0 \<and> c \<noteq> ch CHR ''?'' \<and> c \<noteq> ch CHR ''#'') s start;
          qend = (if at s pend = ch CHR ''?'' then scan_while (\<lambda>c. c \<noteq> 0 \<and> c \<noteq> ch CHR ''#'') s pend
                  else pend);
          (fstart, fend) = (if at s qend = ch CHR ''#''
                            then (qend + 1, scan_while (\<lambda>c. c \<noteq> 0) s (qend + 1)) else (qend, qend)) in
      \<lparr>pathStart = start, pathEnd = pend, queryStart = pend, queryEnd = qend,
       fragmentStart = fstart, fragmentEnd = fend\<rparr>)"

section \<open>Assembling the canonical string\<close>

definition url_hostIsLocalHost :: "wtf_string \<Rightarrow> authority \<Rightarrow> bool" where
  "url_hostIsLocalHost s a \<longleftrightarrow>
     portEnd a - userStart a = 9 \<and> letters_match s (userStart a) ''localhost''"

definition haveNonHostAuthorityPart :: "authority \<Rightarrow> bool" where
  "haveNonHostAuthorityPart a \<longleftrightarrow>
     userStart a \<noteq> userEnd a \<or> passwordStart a \<noteq> passwordEnd a \<or> hostEnd a \<noteq> portEnd a"

definition assemble_userinfo :: "wtf_string \<Rightarrow> authority \<Rightarrow> wtf_string \<times> wtf_string" where
  "assemble_userinfo s a =
     (between (userStart a) (userEnd a) s,
      if passwordEnd a \<noteq> passwordStart a
      then ch CHR '':'' # between (passwordStart a) (passwordEnd a) s else [])"

definition assemble_host :: "wtf_string \<Rightarrow> bool \<Rightarrow> wtf_string \<Rightarrow> authority \<Rightarrow> wtf_string" where
  "assemble_host s isFile scheme a =
     (if \<not> (isFile \<and> url_hostIsLocalHost s a \<and> \<not> haveNonHostAuthorityPart a) then
        if isCanonicalHostnameLowercaseForScheme scheme (length scheme)
        then map toASCIILower (between (hostStart a) (hostEnd a) s)
        else between (hostStart a) (hostEnd a) s
      else [])"

definition assemble_port :: "wtf_string \<Rightarrow> wtf_string \<Rightarrow> authority \<Rightarrow> wtf_string" where
  "assemble_port s scheme a =
     (if hostEnd a \<noteq> portStart a then
        let portLength = portEnd a - portStart a in
        if (portLength \<noteq> 0
            \<and> \<not> isDefaultPortForScheme (drop (portStart a) s) portLength scheme (length scheme))
          \<or> (hostStart a = hostEnd a \<and> hostEnd a \<noteq> portStart a)
        then ch CHR '':'' # between (portStart a) (portEnd a) s else []
      else [])"

text \<open>The text between the scheme's colon and the path, with the ends it fixes.\<close>

record authority_text =
  at_prefix :: wtf_string
  at_user :: wtf_string
  at_password :: wtf_string
  at_sign :: wtf_string
  at_host :: wtf_string
  at_port :: wtf_string

definition assemble_authority ::
    "wtf_string \<Rightarrow> bool \<Rightarrow> wtf_string \<Rightarrow> authority \<Rightarrow> tail_ranges \<Rightarrow> authority_text" where
  "assemble_authority s isFile scheme a t =
     (let degenerateFilePath = (pathStart t = pathEnd t
            \<and> (hostStart a = hostEnd a \<or> url_hostIsLocalHost s a)) in
      if (if isFile then \<not> degenerateFilePath
          else haveNonHostAuthorityPart a \<or> hostStart a \<noteq> hostEnd a) then
        (let (user, password) = assemble_userinfo s a in
         \<lparr>at_prefix = lit ''//'', at_user = user, at_password = password,
          at_sign = (if user @ password \<noteq> [] then [ch CHR ''@''] else []),
          at_host = assemble_host s isFile scheme a, at_port = assemble_port s scheme a\<rparr>)
      else \<lparr>at_prefix = (if isFile then lit ''//'' else []), at_user = [], at_password = [],
            at_sign = [], at_host = [], at_port = []\<rparr>)"

definition assemble_path :: "wtf_string \<Rightarrow> bool \<Rightarrow> bool \<Rightarrow> tail_ranges \<Rightarrow> wtf_string" where
  "assemble_path s hierarchical addSlash t =
     (if addSlash \<and> pathEnd t = pathStart t then [ch CHR ''/''] else []) @
     (if \<not> hierarchical then escapeAndAppendNonHierarchicalPart (between (pathStart t) (pathEnd t) s)
      else if \<not> hasSlashDotOrDotDot s then appendEscapingBadChars (between (pathStart t) (pathEnd t) s)
      else appendEscapingBadChars (copyPathRemovingDots s (pathStart t) (pathEnd t)))"

definition assemble_fragment :: "wtf_string \<Rightarrow> tail_ranges \<Rightarrow> wtf_string" where
  "assemble_fragment s t =
     (if fragmentEnd t \<noteq> queryEnd t
      then ch CHR ''#'' # escapeAndAppendNonHierarchicalPart (between (fragmentStart t) (fragmentEnd t) s)
      else [])"

text \<open>\<open>for (i = m_pathEnd; i > m_portEnd; --i) if (buffer[i - 1] == '/') break;\<close>\<close>

fun after_last_slash :: "wtf_string \<Rightarrow> nat \<Rightarrow> nat \<Rightarrow> nat" where
  "after_last_slash buffer pend 0 = 0"
| "after_last_slash buffer pend (Suc i) =
     (if Suc i > pend then if at buffer i = ch CHR ''/'' then Suc i else after_last_slash buffer pend i
      else Suc i)"

text \<open>The order in which the pieces are written, and the ends recorded in between.\<close>

definition write_url ::
    "bool \<Rightarrow> wtf_string option \<Rightarrow> wtf_string \<Rightarrow> authority_text \<Rightarrow> wtf_string \<Rightarrow> wtf_string \<Rightarrow> wtf_string \<Rightarrow> url" where
  "write_url inHTTPFamily originalString scheme au path query fragment =
     (let b1 = scheme @ [ch CHR '':''] @ at_prefix au;
          b2 = b1 @ at_user au;
          b3 = b2 @ at_password au;
          b4 = b3 @ at_sign au @ at_host au;
          b5 = b4 @ at_port au;
          b6 = b5 @ path;
          b7 = b6 @ query;
          b8 = b7 @ fragment in
      \<lparr>m_string = (case originalString of Some original \<Rightarrow> if original = b8 then original else b8
                   | None \<Rightarrow> b8),
       m_isValid = True, m_protocolIsInHTTPFamily = inHTTPFamily, m_schemeEnd = length scheme,
       m_userStart = length b1, m_userEnd = length b2, m_passwordEnd = length b3,
       m_hostEnd = length b4, m_portEnd = length b5,
       m_pathAfterLastSlash = after_last_slash b6 (length b5) (length b6),
       m_pathEnd = length b6, m_queryEnd = length b7, m_fragmentEnd = length b8\<rparr>)"

definition assemble :: "wtf_string \<Rightarrow> wtf_string option \<Rightarrow> nat \<Rightarrow> authority \<Rightarrow> url" where
  "assemble s originalString schemeEnd a =
     (let t = scan_tail s (portEnd a);
          hierarchical = (at s (schemeEnd + 1) = ch CHR ''/'');
          isFile = url_isFile s schemeEnd;
          inHTTPFamily = url_isInHTTPFamily s;
          scheme = map toASCIILower (between 0 schemeEnd s) in
      write_url inHTTPFamily originalString scheme (assemble_authority s isFile scheme a t)
        (assemble_path s hierarchical (inHTTPFamily \<or> isFile) t)
        (appendEscapingBadChars (between (queryStart t) (queryEnd t) s))
        (assemble_fragment s t))"

section \<open>The parser\<close>

definition parse_chars :: "wtf_string \<Rightarrow> wtf_string option \<Rightarrow> url" where
  "parse_chars s originalString =
     (let reject = invalid_url (case originalString of Some original \<Rightarrow> original
            | None \<Rightarrow> takeWhile (\<lambda>c. c \<noteq> 0) s) in
      if at s 0 = 0 then reject
      else if \<not> isSchemeFirstChar (at s 0) then reject
      else let schemeEnd = scan_while isSchemeChar s 0 in
        if at s schemeEnd \<noteq> ch CHR '':'' then reject
        else case scan_authority s schemeEnd of None \<Rightarrow> reject
          | Some a \<Rightarrow> assemble s originalString schemeEnd a)"

text \<open>\<open>copyASCII\<close>: each 16-bit unit is cast to \<open>char\<close>.\<close>

definition copyASCII :: "wtf_string \<Rightarrow> wtf_string" where
  "copyASCII string = map (\<lambda>c. c mod 256) string"

definition parse :: "wtf_string \<Rightarrow> url" where
  "parse string = parse_chars (copyASCII string) (Some string)"

lemmas parse_defs [url_defs] = parse_def parse_chars_def copyASCII_def

section \<open>The scanned ranges\<close>

definition authority_ok :: "wtf_string \<Rightarrow> authority \<Rightarrow> bool" where
  "authority_ok s a \<longleftrightarrow>
     userStart a \<le> userEnd a \<and> userEnd a \<le> passwordStart a \<and> passwordStart a \<le> passwordEnd a
   \<and> passwordEnd a \<le> hostStart a \<and> hostStart a \<le> hostEnd a \<and> hostEnd a \<le> portStart a
   \<and> portStart a \<le> portEnd a \<and> portEnd a \<le> length s
   \<and> list_all isUserInfoChar (between (userStart a) (userEnd a) s)
   \<and> list_all isUserInfoChar (between (passwordStart a) (passwordEnd a) s)
   \<and> list_all (\<lambda>c. isHostnameChar c \<or> isIPv6Char c \<or> c = 91 \<or> c = 93) (between (hostStart a) (hostEnd a) s)
   \<and> list_all isASCIIDigit (between (portStart a) (portEnd a) s)"

text \<open>Every separator the assembly writes has a counterpart in the input.\<close>

definition authority_gaps :: "nat \<Rightarrow> authority \<Rightarrow> bool" where
  "authority_gaps schemeEnd a \<longleftrightarrow> schemeEnd < userStart a
   \<and> (passwordStart a \<noteq> passwordEnd a \<longrightarrow> userEnd a < passwordStart a)
   \<and> (userStart a \<noteq> userEnd a \<or> passwordStart a \<noteq> passwordEnd a \<longrightarrow> passwordEnd a < hostStart a)
   \<and> (hostEnd a \<noteq> portStart a \<longrightarrow> hostEnd a < portStart a)"

lemma scan_userinfo_ok:
  assumes "scan_userinfo s start = Some (ue, ps, pe, hs)" "start \<le> length s"
  shows "start \<le> ue \<and> ue \<le> ps \<and> ps \<le> pe \<and> pe \<le> hs \<and> hs \<le> length s
    \<and> list_all isUserInfoChar (between start ue s) \<and> list_all isUserInfoChar (between ps pe s)
    \<and> (ps \<noteq> pe \<longrightarrow> ue < ps) \<and> (start \<noteq> ue \<or> ps \<noteq> pe \<longrightarrow> pe < hs)"
proof -
  define u where "u = scan_while isUserInfoChar s start"
  define c where "c = scan_while (\<lambda>c. isUserInfoChar c \<and> c \<noteq> ch CHR '':'') s start"
  have le: "start \<le> u" "u \<le> length s" "start \<le> c"
    unfolding u_def c_def using assms(2) by (auto intro: scan_while_ge scan_while_le)
  have at: "at s u = 64 \<Longrightarrow> u < length s" by (rule at_nonzero) simp
  have all: "list_all isUserInfoChar (between i j s)" if "start \<le> i" "j \<le> u" for i j
    using list_all_between_sub [OF list_all_scan_while that(1)] that(2) unfolding u_def .
  have "ue = c \<and> ps = c + 1 \<and> pe = u \<and> hs = u + 1 \<and> c < u \<and> at s u = 64
    \<or> ue = u \<and> ps = u \<and> pe = u \<and> hs = u + 1 \<and> at s u = 64
    \<or> ue = start \<and> ps = start \<and> pe = start \<and> hs = start"
    using assms(1) unfolding scan_userinfo_def Let_def u_def [symmetric] c_def [symmetric]
    by (simp split: if_splits)
  then show ?thesis using le assms(2) at by (elim disjE conjE) (simp_all add: all Suc_leI)
qed

lemma scan_host_ok:
  assumes "scan_host s start = Some e" "start \<le> length s"
  shows "start \<le> e \<and> e \<le> length s
    \<and> list_all (\<lambda>c. isHostnameChar c \<or> isIPv6Char c \<or> c = 91 \<or> c = 93) (between start e s)"
    (is "_ \<and> _ \<and> list_all ?h _")
proof -
  define x where "x = scan_while isIPv6Char s (Suc start)"
  have "at s start = 91 \<and> e = Suc x \<and> at s x = 93 \<or> e = scan_while isHostnameChar s start"
    using assms(1) unfolding scan_host_def Let_def Suc_eq_plus1 [symmetric] x_def [symmetric]
    by (simp split: if_splits)
  then show ?thesis
  proof (elim disjE conjE)
    assume e: "e = Suc x" "at s start = 91" "at s x = 93"
    have x: "Suc start \<le> x" unfolding x_def by (rule scan_while_ge)
    have at: "start < length s" "x < length s" using e by (simp_all add: at_nonzero)
    have "between start e s = between start (Suc start) s @ between (Suc start) x s @ between x e s"
      using x e(1) between_split [of start "Suc start" e s] between_split [of "Suc start" x e s] by simp
    moreover have "between start (Suc start) s = [91]" "between x e s = [93]"
      using at e by (simp_all add: between_single at_def)
    moreover have "list_all ?h (between (Suc start) x s)"
      using list_all_scan_while [of isIPv6Char "Suc start" s]
      unfolding x_def by (rule list.pred_mono_strong) simp
    ultimately show ?thesis using x at e(1) by simp
  next
    assume e: "e = scan_while isHostnameChar s start"
    have "list_all ?h (between start e s)"
      using list_all_scan_while [of isHostnameChar start s]
      unfolding e by (rule list.pred_mono_strong) simp
    then show ?thesis using assms(2) unfolding e by (simp add: scan_while_ge scan_while_le)
  qed
qed

lemma scan_port_ok:
  assumes "scan_port s e = (ps, pe)" "e \<le> length s"
  shows "e \<le> ps \<and> ps \<le> pe \<and> pe \<le> length s \<and> (e \<noteq> ps \<longrightarrow> e < ps) \<and> list_all isASCIIDigit (between ps pe s)"
  using assms scan_while_ge [of "e + 1" isASCIIDigit s] scan_while_le [of "e + 1" s isASCIIDigit]
    at_nonzero [of s e]
  by (auto simp: scan_port_def list_all_scan_while split: if_splits)

lemma authority_start_ge: "schemeEnd < authority_start s schemeEnd"
  using scan_while_ge [of "schemeEnd + 1 + 2" "\<lambda>c. c = 47" s]
  by (simp add: authority_start_def Let_def)

lemma authority_start_le: "schemeEnd < length s \<Longrightarrow> authority_start s schemeEnd \<le> length s"
  using scan_while_le [of "schemeEnd + 1 + 2" s "\<lambda>c. c = 47"]
    at_nonzero [of s "schemeEnd + 1"] at_nonzero [of s "schemeEnd + 2"]
  by (auto simp: authority_start_def Let_def)

lemma authority_ok_empty [simp]: "authority_ok s (empty_authority i) \<longleftrightarrow> i \<le> length s"
  by (simp add: authority_ok_def empty_authority_def)

lemma isNonFileHierarchicalScheme_length: "isNonFileHierarchicalScheme s n \<Longrightarrow> 2 \<le> n"
  by (auto simp: isNonFileHierarchicalScheme_def split: if_splits)

lemma authority_gaps_empty [simp]: "authority_gaps e (empty_authority i) \<longleftrightarrow> e < i"
  by (simp add: authority_gaps_def empty_authority_def)

lemma scan_authority_ok:
  assumes "scan_authority s e = Some a" "0 < e" "e < length s"
  shows "authority_ok s a \<and>
    (authority_gaps e a \<or>
     (\<exists>i. a = empty_authority i \<and> e \<le> Suc i \<and> (e = Suc i \<longrightarrow> 2 \<le> e)
        \<and> \<not> url_isInHTTPFamily s \<and> \<not> url_isFile s e))"
proof (cases "at s (e + 1) = 47 \<and> at s (e + 2) = 47 \<or> isNonFileHierarchicalScheme s e")
  case False
  then have "a = empty_authority (e + 1)"
    using assms(1) by (cases "at s (e + 1) = 47") (simp_all add: scan_authority_def Let_def)
  with assms(3) show ?thesis by simp
next
  case True
  define start where "start = authority_start s e"
  have start: "e < start" "start \<le> length s"
    unfolding start_def using assms(3) by (simp_all add: authority_start_ge authority_start_le)
  obtain ue pw pe hs where ui: "scan_userinfo s start = Some (ue, pw, pe, hs)"
    using True assms(1) unfolding start_def
    by (cases "scan_userinfo s (authority_start s e)") (auto simp: scan_authority_def Let_def)
  obtain he where h: "scan_host s hs = Some he"
    using True assms(1) ui unfolding start_def
    by (cases "scan_host s hs") (auto simp: scan_authority_def Let_def)
  obtain ps pt where p: "scan_port s he = (ps, pt)" by fastforce
  have a: "(if start = pt \<and> \<not> url_isInHTTPFamily s \<and> \<not> url_isFile s e
        then Some (empty_authority (start - 2))
        else Some \<lparr>userStart = start, userEnd = ue, passwordStart = pw, passwordEnd = pe,
          hostStart = hs, hostEnd = he, portStart = ps, portEnd = pt\<rparr>) = Some a"
    using True assms(1) ui h p unfolding start_def scan_authority_def Let_def
    by (simp del: not_None_eq split: if_splits) blast
  note U = scan_userinfo_ok [OF ui start(2)]
  then have H: "hs \<le> he \<and> he \<le> length s \<and>
      list_all (\<lambda>c. isHostnameChar c \<or> isIPv6Char c \<or> c = 91 \<or> c = 93) (between hs he s)"
    using scan_host_ok [OF h] by blast
  then have P: "he \<le> ps \<and> ps \<le> pt \<and> pt \<le> length s \<and> (he \<noteq> ps \<longrightarrow> he < ps)
      \<and> list_all isASCIIDigit (between ps pt s)"
    using scan_port_ok [OF p] by blast
  show ?thesis
  proof (cases "start = pt \<and> \<not> url_isInHTTPFamily s \<and> \<not> url_isFile s e")
    case empty: True
    with a have "a = empty_authority (start - 2)" by simp
    moreover have "2 \<le> e" if "start = Suc e"
    proof -
      have "at s (e + 1) \<noteq> 47"
        using that scan_while_ge [of "e + 1 + 2" "\<lambda>c. c = 47" s] 
        by (simp add: start_def authority_start_def Let_def split: if_splits)
      with True show ?thesis by (blast intro: isNonFileHierarchicalScheme_length)
    qed
    ultimately show ?thesis using empty start assms(2)
      by (intro conjI disjI2 exI [of _ "start - 2"]) (auto simp: numeral_2_eq_2)
  next
    case False
    with a have "a = \<lparr>userStart = start, userEnd = ue, passwordStart = pw, passwordEnd = pe,
          hostStart = hs, hostEnd = he, portStart = ps, portEnd = pt\<rparr>" by simp
    then show ?thesis using U H P start(1) by (simp add: authority_ok_def authority_gaps_def)
  qed
qed

section \<open>Well-formed results\<close>

definition url_wf :: "url \<Rightarrow> bool" where
  "url_wf u \<longleftrightarrow> 0 < m_schemeEnd u \<and> m_schemeEnd u < m_userStart u \<and> m_userStart u \<le> m_userEnd u
   \<and> m_userEnd u \<le> m_passwordEnd u \<and> m_passwordEnd u \<le> m_hostEnd u \<and> m_hostEnd u \<le> m_portEnd u
   \<and> m_portEnd u \<le> m_pathAfterLastSlash u \<and> m_pathAfterLastSlash u \<le> m_pathEnd u
   \<and> m_pathEnd u \<le> m_queryEnd u \<and> m_queryEnd u \<le> m_fragmentEnd u
   \<and> m_fragmentEnd u = length (m_string u) \<and> at (m_string u) (m_schemeEnd u) = ch CHR '':''"

lemma after_last_slash_bounds:
  "p \<le> i \<Longrightarrow> p \<le> after_last_slash b p i \<and> after_last_slash b p i \<le> i"
  by (induction b p i rule: after_last_slash.induct) (auto simp: le_Suc_eq)

lemma m_string_assemble [simp]:
  "(case orig of Some x \<Rightarrow> if x = b then x else b | None \<Rightarrow> b) = b"
  by (cases orig) simp_all

lemmas after_last_slash_ge = after_last_slash_bounds [THEN conjunct1]
  and after_last_slash_le = after_last_slash_bounds [THEN conjunct2]

lemma at_append_length [simp]: "at (xs @ c # ys) (length xs) = c"
  by (simp add: at_def)

lemma write_url_wf: "scheme \<noteq> [] \<Longrightarrow> url_wf (write_url h orig scheme au p q f)"
  by (simp add: write_url_def Let_def url_wf_def after_last_slash_ge after_last_slash_le del: after_last_slash.simps)

lemma m_string_write_url:
  "m_string (write_url h orig scheme au p q f) = scheme @ [58] @ at_prefix au @ at_user au
     @ at_password au @ at_sign au @ at_host au @ at_port au @ p @ q @ f"
  by (simp add: write_url_def Let_def)

lemma assemble_wf: "0 < e \<Longrightarrow> e \<le> length s \<Longrightarrow> url_wf (assemble s orig e a)"
  unfolding assemble_def Let_def by (rule write_url_wf) (auto simp: between_def)

lemma m_isValid_invalid [simp]: "\<not> m_isValid (invalid_url s)"
  by (simp add: invalid_url_def invalidate_def)

lemma m_isValid_assemble [simp]: "m_isValid (assemble s orig e a)"
  by (simp add: assemble_def Let_def write_url_def)

text \<open>What a successful parse has found.\<close>

lemma parse_chars_valid:
  assumes "m_isValid (parse_chars s orig)"
  obtains e a where "e = scan_while isSchemeChar s 0" "0 < e" "e < length s" "at s e = 58"
    "scan_authority s e = Some a" "parse_chars s orig = assemble s orig e a" "isSchemeFirstChar (at s 0)"
proof -
  define e where "e = scan_while isSchemeChar s 0"
  from assms obtain a where a: "at s 0 \<noteq> 0" "isSchemeFirstChar (at s 0)" "at s e = 58"
    "scan_authority s e = Some a" "parse_chars s orig = assemble s orig e a"
    unfolding parse_chars_def Let_def e_def by (simp split: if_splits option.splits)
  then have "isSchemeChar (s ! 0)" "0 < length s"
    by (auto simp: at_def char_class split: if_splits)
  then have "0 < e"
    unfolding e_def using scan_while_ge [of 1 isSchemeChar s] by (simp add: scan_while.simps [of _ _ 0])
  moreover have "e < length s" using a(3) by (intro at_nonzero) simp
  ultimately show thesis using that [OF e_def] a by blast
qed

lemma parse_chars_wf: "m_isValid (parse_chars s orig) \<Longrightarrow> url_wf (parse_chars s orig)"
  by (erule parse_chars_valid) (simp add: assemble_wf)

definition tail_ok :: "wtf_string \<Rightarrow> tail_ranges \<Rightarrow> bool" where
  "tail_ok s t \<longleftrightarrow> pathStart t \<le> pathEnd t \<and> pathEnd t = queryStart t \<and> queryStart t \<le> queryEnd t
   \<and> queryEnd t \<le> fragmentStart t \<and> fragmentStart t \<le> fragmentEnd t \<and> fragmentEnd t \<le> length s
   \<and> (fragmentEnd t \<noteq> queryEnd t \<longrightarrow> queryEnd t < fragmentStart t)
   \<and> list_all (\<lambda>c. c \<noteq> 0 \<and> c \<noteq> 63 \<and> c \<noteq> 35) (between (pathStart t) (pathEnd t) s)
   \<and> list_all (\<lambda>c. c \<noteq> 0 \<and> c \<noteq> 35) (between (queryStart t) (queryEnd t) s)
   \<and> list_all (\<lambda>c. c \<noteq> 0) (between (fragmentStart t) (fragmentEnd t) s)"

lemma scan_tail_ok: 
  assumes "start \<le> length s"
  shows "tail_ok s (scan_tail s start)"
proof -
  define p where "p = scan_while (\<lambda>c. c \<noteq> 0 \<and> c \<noteq> ch CHR ''?'' \<and> c \<noteq> ch CHR ''#'') s start"
  define q where "q = (if at s p = ch CHR ''?'' then scan_while (\<lambda>c. c \<noteq> 0 \<and> c \<noteq> ch CHR ''#'') s p else p)"
  define f where "f = (if at s q = ch CHR ''#''
    then (q + 1, scan_while (\<lambda>c. c \<noteq> 0) s (q + 1)) else (q, q))"
  have p: "start \<le> p" "p \<le> length s" 
    "list_all (\<lambda>c. c \<noteq> 0 \<and> c \<noteq> 63 \<and> c \<noteq> 35) (between start p s)"
    using assms list_all_scan_while [of "\<lambda>c. c \<noteq> 0 \<and> c \<noteq> ch CHR ''?'' \<and> c \<noteq> ch CHR ''#''" start s]
    by (simp_all add: p_def scan_while_ge scan_while_le)
  then have q: "p \<le> q" "q \<le> length s" "list_all (\<lambda>c. c \<noteq> 0 \<and> c \<noteq> 35) (between p q s)"
    using list_all_scan_while [of "\<lambda>c. c \<noteq> 0 \<and> c \<noteq> ch CHR ''#''" p s]
    by (simp_all add: q_def scan_while_ge scan_while_le)
  have "q < length s" if "at s q = 35" using that by (intro at_nonzero) simp
  then have f: "q \<le> fst f" "fst f \<le> snd f" "snd f \<le> length s" "snd f \<noteq> q \<longrightarrow> q < fst f"
    "list_all (\<lambda>c. c \<noteq> 0) (between (fst f) (snd f) s)"
    using q(2) by (simp_all add: f_def scan_while_ge scan_while_le list_all_scan_while Suc_leI)
  have "scan_tail s start = \<lparr>pathStart = start, pathEnd = p, queryStart = p, queryEnd = q,
      fragmentStart = fst f, fragmentEnd = snd f\<rparr>"
    unfolding scan_tail_def Let_def p_def [symmetric] q_def [symmetric] f_def [symmetric]
    by (simp split: prod.split)
  with p q f show ?thesis by (simp add: tail_ok_def)
qed

lemma pathStart_scan_tail [simp]: "pathStart (scan_tail s start) = start"
  by (simp add: scan_tail_def Let_def split: prod.split)

section \<open>Printable output\<close>

abbreviation bytes :: "wtf_string \<Rightarrow> bool" where
  "bytes s \<equiv> list_all (\<lambda>c. c < 256) s"

lemma printable_classes:
  "isSchemeChar c \<Longrightarrow> printable c" "isUserInfoChar c \<Longrightarrow> printable c"
  "isHostnameChar c \<or> isIPv6Char c \<or> c = 91 \<or> c = 93 \<Longrightarrow> printable c" "isASCIIDigit c \<Longrightarrow> printable c"
  by (auto simp: char_class alpha_def digit_def printable_def isASCIIDigit_def)

lemma printable_toASCIILower: "printable c \<Longrightarrow> printable (toASCIILower c)"
  by (auto simp: printable_def toASCIILower_alt isASCIIUpper_def)

lemma printable_bad: 
  assumes "list_all (\<lambda>c. c \<noteq> 0) s" "bytes s"
  shows "list_all printable (appendEscapingBadChars s)"
  using printable_appendEscapingBadChars [of s] assms by (simp add: list_all_iff)

lemma printable_part: "bytes s \<Longrightarrow> list_all printable (escapeAndAppendNonHierarchicalPart s)"
  using printable_escapeAndAppend [of s] by (simp add: list_all_iff)

lemma list_all_mono: "list_all p xs \<Longrightarrow> (\<And>x. p x \<Longrightarrow> q x) \<Longrightarrow> list_all q xs"
  by (auto simp: list_all_iff)

lemma printable_authority:
  assumes "authority_ok s a" "list_all printable scheme"
  shows "list_all printable (at_prefix (assemble_authority s f scheme a t))"
    "list_all printable (at_user (assemble_authority s f scheme a t))"
    "list_all printable (at_password (assemble_authority s f scheme a t))"
    "list_all printable (at_sign (assemble_authority s f scheme a t))"
    "list_all printable (at_host (assemble_authority s f scheme a t))"
    "list_all printable (at_port (assemble_authority s f scheme a t))"
proof -
  have "list_all printable (between (userStart a) (userEnd a) s)"
    "list_all printable (between (passwordStart a) (passwordEnd a) s)"
    "list_all printable (between (hostStart a) (hostEnd a) s)"
    "list_all printable (between (portStart a) (portEnd a) s)"
    using assms(1) unfolding authority_ok_def
    by (simp_all add: list_all_iff printable_classes)
  moreover from this(3) have "list_all printable (map toASCIILower (between (hostStart a) (hostEnd a) s))"
    by (simp add: list_all_iff printable_toASCIILower)
  ultimately show "list_all printable (at_prefix (assemble_authority s f scheme a t))"
    "list_all printable (at_user (assemble_authority s f scheme a t))"
    "list_all printable (at_password (assemble_authority s f scheme a t))"
    "list_all printable (at_sign (assemble_authority s f scheme a t))"
    "list_all printable (at_host (assemble_authority s f scheme a t))"
    "list_all printable (at_port (assemble_authority s f scheme a t))"
    by (simp_all add: assemble_authority_def Let_def assemble_userinfo_def assemble_host_def
        assemble_port_def lit_def printable_def)
qed

lemma printable_path:
  assumes "tail_ok s t" "bytes s"
  shows "list_all printable (assemble_path s hier slash t)"
proof -
  let ?b = "between (pathStart t) (pathEnd t) s"
  have "list_all (\<lambda>c. c \<noteq> 0) ?b" 
    using assms(1) unfolding tail_ok_def by (elim conjE) (erule list_all_mono, simp)
  then show ?thesis
    using assms(2) by (simp add: assemble_path_def printable_bad printable_part list_all_between
        list_all_copyPathRemovingDots printable_def)
qed

lemma parse_chars_printable:
  assumes "m_isValid (parse_chars s orig)" "bytes s"
  shows "list_all printable (m_string (parse_chars s orig))"
proof -
  from assms(1) obtain e a where e: "e = scan_while isSchemeChar s 0" "0 < e" "e < length s"
    and a: "scan_authority s e = Some a" and p: "parse_chars s orig = assemble s orig e a"
    by (rule parse_chars_valid)
  have ok: "authority_ok s a" using scan_authority_ok [OF a e(2,3)] by blast
  then have t: "tail_ok s (scan_tail s (portEnd a))" (is "tail_ok s ?t")
    by (intro scan_tail_ok) (simp add: authority_ok_def)
  have scheme: "list_all printable (map toASCIILower (between 0 e s))"
    using list_all_scan_while [of isSchemeChar 0 s] unfolding e(1)
    by (auto simp: list_all_iff intro: printable_toASCIILower printable_classes)
  have "list_all (\<lambda>c. c \<noteq> 0) (between (queryStart ?t) (queryEnd ?t) s)"
    using t unfolding tail_ok_def by (elim conjE) (erule list_all_mono, simp)
  then have "list_all printable (appendEscapingBadChars (between (queryStart ?t) (queryEnd ?t) s))"
    using assms(2) by (simp add: printable_bad list_all_between)
  moreover have "list_all printable (assemble_fragment s ?t)"
    using assms(2) by (simp add: assemble_fragment_def printable_part list_all_between printable_def)
  ultimately show ?thesis
    using printable_authority [OF ok scheme] printable_path [OF t assms(2)] scheme
    by (simp add: p assemble_def Let_def m_string_write_url printable_def)
qed

section \<open>The output buffer is big enough\<close>

definition authority_length :: "authority_text \<Rightarrow> nat" where
  "authority_length au = length (at_prefix au) + length (at_user au) + length (at_password au)
     + length (at_sign au) + length (at_host au) + length (at_port au)"

lemma assemble_authority_cases:
  obtains (full) "assemble_authority s f scheme a t =
      \<lparr>at_prefix = lit ''//'', at_user = fst (assemble_userinfo s a),
       at_password = snd (assemble_userinfo s a),
       at_sign = (if fst (assemble_userinfo s a) @ snd (assemble_userinfo s a) \<noteq> []
         then [ch CHR ''@''] else []),
       at_host = assemble_host s f scheme a, at_port = assemble_port s scheme a\<rparr>"
  | (none) "assemble_authority s f scheme a t =
      \<lparr>at_prefix = (if f then lit ''//'' else []), at_user = [], at_password = [],
       at_sign = [], at_host = [], at_port = []\<rparr>"
  unfolding assemble_authority_def Let_def case_prod_beta by (metis (no_types, lifting))

lemma length_assemble_port:
  "hostEnd a \<noteq> portStart a \<longrightarrow> hostEnd a < portStart a \<Longrightarrow> portStart a \<le> portEnd a \<Longrightarrow>
     length (assemble_port s scheme a) \<le> portEnd a - hostEnd a"
  by (simp add: assemble_port_def Let_def min_def) linarith

lemma length_assemble_host: "length (assemble_host s f scheme a) \<le> hostEnd a - hostStart a"
  by (simp add: assemble_host_def)

lemma length_authority_gaps:
  assumes "authority_ok s a" "authority_gaps e a"
  shows "authority_length (assemble_authority s f scheme a t) + userStart a \<le> 2 + portEnd a"
proof (cases rule: assemble_authority_cases [of s f scheme a t])
  case full
  note le = assms [unfolded authority_ok_def authority_gaps_def]
  have "length (at_user (assemble_authority s f scheme a t)) \<le> userEnd a - userStart a"
    by (simp add: full assemble_userinfo_def)
  moreover have "length (at_password (assemble_authority s f scheme a t)) \<le> passwordEnd a - userEnd a"
    using le by (simp add: full assemble_userinfo_def min_def) linarith
  moreover have "length (at_sign (assemble_authority s f scheme a t)) \<le> hostStart a - passwordEnd a"
    using le by (cases "userStart a = userEnd a \<and> passwordStart a = passwordEnd a")
      (simp add: full assemble_userinfo_def, simp add: full Suc_le_eq)
  moreover have "length (at_host (assemble_authority s f scheme a t)) \<le> hostEnd a - hostStart a"
    by (simp add: full length_assemble_host)
  moreover have "length (at_port (assemble_authority s f scheme a t)) \<le> portEnd a - hostEnd a"
    using le by (simp add: full length_assemble_port)
  moreover have "length (at_prefix (assemble_authority s f scheme a t)) = 2"
    by (simp add: full lit_def)
  ultimately show ?thesis using le unfolding authority_length_def by linarith
next
  case none
  with assms show ?thesis by (simp add: authority_length_def authority_ok_def lit_def)
qed

lemma length_authority_empty:
  "\<not> f \<Longrightarrow> authority_length (assemble_authority s f scheme (empty_authority i) t) = 0"
  by (simp add: authority_length_def assemble_authority_def empty_authority_def
      haveNonHostAuthorityPart_def)

lemma copyPathRemovingDots_empty [simp]: "copyPathRemovingDots s i i = []"
  by (simp add: copyPathRemovingDots_def)

lemma length_path:
  "length (assemble_path s hier slash t) \<le> (if slash then 1 else 0) + 3 * (pathEnd t - pathStart t)"
proof -
  let ?b = "between (pathStart t) (pathEnd t) s"
  have "length ?b \<le> pathEnd t - pathStart t" by simp
  moreover have "length (appendEscapingBadChars (copyPathRemovingDots s (pathStart t) (pathEnd t))) \<le> 3 * length ?b"
    using length_appendEscapingBadChars [of "copyPathRemovingDots s (pathStart t) (pathEnd t)"]
      length_copyPathRemovingDots [of s "pathStart t" "pathEnd t"] by linarith
  ultimately show ?thesis
    using length_appendEscapingBadChars [of ?b] length_escapeAndAppend [of ?b]
    unfolding assemble_path_def by (auto simp del: length_between)
qed

lemma length_query:
  "length (appendEscapingBadChars (between (queryStart t) (queryEnd t) s)) \<le> 3 * (queryEnd t - queryStart t)"
  using length_appendEscapingBadChars [of "between (queryStart t) (queryEnd t) s"] by simp

lemma length_fragment:
  "tail_ok s t \<Longrightarrow> length (assemble_fragment s t) \<le> 3 * (fragmentEnd t - queryEnd t)"
  using length_escapeAndAppend [of "between (fragmentStart t) (fragmentEnd t) s"]
  by (auto simp: assemble_fragment_def tail_ok_def)

lemma assemble_fits:
  assumes "scan_authority s e = Some a" "0 < e" "e < length s"
  shows "length (m_string (assemble s orig e a)) \<le> 3 * fragmentEnd (scan_tail s (portEnd a)) + 1"
proof -
  let ?t = "scan_tail s (portEnd a)"
  let ?slash = "url_isInHTTPFamily s \<or> url_isFile s e"
  let ?au = "assemble_authority s (url_isFile s e) (map toASCIILower (between 0 e s)) a ?t"
  note ok = scan_authority_ok [OF assms]
  then have le: "userStart a \<le> portEnd a" "portEnd a \<le> length s" by (auto simp: authority_ok_def)
  note t = scan_tail_ok [OF le(2)]
  then have tl: "pathStart ?t \<le> pathEnd ?t" "pathEnd ?t = queryStart ?t" "queryStart ?t \<le> queryEnd ?t"
    "queryEnd ?t \<le> fragmentEnd ?t" by (auto simp: tail_ok_def)
  have "length (m_string (assemble s orig e a)) = e + 1 + authority_length ?au
      + length (assemble_path s (at s (e + 1) = ch CHR ''/'') ?slash ?t)
      + length (appendEscapingBadChars (between (queryStart ?t) (queryEnd ?t) s))
      + length (assemble_fragment s ?t)"
    using assms(3) by (simp add: assemble_def Let_def m_string_write_url authority_length_def)
  also have "\<dots> \<le> e + 1 + authority_length ?au + (if ?slash then 1 else 0)
      + 3 * (fragmentEnd ?t - portEnd a)"
    using length_path [of s "at s (e + 1) = ch CHR ''/''" ?slash ?t] length_query [of ?t s]
      length_fragment [OF t] tl by simp
  finally have L: "length (m_string (assemble s orig e a)) \<le> \<dots>" .
  from ok consider "authority_gaps e a" 
    | i where "a = empty_authority i" "e \<le> Suc i" "e = Suc i \<longrightarrow> 2 \<le> e" "\<not> ?slash" by blast
  then show ?thesis
  proof cases
    case 1
    then have "e < userStart a" by (simp add: authority_gaps_def)
    moreover have "authority_length ?au + userStart a \<le> 2 + portEnd a"
      using ok 1 by (intro length_authority_gaps) auto
    ultimately show ?thesis using L le tl by (simp split: if_splits)
  next
    case 2
    then have "authority_length ?au = 0" "portEnd a = i"
      by (simp_all add: length_authority_empty) (simp add: empty_authority_def)
    then show ?thesis using L 2 le tl by (cases "e = Suc i") simp_all
  qed
qed

section \<open>Properties\<close>

text \<open>
  C1: Every URL that parses as valid is well formed: its scheme is not empty and is followed
  by a colon, the recorded ends of user, password, host, port, path, query and fragment are
  in this order, and the fragment ends where the string ends.
\<close>

theorem parse_url_wf: "m_isValid (parse s) \<Longrightarrow> url_wf (parse s)"
  unfolding parse_def by (rule parse_chars_wf)

theorem parse_url_wf_witness: "url_wf (parse (lit ''http://u:p@h:8/a?b#c''))"
  by (rule parse_url_wf) code_simp

text \<open>
  C12: The string of a valid URL consists of printable ASCII characters only, whatever
  16-bit text was parsed: control characters and bytes from 127 on are escaped or dropped.
\<close>

theorem parse_printable:
  assumes "m_isValid (parse s)"
  shows "list_all printable (m_string (parse s))"
proof -
  have "bytes (copyASCII s)" by (simp add: copyASCII_def list_all_iff)
  with assms show ?thesis unfolding parse_def by (intro parse_chars_printable)
qed

theorem parse_printable_witness: "list_all printable (m_string (parse (lit ''x:/a'' @ [1, 200])))"
  by (rule parse_printable) code_simp



text \<open>
  A hierarchical scheme with nothing behind it goes wrong: for \<open>ftp:\<close> the
  parser steps back into the scheme and repeats its last two characters in the path.
\<close>

theorem parse_empty_ftp: "m_string (parse (lit ''ftp:'')) = lit ''ftp:p:'' \<and> m_isValid (parse (lit ''ftp:''))"
  by code_simp

text \<open>
  Parsed URLs are not always fixed points: \<open>HTTP:/a.com/\<close> becomes \<open>http:/a.com/\<close> with an
  empty host, since the scheme is compared before it is lowercased, and parsing that string
  again finds the host.
\<close>

theorem parse_not_idempotent:
  "m_string (parse (lit ''HTTP:/a.com/'')) = lit ''http:/a.com/'' \<and>
   m_string (parse (lit ''http:/a.com/'')) = lit ''http://a.com/''"
  by code_simp

end
