(* ===== verification/Url_Canonical.thy ===== *)
theory Url_Canonical
  imports Url_Parse
begin

text \<open>
  Canonical absolute URLs: the text of a URL with a host, printed from its components, is
  a fixed point of \<open>URL::parse\<close>, and the parser finds exactly these components in it.
\<close>

section \<open>Canonical text is read back\<close>

text \<open>
  The components of an absolute URL with a host, and how they are written. A query or a
  fragment is given with its leading separator, or empty.
\<close>

record url_parts =
  p_scheme :: wtf_string
  p_user :: wtf_string
  p_password :: wtf_string
  p_host :: wtf_string
  p_port :: wtf_string
  p_path :: wtf_string
  p_query :: wtf_string
  p_fragment :: wtf_string

definition print_userinfo :: "url_parts \<Rightarrow> wtf_string" where
  "print_userinfo p = (if p_user p = [] \<and> p_password p = [] then []
     else p_user p @ (if p_password p = [] then [] else 58 # p_password p) @ [64])"

definition print_port :: "url_parts \<Rightarrow> wtf_string" where
  "print_port p = (if p_port p = [] then [] else 58 # p_port p)"

definition print_url :: "url_parts \<Rightarrow> wtf_string" where
  "print_url p = p_scheme p @ [58, 47, 47] @ print_userinfo p @ p_host p @ print_port p
     @ p_path p @ p_query p @ p_fragment p"

definition stays :: "code_unit \<Rightarrow> bool" where
  "stays c \<longleftrightarrow> printable c \<and> (\<not> isBadChar c \<or> c = 37)"

definition canonical_parts :: "url_parts \<Rightarrow> bool" where
  "canonical_parts p \<longleftrightarrow>
     p_scheme p \<noteq> [] \<and> isSchemeFirstChar (hd (p_scheme p)) \<and> p_scheme p \<noteq> lit ''file''
   \<and> list_all (\<lambda>c. isSchemeChar c \<and> \<not> isASCIIUpper c) (p_scheme p)
   \<and> list_all (\<lambda>c. isUserInfoChar c \<and> c \<noteq> 58) (p_user p) \<and> list_all isUserInfoChar (p_password p)
   \<and> p_host p \<noteq> [] \<and> list_all (\<lambda>c. isHostnameChar c \<and> \<not> isASCIIUpper c) (p_host p)
   \<and> list_all isASCIIDigit (p_port p)
   \<and> \<not> isDefaultPortForScheme (p_port p) (length (p_port p)) (p_scheme p) (length (p_scheme p))
   \<and> (p_path p = [] \<and> p_scheme p \<noteq> lit ''http'' \<and> p_scheme p \<noteq> lit ''https''
      \<or> (\<exists>rest. p_path p = 47 # rest \<and> \<not> slash_dot_loop 47 rest))
   \<and> list_all stays (p_path p)
   \<and> (p_query p = [] \<or> (\<exists>q. p_query p = 63 # q \<and> list_all (\<lambda>c. stays c \<or> c = 63) q))
   \<and> (p_fragment p = [] \<or> (\<exists>f. p_fragment p = 35 # f \<and> list_all printable f))"

text \<open>
  The same, but an empty path is allowed for every scheme: the parser supplies the slash of
  a URL of the HTTP family.
\<close>

definition readable_parts :: "url_parts \<Rightarrow> bool" where
  "readable_parts p \<longleftrightarrow>
     p_scheme p \<noteq> [] \<and> isSchemeFirstChar (hd (p_scheme p)) \<and> p_scheme p \<noteq> lit ''file''
   \<and> list_all (\<lambda>c. isSchemeChar c \<and> \<not> isASCIIUpper c) (p_scheme p)
   \<and> list_all (\<lambda>c. isUserInfoChar c \<and> c \<noteq> 58) (p_user p) \<and> list_all isUserInfoChar (p_password p)
   \<and> p_host p \<noteq> [] \<and> list_all (\<lambda>c. isHostnameChar c \<and> \<not> isASCIIUpper c) (p_host p)
   \<and> list_all isASCIIDigit (p_port p)
   \<and> \<not> isDefaultPortForScheme (p_port p) (length (p_port p)) (p_scheme p) (length (p_scheme p))
   \<and> (p_path p = [] \<or> (\<exists>rest. p_path p = 47 # rest \<and> \<not> slash_dot_loop 47 rest))
   \<and> list_all stays (p_path p)
   \<and> (p_query p = [] \<or> (\<exists>q. p_query p = 63 # q \<and> list_all (\<lambda>c. stays c \<or> c = 63) q))
   \<and> (p_fragment p = [] \<or> (\<exists>f. p_fragment p = 35 # f \<and> list_all printable f))"

lemma canonical_readable: "canonical_parts p \<Longrightarrow> readable_parts p"
  unfolding canonical_parts_def readable_parts_def by blast

definition read_path :: "url_parts \<Rightarrow> wtf_string" where
  "read_path p = (if p_path p = [] \<and> p_scheme p \<in> {lit ''http'', lit ''https''} then [47] else p_path p)"

lemma read_path_canonical: "canonical_parts p \<Longrightarrow> read_path p = p_path p"
  unfolding canonical_parts_def read_path_def by auto

lemma at_append_add [simp]: "at (pre @ s) (length pre + k) = at s k"
  by (simp add: at_def)

lemma at_append_0 [simp]: "at (pre @ s) (length pre) = at s 0"
  using at_append_add [of pre s 0] by simp

lemma scan_while_run:
  assumes "list_all p xs" "\<not> p 0" "\<not> p (at ys 0)"
  shows "scan_while p (pre @ xs @ ys) (length pre) = length pre + length xs"
proof -
  have "takeWhile p (xs @ ys) = xs"
    using assms by (cases ys) (auto simp: list_all_iff at_def takeWhile_eq_all_conv)
  then show ?thesis by (simp add: scan_while_takeWhile)
qed

lemma scan_host_run:
  assumes "host \<noteq> []" "list_all isHostnameChar host" "\<not> isHostnameChar (at rest 0)"
  shows "scan_host (pre @ host @ rest) (length pre) = Some (length pre + length host)"
proof -
  have "\<not> isHostnameChar 0" "\<not> isHostnameChar 91" by (simp_all add: char_class alpha_def digit_def)
  moreover from this assms(1,2) have "at (host @ rest) 0 \<noteq> 91" by (cases host) auto
  ultimately show ?thesis using scan_while_run [OF assms(2) _ assms(3)] by (simp add: scan_host_def)
qed

lemma scan_userinfo_none:
  assumes "list_all isUserInfoChar xs" "isPathSegmentEndChar (at rest 0)"
  shows "scan_userinfo (pre @ xs @ rest) (length pre) = Some (length pre, length pre, length pre, length pre)"
proof -
  have "\<not> isUserInfoChar 0" "\<not> isUserInfoChar (at rest 0)" "at rest 0 \<noteq> 64"
    using assms(2) by (auto simp: char_class alpha_def digit_def)
  then show ?thesis using scan_while_run [OF assms(1)] assms(2)
    by (simp add: scan_userinfo_def Let_def add.assoc [symmetric] flip: append_assoc length_append)
qed

lemma no_userinfo_stop [simp]: "\<not> isUserInfoChar 0" "\<not> isUserInfoChar 64" "isUserInfoChar 58"
  by (simp_all add: char_class alpha_def digit_def)

lemma scan_userinfo_user:
  assumes "list_all (\<lambda>c. isUserInfoChar c \<and> c \<noteq> 58) u"
  shows "scan_userinfo (pre @ u @ 64 # rest) (length pre) =
    Some (length pre + length u, length pre + length u, length pre + length u, length pre + length u + 1)"
proof -
  have "list_all isUserInfoChar u" using assms by (simp add: list_all_iff)
  then have "scan_while isUserInfoChar (pre @ u @ 64 # rest) (length pre) = length pre + length u"
    by (rule scan_while_run) simp_all
  moreover have "scan_while (\<lambda>c. isUserInfoChar c \<and> c \<noteq> 58) (pre @ u @ 64 # rest) (length pre)
      = length pre + length u"
    using assms by (rule scan_while_run) simp_all
  moreover have "at (pre @ u @ 64 # rest) (length pre + length u) = 64" by simp
  ultimately show ?thesis by (simp add: scan_userinfo_def Let_def)
qed

lemma scan_userinfo_password:
  assumes "list_all (\<lambda>c. isUserInfoChar c \<and> c \<noteq> 58) u" "list_all isUserInfoChar w" "pre \<noteq> []"
  shows "scan_userinfo (pre @ u @ 58 # w @ 64 # rest) (length pre) =
    Some (length pre + length u, length pre + length u + 1, length pre + length u + 1 + length w,
      length pre + length u + 1 + length w + 1)"
proof -
  let ?s = "pre @ u @ 58 # w @ 64 # rest"
  have "list_all isUserInfoChar (u @ 58 # w)" using assms by (auto simp: list_all_iff)
  then have "scan_while isUserInfoChar (pre @ (u @ 58 # w) @ 64 # rest) (length pre)
      = length pre + length (u @ 58 # w)"
    by (rule scan_while_run) simp_all
  then have "scan_while isUserInfoChar ?s (length pre) = length pre + length u + 1 + length w" by simp
  moreover have "scan_while (\<lambda>c. isUserInfoChar c \<and> c \<noteq> 58) ?s (length pre) = length pre + length u"
    using assms(1) by (rule scan_while_run) simp_all
  moreover have "at ?s (length pre + length u + 1 + length w) = 64"
    using at_append_0 [of "pre @ u @ 58 # w" "64 # rest"] by (simp add: add.assoc)
  ultimately show ?thesis using assms(3) by (simp add: scan_userinfo_def Let_def)
qed

lemma scan_port_run:
  assumes "list_all isASCIIDigit port" "isPathSegmentEndChar (at rest 0)"
  shows "scan_port (pre @ (if port = [] then [] else 58 # port) @ rest) (length pre) =
    (if port = [] then (length pre, length pre) else (length pre + 1, length pre + 1 + length port))"
proof -
  have "\<not> isASCIIDigit 0" "\<not> isASCIIDigit (at rest 0)" "at rest 0 \<noteq> 58"
    using assms(2) by (auto simp: char_class isASCIIDigit_def)
  then show ?thesis using scan_while_run [OF assms(1), of rest "pre @ [58]"]
    by (simp add: scan_port_def)
qed

lemma scan_tail_run:
  assumes "list_all (\<lambda>c. c \<noteq> 0 \<and> c \<noteq> 63 \<and> c \<noteq> 35) path"
    and "q = [] \<or> (\<exists>x. q = 63 # x \<and> list_all (\<lambda>c. c \<noteq> 0 \<and> c \<noteq> 35) x)"
    and "f = [] \<or> (\<exists>x. f = 35 # x \<and> list_all (\<lambda>c. c \<noteq> 0) x)"
  shows "scan_tail (pre @ path @ q @ f) (length pre) =
    \<lparr>pathStart = length pre, pathEnd = length pre + length path, queryStart = length pre + length path,
     queryEnd = length pre + length path + length q,
     fragmentStart = length pre + length path + length q + (if f = [] then 0 else 1),
     fragmentEnd = length pre + length path + length q + length f\<rparr>"
proof -
  let ?s = "pre @ path @ q @ f"
  have "at (q @ f) 0 = 0 \<or> at (q @ f) 0 = 63 \<or> at (q @ f) 0 = 35" using assms(2,3) by auto
  then have p: "scan_while (\<lambda>c. c \<noteq> 0 \<and> c \<noteq> 63 \<and> c \<noteq> 35) ?s (length pre) = length pre + length path"
    using assms(1) by (intro scan_while_run) auto
  have at1: "at ?s (length pre + length path) = at (q @ f) 0"
    using at_append_0 [of "pre @ path" "q @ f"] by simp
  have at2: "at ?s (length pre + length path + length q) = at f 0"
    by (simp add: add.assoc)
  have f0: "at f 0 = 0 \<or> at f 0 = 35" "at f 0 = 35 \<longleftrightarrow> f \<noteq> []" using assms(3) by auto
  have q: "scan_while (\<lambda>c. c \<noteq> 0 \<and> c \<noteq> 35) ?s (length pre + length path)
      = length pre + length path + length q" if "q \<noteq> []"
    using scan_while_run [of "\<lambda>c. c \<noteq> 0 \<and> c \<noteq> 35" q f "pre @ path"] that assms(2) f0 by auto
  have f: "scan_while (\<lambda>c. c \<noteq> 0) ?s (length pre + length path + length q + 1)
      = length pre + length path + length q + length f" if "f \<noteq> []"
    using scan_while_run [of "\<lambda>c. c \<noteq> 0" "tl f" "[]" "pre @ path @ q @ [35]"] that assms(3)
    by (auto simp: add.assoc)
  have "at (q @ f) 0 = 63 \<longleftrightarrow> q \<noteq> []" using assms(2,3) by auto
  then show ?thesis using p q f at1 at2 f0
    by (cases "q = []"; cases "f = []") (simp_all add: scan_tail_def Let_def)
qed

definition parts_authority :: "url_parts \<Rightarrow> authority" where
  "parts_authority p =
     (let u = length (p_scheme p) + 3; w = u + length (p_user p);
          h = u + length (print_userinfo p); he = h + length (p_host p) in
      \<lparr>userStart = u, userEnd = w, passwordStart = (if p_password p = [] then w else w + 1),
       passwordEnd = (if p_password p = [] then w else w + 1 + length (p_password p)),
       hostStart = h, hostEnd = he, portStart = (if p_port p = [] then he else he + 1),
       portEnd = he + length (print_port p)\<rparr>)"

lemma hostname_userinfo: "isHostnameChar c \<Longrightarrow> isUserInfoChar c"
  by (auto simp: char_class)

lemma digit_userinfo: "isASCIIDigit c \<Longrightarrow> isUserInfoChar c"
  by (auto simp: char_class isASCIIDigit_def digit_def)

lemma slash_not_userinfo [simp]: "\<not> isUserInfoChar 47"
  by (simp add: char_class alpha_def digit_def)

lemma scan_userinfo_print:
  assumes p: "readable_parts p" and "isPathSegmentEndChar (at rest 0)"
    and L: "length pre = length (p_scheme p) + 3"
  shows "scan_userinfo (pre @ print_userinfo p @ p_host p @ print_port p @ rest) (length pre) =
    Some (userEnd (parts_authority p), passwordStart (parts_authority p),
      passwordEnd (parts_authority p), hostStart (parts_authority p))"
proof -
  have u: "list_all (\<lambda>c. isUserInfoChar c \<and> c \<noteq> 58) (p_user p)" "list_all isUserInfoChar (p_password p)"
    and hp: "list_all isUserInfoChar (p_host p @ print_port p)"
    using p by (auto simp: readable_parts_def list_all_iff print_port_def hostname_userinfo digit_userinfo)
  have pre: "pre \<noteq> []" using L by auto
  consider "p_user p = []" "p_password p = []" | "p_user p \<noteq> []" "p_password p = []" | "p_password p \<noteq> []"
    by blast
  then show ?thesis
  proof cases
    case 1
    then show ?thesis using scan_userinfo_none [OF hp assms(2), of pre] L
      by (simp add: print_userinfo_def parts_authority_def Let_def)
  next
    case 2
    then show ?thesis using scan_userinfo_user [OF u(1), of pre "p_host p @ print_port p @ rest"] L
      by (simp add: print_userinfo_def parts_authority_def Let_def)
  next
    case 3
    then show ?thesis using scan_userinfo_password [OF u pre, of "p_host p @ print_port p @ rest"] L
      by (simp add: print_userinfo_def parts_authority_def Let_def)
  qed
qed

lemma scan_authority_print:
  assumes p: "readable_parts p"
  shows "scan_authority (print_url p) (length (p_scheme p)) = Some (parts_authority p)"
proof -
  let ?e = "length (p_scheme p)"
  define rest where "rest = p_path p @ p_query p @ p_fragment p"
  define pre where "pre = p_scheme p @ [58, 47, 47]"
  let ?s = "pre @ print_userinfo p @ p_host p @ print_port p @ rest"
  have s: "print_url p = ?s" by (simp add: print_url_def pre_def rest_def)
  have L: "length pre = ?e + 3" by (simp add: pre_def)
  have end0: "isPathSegmentEndChar (at rest 0)"
    using p unfolding readable_parts_def rest_def by (elim conjE disjE exE) (simp_all add: char_class)
  then have end1: "\<not> isHostnameChar (at rest 0)" "\<not> isHostnameChar 58"
    by (auto simp: char_class alpha_def digit_def)
  have host: "p_host p \<noteq> []" "list_all isHostnameChar (p_host p)" "list_all isASCIIDigit (p_port p)"
    using p by (auto simp: readable_parts_def list_all_iff)
  have slashes: "at ?s (?e + 1) = 47" "at ?s (?e + 2) = 47"
    using at_append_add [of "p_scheme p" _ 1] at_append_add [of "p_scheme p" _ 2] 
    by (simp_all add: pre_def numeral_2_eq_2)
  have "at ?s (length pre) \<noteq> 47"
  proof -
    have no: "\<forall>c. isUserInfoChar c \<longrightarrow> c \<noteq> 47" by auto
    have "list_all isUserInfoChar (p_user p)" "list_all isUserInfoChar (p_password p)"
      "list_all isUserInfoChar (p_host p)" 
      using p by (simp_all add: readable_parts_def list_all_iff hostname_userinfo)
    then have "list_all (\<lambda>c. c \<noteq> 47) (print_userinfo p @ p_host p)"
      using no by (simp add: print_userinfo_def list_all_iff) blast
    moreover have "print_userinfo p @ p_host p \<noteq> []" using host by simp
    ultimately have "at ((print_userinfo p @ p_host p) @ print_port p @ rest) 0 \<noteq> 47"
      by (cases "print_userinfo p @ p_host p") (simp, simp only: append_Cons at_Cons(1) list.pred_inject, simp)
    then show ?thesis by simp
  qed
  then have "scan_while (\<lambda>c. c = 47) ?s (length pre) = length pre"
    using scan_while_run [of "\<lambda>c. c = 47" "[]" "print_userinfo p @ p_host p @ print_port p @ rest" pre]
    by simp
  moreover have "length pre = Suc (Suc (Suc ?e))" using L by simp
  ultimately have start: "authority_start ?s ?e = length pre"
    using slashes by (simp add: authority_start_def Let_def)
  have h: "scan_host ?s (hostStart (parts_authority p)) = Some (hostEnd (parts_authority p))"
    using scan_host_run [OF host(1,2), of "print_port p @ rest" "pre @ print_userinfo p"] end1 L
    by (simp add: parts_authority_def Let_def print_port_def)
  have pt: "scan_port ?s (hostEnd (parts_authority p)) =
      (portStart (parts_authority p), portEnd (parts_authority p))"
    using scan_port_run [OF host(3) end0, of "pre @ print_userinfo p @ p_host p"] L
    by (simp add: parts_authority_def Let_def print_port_def add.assoc)
  have "at ?s (portEnd (parts_authority p)) = at rest 0"
    using at_append_0 [of "pre @ print_userinfo p @ p_host p @ print_port p" rest] L
    by (simp add: parts_authority_def Let_def add.assoc)
  moreover have "hostStart (parts_authority p) \<noteq> portEnd (parts_authority p)"
    "length pre \<noteq> portEnd (parts_authority p)" "userStart (parts_authority p) = length pre"
    using host(1) L by (simp_all add: parts_authority_def Let_def)
  ultimately show ?thesis
    using end0 slashes unfolding s scan_authority_def Let_def start
      scan_userinfo_print [OF p end0 L]
    by (simp add: h pt hostPortIsEmptyButCredentialsArePresent_def)
qed

lemma keep_bad: "list_all (\<lambda>c. stays c \<or> c = 63) s \<Longrightarrow> appendEscapingBadChars s = s"
  by (induction s) (auto simp: stays_def)

lemma keep_part: "list_all printable s \<Longrightarrow> escapeAndAppendNonHierarchicalPart s = s"
  by (induction s) (auto simp: printable_def)

lemma stays_query: "list_all stays s \<Longrightarrow> list_all (\<lambda>c. stays c \<or> c = 63) s"
  by (auto simp: list_all_iff)

lemma stays_separators [simp]: "\<not> stays 35" "\<not> stays 63" "\<not> stays 0"
  by (auto simp: stays_def char_class printable_def)

lemma copy_plain_path:
  assumes "between i j s = 47 # rest" "\<not> slash_dot_loop 47 rest"
  shows "copyPathRemovingDots s i j = 47 # rest"
  using assms slash_dot_loop_no_dots [of 47 rest "[47]"] by (simp add: copyPathRemovingDots_def)

lemma between_prefix: "between (length pre) (length pre + length xs) (pre @ xs @ ys) = xs"
  by (simp add: between_def)

lemma letters_match_Cons [simp]: "letters_match (c # s) (Suc i) ls = letters_match s i ls"
  by (induction ls arbitrary: i) simp_all

lemma letter_58: "97 \<le> l \<Longrightarrow> l \<le> 122 \<Longrightarrow> \<not> isLetterMatchIgnoringCase 58 l"
  by (simp add: isLetterMatchIgnoringCase_iff toASCIILower_alt isASCIIUpper_def)

lemma colon_not_scheme [simp]: "\<not> isSchemeChar 58"
  by (simp add: char_class alpha_def digit_def)

lemma url_isFile_scheme:
  "url_isFile (scheme @ 58 # rest) (length scheme) \<longleftrightarrow> map toASCIILower scheme = lit ''file''"
proof (cases "length scheme = 4")
  case True
  then have "length scheme = Suc (Suc (Suc (Suc 0)))" by simp
  then obtain a b c d where "scheme = [a, b, c, d]" by (auto simp: length_Suc_conv)
  then show ?thesis by (simp add: url_isFile_def isLetterMatchIgnoringCase_iff lit_def)
next
  case False
  then have "map toASCIILower scheme \<noteq> lit ''file''" by (auto simp: lit_def dest: arg_cong [where f = length])
  with False show ?thesis by (simp add: url_isFile_def)
qed

lemma scheme_cases: 
  obtains "length scheme < 4" | a b c d where "scheme = [a, b, c, d]" | a b c d e where "scheme = [a, b, c, d, e]"
  | a b c d e f xs where "scheme = a # b # c # d # e # f # xs"
proof (cases "length scheme < 4")
  case False
  then have "Suc (Suc (Suc (Suc 0))) \<le> length scheme" by simp
  then obtain a b c d xs where "scheme = a # b # c # d # xs" by (auto simp: Suc_le_length_iff)
  then show thesis using that by (cases xs; cases "tl xs") auto
qed (use that in blast)

lemma url_isInHTTPFamily_scheme:
  assumes "list_all isSchemeChar scheme"
  shows "url_isInHTTPFamily (scheme @ 58 # rest) \<longleftrightarrow>
    map toASCIILower scheme = lit ''http'' \<or> map toASCIILower scheme = lit ''https''"
proof (cases scheme rule: scheme_cases)
  case 1
  then have "map toASCIILower scheme \<noteq> lit ''http''" "map toASCIILower scheme \<noteq> lit ''https''"
    by (auto simp: lit_def dest: arg_cong [where f = length])
  moreover have "\<not> letters_match (scheme @ 58 # rest) 0 ''http''"
    using 1 by (cases scheme; cases "tl scheme"; cases "tl (tl scheme)"; cases "tl (tl (tl scheme))")
      (auto simp: letter_58)
  ultimately show ?thesis unfolding url_isInHTTPFamily_def by blast
next
  case (2 a b c d)
  then show ?thesis
    by (simp add: url_isInHTTPFamily_def isLetterMatchIgnoringCase_iff lit_def eval_nat_numeral(2,3))
next
  case (3 a b c d e)
  with assms have "e \<noteq> 58" by auto
  with 3 show ?thesis
    by (auto simp add: url_isInHTTPFamily_def isLetterMatchIgnoringCase_iff lit_def eval_nat_numeral(2,3))
next
  case (4 a b c d e f xs)
  with assms have "e \<noteq> 58" "f \<noteq> 58" by auto
  with 4 show ?thesis
    by (auto simp add: url_isInHTTPFamily_def isLetterMatchIgnoringCase_iff lit_def eval_nat_numeral(2,3))
qed

lemma isDefaultPortForScheme_append:
  "isDefaultPortForScheme (port @ rest) (length port) scheme n =
   isDefaultPortForScheme port (length port) scheme n"
proof -
  have "equal_length_chars (port @ rest) (length port) b = equal_length_chars port (length port) b" for b
    by (auto simp: equal_length_chars_def equal_chars_def)
  then show ?thesis by (simp add: isDefaultPortForScheme_def)
qed

definition parts_text :: "url_parts \<Rightarrow> authority_text" where
  "parts_text p = \<lparr>at_prefix = lit ''//'', at_user = p_user p,
     at_password = (if p_password p = [] then [] else 58 # p_password p),
     at_sign = (if p_user p = [] \<and> p_password p = [] then [] else [64]),
     at_host = p_host p, at_port = print_port p\<rparr>"

lemma between_at_length:
  "i = length pre \<Longrightarrow> j = i + length xs \<Longrightarrow> s = pre @ xs @ ys \<Longrightarrow> between i j s = xs"
  by (simp add: between_def)

lemma drop_prefix: "drop (length pre) (pre @ ys) = ys"
  by simp

lemma stays_not: "stays c \<Longrightarrow> c \<noteq> 0 \<and> c \<noteq> 63 \<and> c \<noteq> 35"
  by (metis stays_separators)

lemma stays_query_not: "list_all (\<lambda>c. stays c \<or> c = 63) x \<Longrightarrow> list_all (\<lambda>c. c \<noteq> 0 \<and> c \<noteq> 35) x"
  by (erule list_all_mono) (auto dest: stays_not)

lemma between_parts:
  fixes p :: url_parts
  defines "a \<equiv> parts_authority p" and "s \<equiv> print_url p"
  shows "between 0 (length (p_scheme p)) s = p_scheme p"
    and "between (userStart a) (userEnd a) s = p_user p"
    and "between (passwordStart a) (passwordEnd a) s = p_password p"
    and "between (hostStart a) (hostEnd a) s = p_host p"
    and "drop (portStart a) s = p_port p @ p_path p @ p_query p @ p_fragment p"
    and "between (portStart a) (portEnd a) s = p_port p"
proof -
  note defs = a_def s_def parts_authority_def Let_def print_url_def
  show "between 0 (length (p_scheme p)) s = p_scheme p"
    by (rule between_at_length [of _ "[]"]) (simp_all add: defs)
  show "between (userStart a) (userEnd a) s = p_user p"
    by (rule between_at_length [of _ "p_scheme p @ [58, 47, 47]" _ _ _ "drop (length (p_user p)) (print_userinfo p) @ p_host p @ print_port p @ p_path p @ p_query p @ p_fragment p"])
      (simp_all add: defs print_userinfo_def)
  show "between (passwordStart a) (passwordEnd a) s = p_password p"
    by (cases "p_password p = []", simp add: defs,
        rule between_at_length [of _ "p_scheme p @ [58, 47, 47] @ p_user p @ [58]" _ _ _
          "64 # p_host p @ print_port p @ p_path p @ p_query p @ p_fragment p"])
      (simp_all add: defs print_userinfo_def)
  show "between (hostStart a) (hostEnd a) s = p_host p"
    by (rule between_at_length [of _ "p_scheme p @ [58, 47, 47] @ print_userinfo p" _ _ _
          "print_port p @ p_path p @ p_query p @ p_fragment p"]) (simp_all add: defs)
  let ?pre = "p_scheme p @ [58, 47, 47] @ print_userinfo p @ p_host p @ (if p_port p = [] then [] else [58])"
  have len: "portStart a = length ?pre" and s: "s = ?pre @ p_port p @ p_path p @ p_query p @ p_fragment p"
    by (simp_all add: defs print_port_def)
  show "drop (portStart a) s = p_port p @ p_path p @ p_query p @ p_fragment p"
    unfolding len s by (rule drop_prefix)
  show "between (portStart a) (portEnd a) s = p_port p"
    by (rule between_at_length [OF len _ s]) (simp add: defs print_port_def)
qed

lemma assemble_authority_print:
  assumes p: "readable_parts p" 
  shows "assemble_authority (print_url p) False (p_scheme p) (parts_authority p) t = parts_text p"
proof -
  let ?a = "parts_authority p"
  note b = between_parts [of p]
  have host: "p_host p \<noteq> []" "map toASCIILower (p_host p) = p_host p"
    and port: "\<not> isDefaultPortForScheme (p_port p) (length (p_port p)) (p_scheme p) (length (p_scheme p))"
    using p by (auto simp: readable_parts_def list_all_iff map_idI)
  have ui: "assemble_userinfo (print_url p) ?a = (p_user p, if p_password p = [] then [] else 58 # p_password p)"
    using b by (simp add: assemble_userinfo_def) (simp add: parts_authority_def Let_def)
  have h: "assemble_host (print_url p) False (p_scheme p) ?a = p_host p"
    using b host by (simp add: assemble_host_def)
  have l: "portEnd ?a - portStart ?a = length (p_port p)" "hostEnd ?a \<noteq> portStart ?a \<longleftrightarrow> p_port p \<noteq> []"
    by (auto simp: parts_authority_def Let_def print_port_def)
  have pt: "assemble_port (print_url p) (p_scheme p) ?a = print_port p"
    using port unfolding assemble_port_def Let_def l b isDefaultPortForScheme_append
    by (simp add: print_port_def)
  have "hostStart ?a \<noteq> hostEnd ?a" using host by (simp add: parts_authority_def Let_def)
  then show ?thesis
    by (simp add: assemble_authority_def ui h pt parts_text_def)
qed

lemma canonical_tail:
  assumes "canonical_parts p"
  shows "list_all stays (p_path p)"
    and "p_path p = [] \<and> p_scheme p \<notin> {lit ''http'', lit ''https''}
      \<or> (\<exists>r. p_path p = 47 # r \<and> \<not> slash_dot_loop 47 r)"
    and "p_query p = [] \<or> (\<exists>q. p_query p = 63 # q \<and> list_all (\<lambda>c. stays c \<or> c = 63) q)"
    and "p_fragment p = [] \<or> (\<exists>f. p_fragment p = 35 # f \<and> list_all printable f)"
  using assms unfolding canonical_parts_def by blast+

lemma readable_tail:
  assumes "readable_parts p"
  shows "list_all stays (p_path p)"
    and "p_path p = [] \<or> (\<exists>r. p_path p = 47 # r \<and> \<not> slash_dot_loop 47 r)"
    and "p_query p = [] \<or> (\<exists>q. p_query p = 63 # q \<and> list_all (\<lambda>c. stays c \<or> c = 63) q)"
    and "p_fragment p = [] \<or> (\<exists>f. p_fragment p = 35 # f \<and> list_all printable f)"
  using assms unfolding readable_parts_def by blast+

lemma scan_tail_print:
  assumes "readable_parts p"
  defines "t \<equiv> scan_tail (print_url p) (portEnd (parts_authority p))"
    and "n \<equiv> portEnd (parts_authority p)"
  shows "pathStart t = n" "pathEnd t = n + length (p_path p)" "queryStart t = n + length (p_path p)"
     "queryEnd t = n + length (p_path p) + length (p_query p)"
     "fragmentStart t = n + length (p_path p) + length (p_query p) + (if p_fragment p = [] then 0 else 1)"
     "fragmentEnd t = n + length (p_path p) + length (p_query p) + length (p_fragment p)"
proof -
  let ?pre = "p_scheme p @ [58, 47, 47] @ print_userinfo p @ p_host p @ print_port p"
  note c = readable_tail [OF assms(1)]
  have n: "n = length ?pre" and s: "print_url p = ?pre @ p_path p @ p_query p @ p_fragment p"
    by (simp_all add: n_def parts_authority_def Let_def print_url_def)
  have "list_all (\<lambda>c. c \<noteq> 0 \<and> c \<noteq> 63 \<and> c \<noteq> 35) (p_path p)"
    using c(1) by (rule list_all_mono) (rule stays_not)
  moreover have "p_query p = [] \<or> (\<exists>x. p_query p = 63 # x \<and> list_all (\<lambda>c. c \<noteq> 0 \<and> c \<noteq> 35) x)"
    using c(3) stays_query_not by blast
  moreover have "p_fragment p = [] \<or> (\<exists>x. p_fragment p = 35 # x \<and> list_all (\<lambda>c. c \<noteq> 0) x)"
    using c(4) by (auto elim!: list_all_mono simp: printable_def)
  ultimately show "pathStart t = n" "pathEnd t = n + length (p_path p)" "queryStart t = n + length (p_path p)"
     "queryEnd t = n + length (p_path p) + length (p_query p)"
     "fragmentStart t = n + length (p_path p) + length (p_query p) + (if p_fragment p = [] then 0 else 1)"
     "fragmentEnd t = n + length (p_path p) + length (p_query p) + length (p_fragment p)"
    unfolding t_def n_def [symmetric] s n by (simp_all only: scan_tail_run) simp_all
qed

lemma assemble_tail_print:
  assumes "readable_parts p"
  defines "t \<equiv> scan_tail (print_url p) (portEnd (parts_authority p))"
  shows "assemble_path (print_url p) True (p_scheme p \<in> {lit ''http'', lit ''https''}) t = read_path p"
    and "appendEscapingBadChars (between (queryStart t) (queryEnd t) (print_url p)) = p_query p"
    and "assemble_fragment (print_url p) t = p_fragment p"
proof -
  let ?pre = "p_scheme p @ [58, 47, 47] @ print_userinfo p @ p_host p @ print_port p"
  note c = readable_tail [OF assms(1)] and t = scan_tail_print [OF assms(1), folded t_def]
  have n: "portEnd (parts_authority p) = length ?pre" by (simp add: parts_authority_def Let_def)
  have bp: "between (pathStart t) (pathEnd t) (print_url p) = p_path p"
    by (rule between_at_length [of _ ?pre]) (simp_all add: t n print_url_def)
  show "assemble_path (print_url p) True (p_scheme p \<in> {lit ''http'', lit ''https''}) t = read_path p"
    using c(2) keep_bad [OF stays_query [OF c(1)]] copy_plain_path [of "pathStart t" "pathEnd t" "print_url p"]
    unfolding assemble_path_def bp read_path_def by (auto simp add: t)
  have bq: "between (queryStart t) (queryEnd t) (print_url p) = p_query p"
    by (rule between_at_length [of _ "?pre @ p_path p"]) (simp_all add: t n print_url_def)
  show "appendEscapingBadChars (between (queryStart t) (queryEnd t) (print_url p)) = p_query p"
    unfolding bq using c(3) by (intro keep_bad) auto
  have bf: "between (fragmentStart t) (fragmentEnd t) (print_url p) = tl (p_fragment p)"
    using c(4) by (intro between_at_length [of _ "?pre @ p_path p @ p_query p @ take 1 (p_fragment p)" _ _ _ "[]"])
      (auto simp add: t n print_url_def)
  show "assemble_fragment (print_url p) t = p_fragment p"
    using c(4) unfolding assemble_fragment_def bf by (auto simp: t keep_part)
qed

lemma parse_print_readable:
  assumes p: "readable_parts p"
  shows "parse_chars (print_url p) orig =
    write_url (p_scheme p \<in> {lit ''http'', lit ''https''}) orig (p_scheme p) (parts_text p)
      (read_path p) (p_query p) (p_fragment p)"
proof -
  let ?s = "print_url p" and ?e = "length (p_scheme p)"
  define rest where "rest = [47, 47] @ print_userinfo p @ p_host p @ print_port p @ p_path p @ p_query p @ p_fragment p"
  have s: "?s = p_scheme p @ 58 # rest" by (simp add: print_url_def rest_def)
  have sch: "p_scheme p \<noteq> []" "isSchemeFirstChar (hd (p_scheme p))" "list_all isSchemeChar (p_scheme p)"
    "map toASCIILower (p_scheme p) = p_scheme p" "p_scheme p \<noteq> lit ''file''"
    using p by (auto simp: readable_parts_def list_all_iff map_idI)
  have "\<not> isSchemeChar 0" by (simp add: char_class alpha_def digit_def)
  then have e: "scan_while isSchemeChar ?s 0 = ?e"
    using scan_while_run [of isSchemeChar "p_scheme p" "58 # rest" "[]"] sch(3) s by simp
  have hd0: "at ?s 0 = hd (p_scheme p)" using sch(1) by (cases "p_scheme p") (simp_all add: s)
  then have nz: "at ?s 0 \<noteq> 0" using sch(2) by (auto simp: char_class alpha_def)
  have at58: "at ?s ?e = 58" "at ?s (?e + 1) = 47"
    using at_append_add [of "p_scheme p" "58 # rest" 1] by (simp_all add: s rest_def)
  have fam: "url_isInHTTPFamily ?s \<longleftrightarrow> p_scheme p \<in> {lit ''http'', lit ''https''}" "\<not> url_isFile ?s ?e"
    using url_isInHTTPFamily_scheme [OF sch(3), of rest] url_isFile_scheme [of "p_scheme p" rest] sch(4,5)
    by (simp_all add: s)
  show ?thesis
    unfolding parse_chars_def Let_def e hd0
    using nz sch hd0 at58 assemble_tail_print [OF p]
    by (simp add: scan_authority_print [OF p] assemble_def Let_def fam between_parts
        assemble_authority_print [OF p])
qed

lemma parse_print_write:
  assumes p: "canonical_parts p"
  shows "parse_chars (print_url p) orig =
    write_url (p_scheme p \<in> {lit ''http'', lit ''https''}) orig (p_scheme p) (parts_text p)
      (p_path p) (p_query p) (p_fragment p)"
  using parse_print_readable [OF canonical_readable [OF p]] by (simp add: read_path_canonical [OF p])

end
