(* ===== verification/Url_Access.thy ===== *)
theory Url_Access
  imports Url_Canonical Wtf_Utf8
begin

text \<open>
  The accessors and setters of \<open>URL\<close>, percent decoding and encoding, the comparison of URLs
  and the predicates on schemes and ports. A setter builds the text of the changed URL and
  parses it again. The lemmas relate the optimised comparisons to the accessors, and read
  the components of a canonical URL back.
\<close>

section \<open>Percent escapes\<close>

text \<open>
  \<open>URLEscapeSequence\<close>: a run of escapes may hold up to two unescaped characters in the range
  0x40 to 0x7F after each escape.
\<close>

function findEndOfRun :: "wtf_string \<Rightarrow> nat \<Rightarrow> nat \<Rightarrow> nat \<Rightarrow> nat" where
  "findEndOfRun s runEnd endPosition trailing =
     (if runEnd < endPosition then
        if at s runEnd = ch CHR ''%'' then
          if endPosition - runEnd \<ge> 3 \<and> isASCIIHexDigit (at s (runEnd + 1)) \<and> isASCIIHexDigit (at s (runEnd + 2))
          then findEndOfRun s (runEnd + 3) endPosition 0
          else runEnd
        else if at s runEnd \<ge> 0x40 \<and> at s runEnd \<le> 0x7F \<and> trailing < 2
        then findEndOfRun s (runEnd + 1) endPosition (trailing + 1)
        else runEnd
      else runEnd)"
  by pat_completeness auto
termination
  by (relation "measure (\<lambda>(s, runEnd, endPosition, trailing). endPosition - runEnd)") auto

declare findEndOfRun.simps [simp del]

text \<open>The bytes of a run, before the text encoding decodes them.\<close>

function run_bytes :: "wtf_string \<Rightarrow> wtf_string" where
  "run_bytes run =
     (if run = [] then []
      else if at run 0 = ch CHR ''%'' then
        (push_bit 4 (toASCIIHexValue (at run 1)) OR toASCIIHexValue (at run 2)) mod 256 # run_bytes (drop 3 run)
      else at run 0 mod 256 # run_bytes (drop 1 run))"
  by pat_completeness auto
termination
  by (relation "measure length") auto

declare run_bytes.simps [simp del]

definition decodeRun :: "(wtf_string \<Rightarrow> wtf_string) \<Rightarrow> wtf_string \<Rightarrow> wtf_string" where
  "decodeRun decode run = decode (run_bytes run)"

text \<open>
  The loop of \<open>decodeEscapeSequences\<close> over \<open>decodedPosition\<close> and \<open>searchPosition\<close>; the
  result is appended to.
\<close>

lemma findEndOfRun_ge: "runEnd \<le> findEndOfRun s runEnd endPosition trailing"
proof (induction s runEnd endPosition trailing rule: findEndOfRun.induct)
  case (1 s runEnd endPosition trailing)
  then show ?case by (subst findEndOfRun.simps) auto
qed

lemma find_char_bounds: "find_char c s i = Some k \<Longrightarrow> i \<le> k \<and> k < length s"
  using find_char_Some [of c s i k] by blast

function decode_loop ::
    "(wtf_string \<Rightarrow> wtf_string) \<Rightarrow> wtf_string \<Rightarrow> nat \<Rightarrow> nat \<Rightarrow> wtf_string" where
  "decode_loop decode s decodedPosition searchPosition =
     (case find_char (ch CHR ''%'') s searchPosition of
        None \<Rightarrow> substring_from s decodedPosition
      | Some encodedRunPosition \<Rightarrow>
          if findEndOfRun s encodedRunPosition (length s) 0 = encodedRunPosition
          then decode_loop decode s decodedPosition (encodedRunPosition + 1)
          else if decodeRun decode (between encodedRunPosition (findEndOfRun s encodedRunPosition (length s) 0) s) = []
          then decode_loop decode s decodedPosition (findEndOfRun s encodedRunPosition (length s) 0)
          else between decodedPosition encodedRunPosition s
            @ decodeRun decode (between encodedRunPosition (findEndOfRun s encodedRunPosition (length s) 0) s)
            @ decode_loop decode s (findEndOfRun s encodedRunPosition (length s) 0)
                (findEndOfRun s encodedRunPosition (length s) 0))"
  by pat_completeness auto
termination
proof (relation "measure (\<lambda>(decode, s, decodedPosition, searchPosition). length s - searchPosition)", goal_cases)
  case (2 decode s dp sp p)
  then show ?case by (auto dest: find_char_bounds)
next
  case (3 decode s dp sp p)
  then have "sp \<le> p" "p < length s" "p < findEndOfRun s p (length s) 0"
    using findEndOfRun_ge [of p s "length s" 0] by (auto dest: find_char_bounds)
  then show ?case by auto
next
  case (4 decode s dp sp p)
  then have "sp \<le> p" "p < length s" "p < findEndOfRun s p (length s) 0"
    using findEndOfRun_ge [of p s "length s" 0] by (auto dest: find_char_bounds)
  then show ?case by auto
qed simp

declare decode_loop.simps [simp del]

definition decodeEscapeSequences :: "(wtf_string \<Rightarrow> wtf_string) \<Rightarrow> wtf_string \<Rightarrow> wtf_string" where
  "decodeEscapeSequences decode s = decode_loop decode s 0 0"

text \<open>\<open>decodeURLEscapeSequences(string)\<close>, given the decoder of \<open>UTF8Encoding()\<close>.\<close>

definition decodeURLEscapeSequences :: "(wtf_string \<Rightarrow> wtf_string) \<Rightarrow> wtf_string \<Rightarrow> wtf_string" where
  "decodeURLEscapeSequences utf8Decode s = decodeEscapeSequences utf8Decode s"

text \<open>\<open>encodeWithURLEscapeSequences\<close>: the bytes of the lenient UTF-8 form, the bad ones escaped.\<close>

fun escape_bad_bytes :: "wtf_string \<Rightarrow> wtf_string" where
  "escape_bad_bytes [] = []"
| "escape_bad_bytes (c # str) = (if isBadChar c then appendEscapedChar c else [c]) @ escape_bad_bytes str"

definition encodeWithURLEscapeSequences :: "bool \<Rightarrow> wtf_string \<Rightarrow> wtf_string" where
  "encodeWithURLEscapeSequences is8Bit s =
     escape_bad_bytes (case utf8 is8Bit s LenientConversion of None \<Rightarrow> [] | Some bs \<Rightarrow> bs)"

section \<open>Accessors\<close>

definition url_hostStart :: "url \<Rightarrow> nat" where
  "url_hostStart u = (if m_passwordEnd u = m_userStart u then m_passwordEnd u else m_passwordEnd u + 1)"

definition url_isEmpty :: "url \<Rightarrow> bool" where
  "url_isEmpty u \<longleftrightarrow> m_string u = []"

definition hasPath :: "url \<Rightarrow> bool" where
  "hasPath u \<longleftrightarrow> m_pathEnd u \<noteq> m_portEnd u"

definition hasPort :: "url \<Rightarrow> bool" where
  "hasPort u \<longleftrightarrow> m_hostEnd u < m_portEnd u"

definition protocol :: "url \<Rightarrow> wtf_string" where
  "protocol u = left (m_string u) (m_schemeEnd u)"

definition host :: "url \<Rightarrow> wtf_string" where
  "host u = substring (m_string u) (url_hostStart u) (m_hostEnd u - url_hostStart u)"

definition maximumValidPortNumber :: nat where "maximumValidPortNumber = 0xFFFE"
definition invalidPortNumber :: nat where "invalidPortNumber = 0xFFFF"

definition port :: "icu \<Rightarrow> url \<Rightarrow> nat" where
  "port u url =
     (if m_hostEnd url = m_portEnd url \<or> m_hostEnd url = m_portEnd url - 1 then 0
      else case charactersToUIntStrict u (between (m_hostEnd url + 1) (m_portEnd url) (m_string url)) of
          None \<Rightarrow> invalidPortNumber
        | Some number \<Rightarrow> if number > maximumValidPortNumber then invalidPortNumber else number)"

definition pass :: "(wtf_string \<Rightarrow> wtf_string) \<Rightarrow> url \<Rightarrow> wtf_string" where
  "pass utf8Decode u =
     (if m_passwordEnd u = m_userEnd u then []
      else decodeURLEscapeSequences utf8Decode
        (substring (m_string u) (m_userEnd u + 1) (m_passwordEnd u - m_userEnd u - 1)))"

definition user :: "(wtf_string \<Rightarrow> wtf_string) \<Rightarrow> url \<Rightarrow> wtf_string" where
  "user utf8Decode u =
     decodeURLEscapeSequences utf8Decode (substring (m_string u) (m_userStart u) (m_userEnd u - m_userStart u))"

definition hasFragmentIdentifier :: "url \<Rightarrow> bool" where
  "hasFragmentIdentifier u \<longleftrightarrow> m_fragmentEnd u \<noteq> m_queryEnd u"

definition fragmentIdentifier :: "url \<Rightarrow> wtf_string" where
  "fragmentIdentifier u =
     (if m_fragmentEnd u = m_queryEnd u then []
      else substring (m_string u) (m_queryEnd u + 1) (m_fragmentEnd u - (m_queryEnd u + 1)))"

definition baseAsString :: "url \<Rightarrow> wtf_string" where
  "baseAsString u = left (m_string u) (m_pathAfterLastSlash u)"

definition query :: "url \<Rightarrow> wtf_string" where
  "query u =
     (if m_queryEnd u = m_pathEnd u then []
      else substring (m_string u) (m_pathEnd u + 1) (m_queryEnd u - (m_pathEnd u + 1)))"

definition path :: "url \<Rightarrow> wtf_string" where
  "path u = substring (m_string u) (m_portEnd u) (m_pathEnd u - m_portEnd u)"

text \<open>\<^const>\<open>None\<close> is the null string.\<close>

definition lastPathComponent :: "url \<Rightarrow> wtf_string option" where
  "lastPathComponent u =
     (if \<not> hasPath u then None
      else let end0 = m_pathEnd u - 1;
               end1 = (if at (m_string u) end0 = ch CHR ''/'' then end0 - 1 else end0) in
        case reverseFind (ch CHR ''/'') (m_string u) end1 of
          None \<Rightarrow> Some (substring (m_string u) 0 (end1 + 1))
        | Some start \<Rightarrow>
            if start < m_portEnd u then None
            else Some (substring (m_string u) (start + 1) (end1 + 1 - (start + 1))))"

definition isHierarchical :: "url \<Rightarrow> bool" where
  "isHierarchical u \<longleftrightarrow> m_isValid u \<and> at (m_string u) (m_schemeEnd u + 1) = ch CHR ''/''"

text \<open>\<open>URL::protocolIs\<close>; \<open>i\<close> runs to \<open>m_schemeEnd\<close>.\<close>

fun scheme_loop :: "wtf_string \<Rightarrow> wtf_string \<Rightarrow> nat \<Rightarrow> nat \<Rightarrow> bool" where
  "scheme_loop s proto i 0 = (at proto i = 0)"
| "scheme_loop s proto i (Suc n) =
     (if at proto i = 0 \<or> \<not> isSchemeCharacterMatchIgnoringCase (at s i) (at proto i) then False
      else scheme_loop s proto (Suc i) n)"

definition url_protocolIs :: "url \<Rightarrow> wtf_string \<Rightarrow> bool" where
  "url_protocolIs u proto = (if \<not> m_isValid u then False else scheme_loop (m_string u) proto 0 (m_schemeEnd u))"

text \<open>The free function \<open>protocolIs(url, protocol)\<close>, on a string.\<close>

fun protocol_loop :: "wtf_string \<Rightarrow> nat \<Rightarrow> wtf_string \<Rightarrow> bool" where
  "protocol_loop url i [] = (at url i = ch CHR '':'')"
| "protocol_loop url i (c # proto) =
     (if \<not> isLetterMatchIgnoringCase (at url i) c then False else protocol_loop url (Suc i) proto)"

definition protocolIs :: "wtf_string \<Rightarrow> wtf_string \<Rightarrow> bool" where
  "protocolIs url proto = protocol_loop url 0 proto"

definition protocolIsJavaScript :: "wtf_string \<Rightarrow> bool" where
  "protocolIsJavaScript url = protocolIs url (lit ''javascript'')"

definition protocolIsInHTTPFamily :: "wtf_string \<Rightarrow> bool" where
  "protocolIsInHTTPFamily url \<longleftrightarrow> letters_match url 0 ''http''
     \<and> (at url 4 = ch CHR '':'' \<or> (isLetterMatchIgnoringCase (at url 4) (ch CHR ''s'') \<and> at url 5 = ch CHR '':''))"

definition isLocalFile :: "url \<Rightarrow> bool" where
  "isLocalFile u = url_protocolIs u (lit ''file'')"

definition isBlankURL :: "url \<Rightarrow> bool" where
  "isBlankURL u = url_protocolIs u (lit ''about'')"

definition blankURL :: url where
  "blankURL = parse (lit ''about:blank'')"

definition fileSystemPath :: "(wtf_string \<Rightarrow> wtf_string) \<Rightarrow> url \<Rightarrow> wtf_string option" where
  "fileSystemPath utf8Decode u =
     (if \<not> m_isValid u \<or> \<not> isLocalFile u then None
      else Some (decodeURLEscapeSequences utf8Decode (path u)))"

definition isValidProtocol :: "wtf_string \<Rightarrow> bool" where
  "isValidProtocol proto =
     (case proto of [] \<Rightarrow> False | c # cs \<Rightarrow> isSchemeFirstChar c \<and> list_all isSchemeChar cs)"

section \<open>Comparisons\<close>

text \<open>\<open>for (i = 0; i < n; ++i) if (a[x + i] != b[y + i]) return false;\<close>\<close>

fun same_chars :: "wtf_string \<Rightarrow> nat \<Rightarrow> wtf_string \<Rightarrow> nat \<Rightarrow> nat \<Rightarrow> bool" where
  "same_chars a x b y 0 = True"
| "same_chars a x b y (Suc n) = (at a x = at b y \<and> same_chars a (Suc x) b (Suc y) n)"

definition equalIgnoringFragmentIdentifier :: "url \<Rightarrow> url \<Rightarrow> bool" where
  "equalIgnoringFragmentIdentifier a b =
     (if m_queryEnd a \<noteq> m_queryEnd b then False
      else same_chars (m_string a) 0 (m_string b) 0 (m_queryEnd a))"

definition protocolHostAndPortAreEqual :: "icu \<Rightarrow> url \<Rightarrow> url \<Rightarrow> bool" where
  "protocolHostAndPortAreEqual u a b =
     (if m_schemeEnd a \<noteq> m_schemeEnd b then False
      else let hostStartA = url_hostStart a; hostLengthA = int (m_hostEnd a) - int hostStartA;
               hostStartB = url_hostStart b; hostLengthB = int (m_hostEnd b) - int hostStartB in
        if hostLengthA \<noteq> hostLengthB then False
        else if \<not> same_chars (m_string a) 0 (m_string b) 0 (m_schemeEnd a) then False
        else if \<not> same_chars (m_string a) hostStartA (m_string b) hostStartB (nat hostLengthA) then False
        else if port u a \<noteq> port u b then False
        else True)"

section \<open>Ports\<close>

text \<open>
  \<open>isDefaultPortForProtocol\<close>: the map folds case, and \<open>get\<close> of an absent key is 0.
\<close>

definition defaultPorts :: "(wtf_string \<times> nat) list" where
  "defaultPorts = [(lit ''http'', 80), (lit ''https'', 443), (lit ''ftp'', 21), (lit ''ftps'', 990)]"

definition defaultPorts_get :: "icu \<Rightarrow> wtf_string \<Rightarrow> nat" where
  "defaultPorts_get u proto =
     (case find (\<lambda>(k, v). equalIgnoringCase u k proto) defaultPorts of None \<Rightarrow> 0 | Some (k, v) \<Rightarrow> v)"

definition isDefaultPortForProtocol :: "icu \<Rightarrow> nat \<Rightarrow> wtf_string \<Rightarrow> bool" where
  "isDefaultPortForProtocol u portNumber proto =
     (if proto = [] then False else defaultPorts_get u proto = portNumber)"

definition blockedPortList :: "nat list" where
  "blockedPortList =
     [1, 7, 9, 11, 13, 15, 17, 19, 20, 21, 22, 23, 25, 37, 42, 43, 53, 77, 79, 87, 95, 101, 102, 103,
      104, 109, 110, 111, 113, 115, 117, 119, 123, 135, 139, 143, 179, 389, 465, 512, 513, 514, 515,
      526, 530, 531, 532, 540, 556, 563, 587, 601, 636, 993, 995, 2049, 3659, 4045, 6000, 6665, 6666,
      6667, 6668, 6669, invalidPortNumber]"

text \<open>\<open>std::lower_bound\<close> and \<open>std::binary_search\<close> on an array of numbers.\<close>

function lower_bound :: "nat list \<Rightarrow> nat \<Rightarrow> nat \<Rightarrow> nat \<Rightarrow> nat" where
  "lower_bound xs first count v =
     (if count = 0 then first
      else let step = count div 2 in
        if xs ! (first + step) < v then lower_bound xs (first + step + 1) (count - (step + 1)) v
        else lower_bound xs first step v)"
  by pat_completeness auto
termination
  by (relation "measure (\<lambda>(xs, first, count, v). count)") auto

declare lower_bound.simps [simp del]

definition binary_search :: "nat list \<Rightarrow> nat \<Rightarrow> bool" where
  "binary_search xs v =
     (let k = lower_bound xs 0 (length xs) v in k \<noteq> length xs \<and> \<not> v < xs ! k)"

definition portAllowed :: "icu \<Rightarrow> url \<Rightarrow> bool" where
  "portAllowed u url =
     (let p = port u url in
      if p = 0 then True
      else if \<not> binary_search blockedPortList p then True
      else if (p = 21 \<or> p = 22) \<and> url_protocolIs url (lit ''ftp'') then True
      else if url_protocolIs url (lit ''file'') then True
      else False)"

section \<open>Other text functions\<close>

definition mimeTypeFromDataURL :: "icu \<Rightarrow> wtf_string \<Rightarrow> wtf_string" where
  "mimeTypeFromDataURL u url =
     (case (case find_char (ch CHR '';'') url 0 of None \<Rightarrow> find_char (ch CHR '','') url 0 | Some i \<Rightarrow> Some i) of
        Some index \<Rightarrow> if index > 5 then lower u (substring url 5 (index - 5)) else lit ''text/plain''
      | None \<Rightarrow> [])"

text \<open>\<open>length / 2 - 1\<close> and \<open>length / 2 - 2\<close> are computed in \<open>unsigned\<close> and wrap below zero.\<close>

definition stringCenterEllipsizedToLength :: "url \<Rightarrow> 32 word \<Rightarrow> wtf_string" where
  "stringCenterEllipsizedToLength u len =
     (if length (m_string u) \<le> unat len then m_string u
      else left (m_string u) (unat (len div 2 - 1)) @ lit ''...'' @ right (m_string u) (unat (len div 2 - 2)))"

section \<open>Reading a written URL\<close>

lemma isSchemeChar_lower: "isSchemeChar c \<Longrightarrow> isSchemeChar (toASCIILower c)"
  by (auto simp: char_class toASCIILower_alt isASCIIUpper_def alpha_def)

lemmas write_url_ends = write_url_def Let_def

lemma protocol_write_url [simp]: "protocol (write_url h orig scheme au p q f) = scheme"
  by (simp add: protocol_def write_url_ends left_take)

lemma substring_at: "i = length pre \<Longrightarrow> n = length xs \<Longrightarrow> s = pre @ xs @ ys \<Longrightarrow> substring s i n = xs"
  by (simp add: substring_def)

definition before_path :: "wtf_string \<Rightarrow> authority_text \<Rightarrow> wtf_string" where
  "before_path scheme au = scheme @ [58] @ at_prefix au @ at_user au @ at_password au @ at_sign au
     @ at_host au @ at_port au"

lemma write_url_tail_ends:
  "m_string (write_url h orig scheme au p q f) = before_path scheme au @ p @ q @ f"
  "m_portEnd (write_url h orig scheme au p q f) = length (before_path scheme au)"
  "m_pathEnd (write_url h orig scheme au p q f) = length (before_path scheme au) + length p"
  "m_queryEnd (write_url h orig scheme au p q f) = length (before_path scheme au) + length p + length q"
  "m_fragmentEnd (write_url h orig scheme au p q f) = length (before_path scheme au) + length p + length q + length f"
  by (simp_all add: write_url_ends before_path_def)

lemma path_write_url [simp]: "path (write_url h orig scheme au p q f) = p"
  unfolding path_def by (rule substring_at [of _ "before_path scheme au"]) (simp_all add: write_url_tail_ends)

lemma query_write_url: "query (write_url h orig scheme au p q f) = tl q"
proof (cases q)
  case (Cons c r)
  have "substring (before_path scheme au @ p @ q @ f) (length (before_path scheme au) + length p + 1) (length r) = r"
    by (rule substring_at [of _ "before_path scheme au @ p @ [c]"]) (simp_all add: Cons)
  then show ?thesis by (simp add: query_def write_url_tail_ends Cons)
qed (simp add: query_def write_url_tail_ends)

lemma fragment_write_url: "fragmentIdentifier (write_url h orig scheme au p q f) = tl f"
proof (cases f)
  case (Cons c r)
  have "substring (before_path scheme au @ p @ q @ f) (length (before_path scheme au) + length p + length q + 1) (length r) = r"
    by (rule substring_at [of _ "before_path scheme au @ p @ q @ [c]" _ _ _ "[]"]) (simp_all add: Cons)
  then show ?thesis by (simp add: fragmentIdentifier_def write_url_tail_ends Cons)
qed (simp add: fragmentIdentifier_def write_url_tail_ends)

lemma host_write_url:
  assumes "at_sign au = (if at_user au = [] \<and> at_password au = [] then [] else [64])"
  shows "host (write_url h orig scheme au p q f) = at_host au"
proof -
  let ?u = "write_url h orig scheme au p q f"
  let ?pre = "scheme @ [58] @ at_prefix au @ at_user au @ at_password au @ at_sign au"
  have "url_hostStart ?u = length ?pre" using assms
    by (auto simp: url_hostStart_def write_url_ends)
  moreover have "m_hostEnd ?u = length ?pre + length (at_host au)" by (simp add: write_url_ends)
  moreover have "m_string ?u = ?pre @ at_host au @ at_port au @ p @ q @ f" by (simp add: m_string_write_url)
  ultimately show ?thesis unfolding host_def by (intro substring_at [of _ ?pre]) simp_all
qed

lemma host_ends_write_url:
  assumes "at_sign au = (if at_user au = [] \<and> at_password au = [] then [] else [64])"
  shows "url_hostStart (write_url h orig scheme au p q f) \<le> m_hostEnd (write_url h orig scheme au p q f)"
  using assms by (auto simp: url_hostStart_def write_url_ends)

lemma at_sign_assemble:
  "at_sign (assemble_authority s f scheme a t) =
     (if at_user (assemble_authority s f scheme a t) = [] \<and> at_password (assemble_authority s f scheme a t) = []
      then [] else [64])"
  by (cases rule: assemble_authority_cases [of s f scheme a t]) auto

lemma parse_chars_written:
  assumes "m_isValid (parse_chars s orig)"
  obtains h scheme au p q f where "parse_chars s orig = write_url h orig scheme au p q f" "scheme \<noteq> []"
    "list_all (\<lambda>c. isSchemeChar c \<and> \<not> isASCIIUpper c) scheme"
    "at_sign au = (if at_user au = [] \<and> at_password au = [] then [] else [64])"
proof -
  from assms obtain e a where e: "e = scan_while isSchemeChar s 0" "0 < e" "e < length s"
    and p: "parse_chars s orig = assemble s orig e a" by (rule parse_chars_valid)
  have "list_all (\<lambda>c. isSchemeChar c \<and> \<not> isASCIIUpper c) (map toASCIILower (between 0 e s))"
    using list_all_scan_while [of isSchemeChar 0 s] unfolding e(1)
    by (auto simp: list_all_iff toASCIILower_not_upper isSchemeChar_lower)
  moreover have "map toASCIILower (between 0 e s) \<noteq> []" using e(2,3) by (auto simp: between_def)
  ultimately show thesis using that p at_sign_assemble unfolding assemble_def Let_def by blast
qed

section \<open>Schemes and comparisons\<close>

lemma same_chars_between:
  "x + n \<le> length a \<Longrightarrow> y + n \<le> length b \<Longrightarrow>
     same_chars a x b y n \<longleftrightarrow> between x (x + n) a = between y (y + n) b"
proof (induction a x b y n rule: same_chars.induct)
  case (2 a x b y n)
  have "between x (x + Suc n) a = at a x # between (Suc x) (Suc x + n) a"
    "between y (y + Suc n) b = at b y # between (Suc y) (Suc y + n) b"
    using "2.prems" between_split [of x "Suc x" "x + Suc n" a] between_split [of y "Suc y" "y + Suc n" b]
    by (simp_all add: between_single at_def)
  with 2 show ?case by simp
qed simp

lemma scheme_char_match:
  assumes "isSchemeChar c" "\<not> isASCIIUpper c"
  shows "isSchemeCharacterMatchIgnoringCase c d \<longleftrightarrow> c = d"
proof -
  have "97 \<le> c \<and> c \<le> 122 \<or> 43 \<le> c \<and> c \<le> 57"
    using assms by (auto simp: char_class alpha_def digit_def isASCIIUpper_def)
  then have "c div 32 = 3 \<or> c div 32 = 1" by (auto simp: div_eq_range)
  then have "odd (c div 32)" by (elim disjE) (simp_all only: odd_one odd_numeral simp_thms)
  then show ?thesis by (simp add: isSchemeCharacterMatchIgnoringCase_def OR_32)
qed

lemma scheme_loop_eq:
  assumes "list_all (\<lambda>c. isSchemeChar c \<and> \<not> isASCIIUpper c) scheme" "list_all (\<lambda>c. c \<noteq> 0) proto"
  shows "scheme_loop (pre @ scheme @ rest) (pre @ proto) (length pre) (length scheme) \<longleftrightarrow> scheme = proto"
  using assms
proof (induction scheme arbitrary: pre proto)
  case Nil
  then show ?case by (cases proto) (auto simp: at_def)
next
  case (Cons c scheme)
  show ?case
  proof (cases proto)
    case d: (Cons d proto')
    have "scheme_loop ((pre @ [c]) @ scheme @ rest) ((pre @ [c]) @ proto') (length (pre @ [c])) (length scheme)
        \<longleftrightarrow> scheme = proto'"
      using Cons.IH [of proto' "pre @ [c]"] Cons.prems d by simp
    then show ?thesis using Cons.prems d scheme_char_match [of c d] by (auto simp: at_def)
  qed (simp add: at_def)
qed

lemma url_protocolIs_parse:
  assumes "m_isValid (parse_chars s orig)" "list_all (\<lambda>c. c \<noteq> 0) proto"
  shows "url_protocolIs (parse_chars s orig) proto \<longleftrightarrow> protocol (parse_chars s orig) = proto"
  using assms(1)
proof (rule parse_chars_written)
  fix h scheme au p q f
  assume "parse_chars s orig = write_url h orig scheme au p q f"
    "list_all (\<lambda>c. isSchemeChar c \<and> \<not> isASCIIUpper c) scheme"
  then show ?thesis
    using assms scheme_loop_eq [of scheme proto "[]"]
    by (simp add: url_protocolIs_def m_string_write_url) (simp add: write_url_ends)
qed

section \<open>Binary search\<close>

definition partitioned :: "nat list \<Rightarrow> nat \<Rightarrow> nat \<Rightarrow> nat \<Rightarrow> bool" where
  "partitioned xs lo hi v \<longleftrightarrow> lo \<le> hi \<and> hi \<le> length xs \<and> (\<forall>i < lo. xs ! i < v)
     \<and> (\<forall>i. hi \<le> i \<and> i < length xs \<longrightarrow> v \<le> xs ! i)"

lemma lower_bound_partitions:
  "sorted xs \<Longrightarrow> partitioned xs first (first + count) v \<Longrightarrow>
     partitioned xs (lower_bound xs first count v) (lower_bound xs first count v) v"
proof (induction xs first count v rule: lower_bound.induct)
  case (1 xs first count v)
  define m where "m = first + count div 2"
  show ?case
  proof (cases "count = 0")
    case False
    then have m: "m < first + count" "first \<le> m" "m < length xs"
      using "1.prems"(2) by (auto simp: partitioned_def m_def)
    have le: "xs ! i \<le> xs ! j" if "i \<le> j" "j < length xs" for i j
      using sorted_nth_mono [OF "1.prems"(1) that] .
    show ?thesis
    proof (cases "xs ! m < v")
      case True
      have "partitioned xs (m + 1) (first + count) v"
        using "1.prems"(2) m True le [of _ m] by (fastforce simp: partitioned_def less_Suc_eq_le)
      moreover have "m + 1 + (count - (count div 2 + 1)) = first + count" using m by (simp add: m_def)
      ultimately show ?thesis
        using "1.IH"(1) [OF False refl] True "1.prems"(1)
        by (subst (1 2) lower_bound.simps) (simp add: m_def Let_def False)
    next
      case ge: False
      have "partitioned xs first m v"
        using "1.prems"(2) m ge le [of m] by (fastforce simp: partitioned_def)
      then show ?thesis
        using "1.IH"(2) [OF False refl] ge "1.prems"(1)
        by (subst (1 2) lower_bound.simps) (simp add: m_def Let_def False)
    qed
  qed (use "1.prems" in \<open>simp add: lower_bound.simps\<close>)
qed

lemma binary_search_iff:
  assumes "sorted xs"
  shows "binary_search xs v \<longleftrightarrow> v \<in> set xs"
proof -
  define k where "k = lower_bound xs 0 (length xs) v"
  have k: "partitioned xs k k v"
    unfolding k_def by (rule lower_bound_partitions) (simp_all add: assms partitioned_def)
  show ?thesis
  proof
    assume "binary_search xs v"
    then have "k < length xs" "xs ! k = v"
      using k by (auto simp: binary_search_def k_def [symmetric] Let_def partitioned_def intro: antisym)
    then show "v \<in> set xs" by (metis nth_mem)
  next
    assume "v \<in> set xs"
    then obtain i where i: "i < length xs" "xs ! i = v" by (auto simp: in_set_conv_nth)
    then have "k \<le> i" using k by (auto simp: partitioned_def not_less [symmetric])
    then have "k < length xs" "xs ! k \<le> v" using i sorted_nth_mono [OF assms, of k i] by auto
    then show "binary_search xs v" by (simp add: binary_search_def k_def [symmetric] Let_def)
  qed
qed

section \<open>Properties\<close>

text \<open>
  C2: Canonical text is a fixed point of the parser and its components are read back: for
  components of the right character classes, the printed URL is valid, its string is the
  printed text, and the accessors return scheme, host, path, query and fragment.
\<close>

theorem parse_print_url:
  fixes originalString :: "wtf_string option"
  assumes "canonical_parts p"
  defines "u \<equiv> parse_chars (print_url p) originalString"
  shows "m_isValid u \<and> m_string u = print_url p \<and> protocol u = p_scheme p \<and> host u = p_host p \<and>
    path u = p_path p \<and> query u = tl (p_query p) \<and> fragmentIdentifier u = tl (p_fragment p) \<and>
    between (m_userStart u) (m_userEnd u) (m_string u) = p_user p \<and>
    m_protocolIsInHTTPFamily u = (p_scheme p \<in> {lit ''http'', lit ''https''})"
proof -
  have w: "u = write_url (p_scheme p \<in> {lit ''http'', lit ''https''}) originalString (p_scheme p) (parts_text p)
      (p_path p) (p_query p) (p_fragment p)"
    unfolding u_def by (rule parse_print_write [OF assms(1)])
  have "host u = p_host p" unfolding w by (subst host_write_url) (simp_all add: parts_text_def)
  moreover have "m_string u = print_url p"
    unfolding w by (simp add: m_string_write_url parts_text_def print_url_def print_userinfo_def lit_def)
  moreover have "between (m_userStart u) (m_userEnd u) (m_string u) = p_user p"
    unfolding w by (simp add: write_url_ends parts_text_def between_def)
  moreover have "m_isValid u \<and> m_protocolIsInHTTPFamily u = (p_scheme p \<in> {lit ''http'', lit ''https''})"
    unfolding w by (simp add: write_url_ends)
  ultimately show ?thesis unfolding w by (simp add: query_write_url fragment_write_url)
qed

definition sample_parts :: url_parts where
  "sample_parts = \<lparr>p_scheme = lit ''http'', p_user = lit ''me'', p_password = lit ''pw'', p_host = lit ''a.org'',
     p_port = lit ''81'', p_path = lit ''/x/y'', p_query = lit ''?q=1'', p_fragment = lit ''#top''\<rparr>"

lemma sample_parts_canonical: "canonical_parts sample_parts"
proof -
  have "list_all (\<lambda>c. isSchemeChar c \<and> \<not> isASCIIUpper c) (lit ''http'')"
    "list_all (\<lambda>c. isUserInfoChar c \<and> c \<noteq> 58) (lit ''me'')" "list_all isUserInfoChar (lit ''pw'')"
    "list_all (\<lambda>c. isHostnameChar c \<and> \<not> isASCIIUpper c) (lit ''a.org'')" "list_all isASCIIDigit (lit ''81'')"
    "list_all stays (lit ''/x/y'')" "list_all (\<lambda>c. stays c \<or> c = 63) (lit ''q=1'')"
    "list_all printable (lit ''top'')" "isSchemeFirstChar 104"
    "\<not> isDefaultPortForScheme (lit ''81'') (length (lit ''81'')) (lit ''http'') (length (lit ''http''))" "\<not> slash_dot_loop 47 (lit ''x/y'')"
    by code_simp+
  then show ?thesis by (simp add: canonical_parts_def sample_parts_def lit_def)
qed

theorem parse_print_url_witness:
  "host (parse_chars (print_url sample_parts) None) = lit ''a.org''
   \<and> path (parse_chars (print_url sample_parts) None) = lit ''/x/y''"
  using parse_print_url [OF sample_parts_canonical, of None] by (simp add: sample_parts_def)

text \<open>
  \<open>URL::protocolIs\<close>, which compares character by character without making a string, holds
  exactly when the scheme of a parsed URL is the given one.
\<close>

lemma url_protocolIs_iff:
  assumes "list_all (\<lambda>c. c \<noteq> 0) proto"
  shows "url_protocolIs (parse s) proto \<longleftrightarrow> m_isValid (parse s) \<and> protocol (parse s) = proto"
  using url_protocolIs_parse [of "copyASCII s" "Some s" proto] assms
  by (auto simp: parse_def url_protocolIs_def)

lemma url_protocolIs_iff_example:
  "url_protocolIs (parse (lit ''FTP:x'')) (lit ''ftp'')"
proof -
  have "list_all (\<lambda>c. c \<noteq> 0) (lit ''ftp'')" by (simp add: lit_def)
  moreover have "m_isValid (parse (lit ''FTP:x'')) \<and> protocol (parse (lit ''FTP:x'')) = lit ''ftp''" by code_simp
  ultimately show ?thesis using url_protocolIs_iff [of "lit ''ftp''" "lit ''FTP:x''"] by blast
qed

text \<open>
  C15: The in-place comparison \<open>protocolHostAndPortAreEqual\<close> of two parsed URLs holds exactly
  when their schemes, hosts and port numbers are equal.
\<close>

theorem protocolHostAndPortAreEqual_iff:
  assumes "m_isValid (parse s)" "m_isValid (parse t)"
  shows "protocolHostAndPortAreEqual u (parse s) (parse t) \<longleftrightarrow>
    protocol (parse s) = protocol (parse t) \<and> host (parse s) = host (parse t) \<and>
    port u (parse s) = port u (parse t)"
proof -
  have ok: "url_wf (parse x) \<and> url_hostStart (parse x) \<le> m_hostEnd (parse x)" if "m_isValid (parse x)" for x
    using that unfolding parse_def
    by (metis parse_chars_wf parse_chars_written host_ends_write_url)
  let ?a = "parse s" and ?b = "parse t"
  note wf = ok [OF assms(1)] ok [OF assms(2)]
  define n where "n = m_hostEnd ?a - url_hostStart ?a"
  have len: "length (protocol x) = m_schemeEnd x" "length (host x) = m_hostEnd x - url_hostStart x"
    if "url_wf x \<and> url_hostStart x \<le> m_hostEnd x" for x
    using that by (auto simp: url_wf_def protocol_def host_def left_take substring_between)
  show ?thesis
  proof (cases "m_schemeEnd ?a = m_schemeEnd ?b \<and> m_hostEnd ?b - url_hostStart ?b = n")
    case True
    have sc: "same_chars (m_string ?a) 0 (m_string ?b) 0 (m_schemeEnd ?a) \<longleftrightarrow> protocol ?a = protocol ?b"
      using True wf by (subst same_chars_between) (auto simp: url_wf_def protocol_def left_take between_def)
    have "host ?a = between (url_hostStart ?a) (url_hostStart ?a + n) (m_string ?a)"
      "host ?b = between (url_hostStart ?b) (url_hostStart ?b + n) (m_string ?b)"
      using True by (simp_all add: host_def substring_def between_def n_def)
    then have ho: "same_chars (m_string ?a) (url_hostStart ?a) (m_string ?b) (url_hostStart ?b) n \<longleftrightarrow> host ?a = host ?b"
      using True wf by (subst same_chars_between) (auto simp: n_def url_wf_def)
    have "int (m_hostEnd ?a) - int (url_hostStart ?a) = int n" "int (m_hostEnd ?b) - int (url_hostStart ?b) = int n"
      using True wf by (auto simp: n_def)
    then show ?thesis using True sc ho by (auto simp: protocolHostAndPortAreEqual_def Let_def)
  next
    case False
    then have "protocol ?a \<noteq> protocol ?b \<or> host ?a \<noteq> host ?b"
      using len [OF wf(1)] len [OF wf(2)] by (auto simp: n_def)
    moreover have "\<not> protocolHostAndPortAreEqual u ?a ?b"
      using False wf by (auto simp: protocolHostAndPortAreEqual_def Let_def n_def)
    ultimately show ?thesis by blast
  qed
qed

definition ascii_icu :: icu where
  "ascii_icu = \<lparr>u_isWhiteSpaceNeutral = (\<lambda>c. False), u_strToLower = map toASCIILower, u_foldCase = (\<lambda>c. c),
     uidna_IDNToASCII = (\<lambda>s. None)\<rparr>"

theorem protocolHostAndPortAreEqual_iff_witness:
  "protocolHostAndPortAreEqual ascii_icu (parse (lit ''http://a/x'')) (parse (lit ''HTTP://A:80/y''))"
proof -
  have "m_isValid (parse (lit ''http://a/x''))" "m_isValid (parse (lit ''HTTP://A:80/y''))" by code_simp+
  moreover have "protocol (parse (lit ''http://a/x'')) = protocol (parse (lit ''HTTP://A:80/y''))"
    "host (parse (lit ''http://a/x'')) = host (parse (lit ''HTTP://A:80/y''))"
    "port ascii_icu (parse (lit ''http://a/x'')) = port ascii_icu (parse (lit ''HTTP://A:80/y''))" by code_simp+
  ultimately show ?thesis using protocolHostAndPortAreEqual_iff by blast
qed

text \<open>
  Two parsed URLs are equal up to the fragment, by the loop of
  \<open>equalIgnoringFragmentIdentifier\<close>, exactly when their strings agree up to the query's end.
\<close>

lemma equalIgnoringFragmentIdentifier_iff:
  assumes "m_isValid (parse s)" "m_isValid (parse t)"
  shows "equalIgnoringFragmentIdentifier (parse s) (parse t) \<longleftrightarrow>
    left (m_string (parse s)) (m_queryEnd (parse s)) = left (m_string (parse t)) (m_queryEnd (parse t))"
proof -
  have "m_queryEnd (parse x) \<le> length (m_string (parse x))" if "m_isValid (parse x)" for x
    using that parse_chars_wf [of "copyASCII x" "Some x"] by (simp add: parse_def url_wf_def)
  note le = this [OF assms(1)] this [OF assms(2)]
  show ?thesis
  proof (cases "m_queryEnd (parse s) = m_queryEnd (parse t)")
    case True
    then show ?thesis using le
      by (simp add: equalIgnoringFragmentIdentifier_def same_chars_between left_take between_def)
  next
    case False
    then have "left (m_string (parse s)) (m_queryEnd (parse s)) \<noteq> left (m_string (parse t)) (m_queryEnd (parse t))"
      using le by (auto simp: left_take dest!: arg_cong [where f = length])
    with False show ?thesis by (simp add: equalIgnoringFragmentIdentifier_def)
  qed
qed

lemma equalIgnoringFragmentIdentifier_iff_example:
  "equalIgnoringFragmentIdentifier (parse (lit ''x:/a#b'')) (parse (lit ''x:/a''))"
proof -
  have "m_isValid (parse (lit ''x:/a#b''))" "m_isValid (parse (lit ''x:/a''))" by code_simp+
  moreover have "left (m_string (parse (lit ''x:/a#b''))) (m_queryEnd (parse (lit ''x:/a#b''))) =
    left (m_string (parse (lit ''x:/a''))) (m_queryEnd (parse (lit ''x:/a'')))" by code_simp
  ultimately show ?thesis using equalIgnoringFragmentIdentifier_iff by blast
qed

text \<open>
  C32: The blocked ports are found by binary search in a sorted table, so that \<open>portAllowed\<close>
  refuses exactly the ports of the table, except FTP's own ports for \<open>ftp\<close> and any port
  for \<open>file\<close>; the number that stands for an invalid port is refused too.
\<close>

theorem portAllowed_iff:
  "\<not> portAllowed u url \<longleftrightarrow> 0 < port u url \<and> port u url \<in> set blockedPortList \<and>
     \<not> (port u url \<in> {21, 22} \<and> url_protocolIs url (lit ''ftp'')) \<and> \<not> url_protocolIs url (lit ''file'')"
proof -
  have "sorted blockedPortList" by (simp add: blockedPortList_def invalidPortNumber_def)
  from binary_search_iff [OF this, of "port u url"] show ?thesis
    by (auto simp: portAllowed_def Let_def)
qed

text \<open>
  The ellipsized form of a URL is never longer than asked for, when at least four
  characters are asked for.
\<close>

lemma stringCenterEllipsizedToLength_bound:
  assumes "4 \<le> len"
  shows "length (stringCenterEllipsizedToLength u len) \<le> unat len"
proof -
  define h where "h = unat len div 2"
  have "4 \<le> unat len" using assms by (simp add: word_le_nat_alt)
  then have h: "2 \<le> h" "2 * h \<le> unat len" by (simp_all add: h_def)
  have d: "unat (len div 2) = h" by (simp add: unat_div h_def)
  then have "1 \<le> len div 2" "2 \<le> len div 2" using h(1) by (simp_all add: word_le_nat_alt)
  then have "unat (len div 2 - 1) = h - 1" "unat (len div 2 - 2) = h - 2"
    using d by (simp_all add: unat_sub)
  then show ?thesis using h
    by (auto simp: stringCenterEllipsizedToLength_def left_take right_def substring_def lit_def)
qed

lemma stringCenterEllipsizedToLength_bound_example:
  "length (stringCenterEllipsizedToLength (parse (lit ''x:abcdefgh'')) 6) \<le> unat (6 :: 32 word)"
  by (rule stringCenterEllipsizedToLength_bound) simp

text \<open>
  Below four characters the unsigned differences wrap: for a length of 0 the result is the
  whole string with three dots added.
\<close>

theorem stringCenterEllipsizedToLength_wraps:
  "stringCenterEllipsizedToLength (parse (lit ''x:a'')) 0 = lit ''x:a...''"
proof -
  have "m_string (parse (lit ''x:a'')) = lit ''x:a''" by code_simp
  moreover have "(0 div 2 - 1 :: 32 word) = 4294967295" "(0 div 2 - 2 :: 32 word) = 4294967294" by simp_all
  moreover have "unat (4294967295 :: 32 word) = 4294967295" "unat (4294967294 :: 32 word) = 4294967294" by simp_all
  ultimately show ?thesis
    unfolding stringCenterEllipsizedToLength_def left_take right_def by (simp only:) (simp add: lit_def)
qed

text \<open>Port 0 counts as the default port of every scheme the table does not know.\<close>

theorem isDefaultPortForProtocol_unknown: "isDefaultPortForProtocol ascii_icu 0 (lit ''gopher'')"
  by code_simp

end
