(* ===== verification/Url_Resolve.thy ===== *)
theory Url_Resolve
  imports Url_Access
begin

text \<open>
  Building URLs: the setters, which edit the string and parse it again, and \<open>URL::init\<close>,
  which resolves a relative reference against a base, with the encoding of host names and
  of non-ASCII text before it. ICU's IDNA conversion and the encoders of \<open>TextEncoding\<close> are
  parameters.
\<close>

section \<open>Setters\<close>

definition setProtocol :: "url \<Rightarrow> wtf_string \<Rightarrow> bool \<times> url" where
  "setProtocol u s =
     (let newProtocol = (case find_char (ch CHR '':'') s 0 of None \<Rightarrow> substring_from s 0 | Some k \<Rightarrow> substring s 0 k) in
      if \<not> isValidProtocol newProtocol then (False, u)
      else if \<not> m_isValid u then (True, parse (newProtocol @ lit '':'' @ m_string u))
      else (True, parse (newProtocol @ substring_from (m_string u) (m_schemeEnd u))))"

definition setHost :: "url \<Rightarrow> wtf_string \<Rightarrow> url" where
  "setHost u s =
     (if \<not> m_isValid u then u
      else let slashSlashNeeded = (m_userStart u = m_schemeEnd u + 1) in
        parse (left (m_string u) (url_hostStart u) @ (if slashSlashNeeded then lit ''//'' else []) @ s
          @ substring_from (m_string u) (m_hostEnd u)))"

definition removePort :: "url \<Rightarrow> url" where
  "removePort u =
     (if m_hostEnd u = m_portEnd u then u
      else parse (left (m_string u) (m_hostEnd u) @ substring_from (m_string u) (m_portEnd u)))"

definition setPort :: "url \<Rightarrow> nat \<Rightarrow> url" where
  "setPort u i =
     (if \<not> m_isValid u then u
      else let colonNeeded = (m_portEnd u = m_hostEnd u);
               portStart = (if colonNeeded then m_hostEnd u else m_hostEnd u + 1) in
        parse (left (m_string u) portStart @ (if colonNeeded then lit '':'' else []) @ numberToString i
          @ substring_from (m_string u) (m_portEnd u)))"

definition setHostAndPort :: "url \<Rightarrow> wtf_string \<Rightarrow> url" where
  "setHostAndPort u hostAndPort =
     (if \<not> m_isValid u then u
      else let slashSlashNeeded = (m_userStart u = m_schemeEnd u + 1) in
        parse (left (m_string u) (url_hostStart u) @ (if slashSlashNeeded then lit ''//'' else []) @ hostAndPort
          @ substring_from (m_string u) (m_portEnd u)))"

definition setUser :: "url \<Rightarrow> wtf_string \<Rightarrow> url" where
  "setUser u newUser =
     (if \<not> m_isValid u then u
      else if newUser \<noteq> [] then
        let end = m_userEnd u;
            v = (if m_userStart u = m_schemeEnd u + 1 then lit ''//'' @ newUser else newUser);
            w = (if end = m_hostEnd u \<or> (end = m_passwordEnd u \<and> at (m_string u) end \<noteq> ch CHR ''@'')
                 then v @ [ch CHR ''@''] else v) in
        parse (left (m_string u) (m_userStart u) @ w @ substring_from (m_string u) end)
      else
        let end = (if m_userEnd u = m_passwordEnd u \<and> m_userEnd u \<noteq> m_hostEnd u
                     \<and> at (m_string u) (m_userEnd u) = ch CHR ''@'' then m_userEnd u + 1 else m_userEnd u) in
        if m_userStart u \<noteq> end
        then parse (left (m_string u) (m_userStart u) @ substring_from (m_string u) end) else u)"

definition setPass :: "url \<Rightarrow> wtf_string \<Rightarrow> url" where
  "setPass u password =
     (if \<not> m_isValid u then u
      else if password \<noteq> [] then
        let p = lit '':'' @ password @ lit ''@'';
            q = (if m_userEnd u = m_schemeEnd u + 1 then lit ''//'' @ p else p);
            end = (if m_passwordEnd u \<noteq> m_hostEnd u \<and> at (m_string u) (m_passwordEnd u) = ch CHR ''@''
                   then m_passwordEnd u + 1 else m_passwordEnd u) in
        parse (left (m_string u) (m_userEnd u) @ q @ substring_from (m_string u) end)
      else
        let end = (if m_userStart u = m_userEnd u \<and> m_passwordEnd u \<noteq> m_hostEnd u
                     \<and> at (m_string u) (m_passwordEnd u) = ch CHR ''@'' then m_passwordEnd u + 1 else m_passwordEnd u) in
        if m_userEnd u \<noteq> end
        then parse (left (m_string u) (m_userEnd u) @ substring_from (m_string u) end) else u)"

definition setFragmentIdentifier :: "url \<Rightarrow> wtf_string \<Rightarrow> url" where
  "setFragmentIdentifier u s =
     (if \<not> m_isValid u then u else parse (left (m_string u) (m_queryEnd u) @ lit ''#'' @ s))"

definition removeFragmentIdentifier :: "url \<Rightarrow> url" where
  "removeFragmentIdentifier u =
     (if \<not> m_isValid u then u else parse (left (m_string u) (m_queryEnd u)))"

text \<open>A null query (\<^const>\<open>None\<close>) removes the query, an empty one leaves a bare question mark.\<close>

definition setQuery :: "url \<Rightarrow> wtf_string option \<Rightarrow> url" where
  "setQuery u q =
     (if \<not> m_isValid u then u
      else let text = (case q of None \<Rightarrow> [] | Some t \<Rightarrow> t) in
        if (text = [] \<or> hd text \<noteq> ch CHR ''?'') \<and> q \<noteq> None
        then parse (left (m_string u) (m_pathEnd u) @ lit ''?'' @ text @ substring_from (m_string u) (m_queryEnd u))
        else parse (left (m_string u) (m_pathEnd u) @ text @ substring_from (m_string u) (m_queryEnd u)))"

definition setPath :: "bool \<Rightarrow> url \<Rightarrow> wtf_string \<Rightarrow> url" where
  "setPath is8Bit u s =
     (if \<not> m_isValid u then u
      else let p = (if s = [] \<or> hd s \<noteq> ch CHR ''/'' then lit ''/'' @ s else s) in
        parse (left (m_string u) (m_portEnd u) @ encodeWithURLEscapeSequences is8Bit p
          @ substring_from (m_string u) (m_pathEnd u)))"

definition strippedForUseAsReferrer :: "url \<Rightarrow> wtf_string" where
  "strippedForUseAsReferrer u = m_string (removeFragmentIdentifier (setPass (setUser u []) []))"

section \<open>Host names in the text\<close>

definition findFirstOf :: "wtf_string \<Rightarrow> nat \<Rightarrow> wtf_string \<Rightarrow> nat option" where
  "findFirstOf s startPosition target =
     (let k = scan_while (\<lambda>c. c \<notin> set target) s startPosition in if k < length s then Some k else None)"

lemma findFirstOf_bounds: "findFirstOf s i t = Some k \<Longrightarrow> i \<le> k \<and> k < length s"
  using scan_while_ge [of i "\<lambda>c. c \<notin> set t" s] by (auto simp: findFirstOf_def Let_def split: if_splits)

text \<open>The inner loop: behind the closing quote, \<^const>\<open>None\<close> where the function returns.\<close>

function skip_quoted :: "wtf_string \<Rightarrow> nat \<Rightarrow> nat option" where
  "skip_quoted s p =
     (case findFirstOf s p (lit [CHR 0x22, CHR 0x5C]) of None \<Rightarrow> None
      | Some k \<Rightarrow>
          if at s k = 0x22 then Some (k + 1)
          else if k + 1 = length s then None
          else skip_quoted s (k + 2))"
  by pat_completeness auto
termination
  by (relation "measure (\<lambda>(s, p). length s - p)") (auto dest!: findFirstOf_bounds)

declare skip_quoted.simps [simp del]

lemma skip_quoted_gt: "skip_quoted s p = Some k \<Longrightarrow> p < k"
proof (induction s p rule: skip_quoted.induct)
  case (1 s p)
  then show ?case
    by (subst (asm) (2) skip_quoted.simps) (auto dest!: findFirstOf_bounds split: option.splits if_splits)
qed

function findHostnamesInMailToURL :: "wtf_string \<Rightarrow> nat \<Rightarrow> (nat \<times> nat) list" where
  "findHostnamesInMailToURL s p =
     (case findFirstOf s p (lit [CHR 0x22, CHR ''@'', CHR ''?'']) of None \<Rightarrow> []
      | Some k \<Rightarrow>
          if at s k = ch CHR ''?'' then []
          else if at s k = ch CHR ''@'' then
            (case findFirstOf s (k + 1) (lit ''>,?'') of
               None \<Rightarrow> [(k + 1, length s)]
             | Some hostnameEnd \<Rightarrow> (k + 1, hostnameEnd) # findHostnamesInMailToURL s hostnameEnd)
          else (case skip_quoted s (k + 1) of None \<Rightarrow> [] | Some q \<Rightarrow> findHostnamesInMailToURL s q))"
  by pat_completeness auto
termination
  by (relation "measure (\<lambda>(s, p). length s - p)")
    (auto dest!: findFirstOf_bounds skip_quoted_gt)

declare findHostnamesInMailToURL.simps [simp del]

definition findHostnameInHierarchicalURL :: "wtf_string \<Rightarrow> (nat \<times> nat) option" where
  "findHostnameInHierarchicalURL s =
     (case findFirstOf s 0 (lit '':'') of None \<Rightarrow> None
      | Some separator \<Rightarrow>
          if separator + 2 \<ge> length s \<or> at s (separator + 1) \<noteq> ch CHR ''/'' \<or> at s (separator + 2) \<noteq> ch CHR ''/'' then None
          else if \<not> isSchemeFirstChar (at s 0) then None
          else if \<not> list_all isSchemeChar (between 1 separator s) then None
          else let authorityStart = separator + 3;
                   hostnameEnd = scan_while (\<lambda>c. \<not> (c = ch CHR '':'' \<or> (isPathSegmentEndChar c \<and> c \<noteq> 0))) s authorityStart;
                   hostnameStart = (case findFirstOf s authorityStart (lit ''@'') of
                      None \<Rightarrow> authorityStart
                    | Some k \<Rightarrow> if k > hostnameEnd then authorityStart else k + 1) in
            Some (hostnameStart, hostnameEnd))"

definition appendEncodedHostname :: "icu \<Rightarrow> wtf_string \<Rightarrow> wtf_string" where
  "appendEncodedHostname u s =
     (if length s > 2048 \<or> containsOnlyASCII s then s
      else case uidna_IDNToASCII u s of None \<Rightarrow> [] | Some t \<Rightarrow> t)"

fun encode_ranges :: "icu \<Rightarrow> wtf_string \<Rightarrow> nat \<Rightarrow> (nat \<times> nat) list \<Rightarrow> wtf_string" where
  "encode_ranges u s p [] = substring_from s p"
| "encode_ranges u s p ((a, b) # rs) =
     substring s p (a - p) @ appendEncodedHostname u (substring s a (b - a)) @ encode_ranges u s b rs"

text \<open>\<open>protocolIs(StringView, const char*)\<close>, which is false when the text ends first.\<close>

fun view_protocol_loop :: "wtf_string \<Rightarrow> wtf_string \<Rightarrow> bool" where
  "view_protocol_loop [] proto = False"
| "view_protocol_loop (c # s) [] = (c = ch CHR '':'')"
| "view_protocol_loop (c # s) (d # proto) = (isLetterMatchIgnoringCase c d \<and> view_protocol_loop s proto)"

definition encodeHostnames :: "icu \<Rightarrow> wtf_string \<Rightarrow> wtf_string" where
  "encodeHostnames u s =
     (if view_protocol_loop s (lit ''mailto'') then encode_ranges u s 0 (findHostnamesInMailToURL s 0)
      else case findHostnameInHierarchicalURL s of
          Some (first, second) \<Rightarrow>
            substring s 0 first @ appendEncodedHostname u (substring s first (second - first))
              @ substring_from s second
        | None \<Rightarrow> s)"

text \<open>
  A text encoding as \<open>init\<close> uses it: whether it is UTF-8, whether it is valid, and its
  encoder with \<open>URLEncodedEntitiesForUnencodables\<close>. The output of \<open>encodeRelativeString\<close>
  ends at its first NUL, since \<open>init\<close> takes its \<open>strlen\<close>.
\<close>

record text_encoding =
  enc_isUTF8 :: bool
  enc_isValid :: bool
  enc_encode :: "wtf_string \<Rightarrow> wtf_string"

definition encodeRelativeString :: "icu \<Rightarrow> (wtf_string \<Rightarrow> wtf_string) \<Rightarrow> text_encoding \<Rightarrow> wtf_string \<Rightarrow> wtf_string" where
  "encodeRelativeString u utf8Encode encoding rel =
     (let s = encodeHostnames u rel;
          pathEndPos = (if \<not> enc_isUTF8 encoding \<and> enc_isValid encoding \<and> \<not> protocolIs rel (lit ''mailto'')
                       \<and> \<not> protocolIs rel (lit ''data'') \<and> \<not> protocolIsJavaScript rel
                     then findFirstOf s 0 (lit ''#?'') else None) in
      case pathEndPos of None \<Rightarrow> utf8Encode s
      | Some k \<Rightarrow> utf8Encode (take k s) @ enc_encode encoding (drop k s))"

definition substituteBackslashes :: "wtf_string \<Rightarrow> wtf_string" where
  "substituteBackslashes s =
     (let questionPos = find_char (ch CHR ''?'') s 0; hashPos = find_char (ch CHR ''#'') s 0;
          pathEndPos = (case (hashPos, questionPos) of
              (Some h, None) \<Rightarrow> h
            | (Some h, Some q) \<Rightarrow> if q > h then h else q
            | (None, Some q) \<Rightarrow> q
            | (None, None) \<Rightarrow> length s) in
      replace_char (left s pathEndPos) 0x5C (ch CHR ''/'') @ substring_from s pathEndPos)"

section \<open>Resolving a relative reference\<close>

definition shouldTrimFromURL :: "code_unit \<Rightarrow> bool" where
  "shouldTrimFromURL c \<longleftrightarrow> c \<le> 0x20"

definition trimFromURL :: "wtf_string \<Rightarrow> wtf_string" where
  "trimFromURL s = rev (dropWhile shouldTrimFromURL (rev (dropWhile shouldTrimFromURL s)))"

definition appendASCII :: "wtf_string \<Rightarrow> wtf_string \<Rightarrow> wtf_string" where
  "appendASCII base rel = copyASCII base @ rel"

text \<open>
  The loop over the relative path: \<open>pre\<close> is the text before \<open>bufferPathStart\<close>, \<open>buf\<close> what was
  written from there on. \<open>bufferPos[-1]\<close> is the last character of either.
\<close>

definition last_written :: "wtf_string \<Rightarrow> wtf_string \<Rightarrow> code_unit" where
  "last_written pre buf = (if buf \<noteq> [] then last buf else if pre \<noteq> [] then last pre else 0)"

text \<open>\<open>while (bufferPos > bufferPathStart + 1 && bufferPos[-1] != '/') bufferPos--;\<close>\<close>

fun rewind_segment :: "wtf_string \<Rightarrow> wtf_string" where
  "rewind_segment (c # d # rbuf) = (if c \<noteq> ch CHR ''/'' then rewind_segment (d # rbuf) else c # d # rbuf)"
| "rewind_segment rbuf = rbuf"

function relative_path_loop :: "wtf_string \<Rightarrow> wtf_string \<Rightarrow> wtf_string \<Rightarrow> wtf_string \<times> wtf_string" where
  "relative_path_loop pre rel buf =
     (if at rel 0 = 0 \<or> at rel 0 = ch CHR ''?'' \<or> at rel 0 = ch CHR ''#'' then (buf, rel)
      else if at rel 0 = ch CHR ''.'' \<and> last_written pre buf = ch CHR ''/'' \<and> isPathSegmentEndChar (at rel 1) then
        relative_path_loop pre (if at rel 1 = ch CHR ''/'' then drop 2 rel else drop 1 rel) buf
      else if at rel 0 = ch CHR ''.'' \<and> last_written pre buf = ch CHR ''/''
              \<and> at rel 1 = ch CHR ''.'' \<and> isPathSegmentEndChar (at rel 2) then
        relative_path_loop pre (if at rel 2 = ch CHR ''/'' then drop 3 rel else drop 2 rel)
          (let b = (if length buf > 1 then butlast buf else buf) in rev (rewind_segment (rev b)))
      else relative_path_loop pre (drop 1 rel) (buf @ [at rel 0]))"
  by pat_completeness auto
termination
  by (relation "measure (\<lambda>(pre, rel, buf). length rel)") (auto simp: at_def split: if_splits)

declare relative_path_loop.simps [simp del]

definition resolve_relative_path :: "url \<Rightarrow> wtf_string \<Rightarrow> wtf_string" where
  "resolve_relative_path base str =
     (let baseString = copyASCII (m_string base);
          pre = take (m_portEnd base) baseString;
          basePath = rewind_to_slash (between (m_portEnd base) (m_pathEnd base) baseString);
          buf = (if basePath = [] then
                   if m_schemeEnd base + 1 \<noteq> m_pathEnd base \<and> at str 0 \<noteq> 0 \<and> at str 0 \<noteq> ch CHR ''?''
                      \<and> at str 0 \<noteq> ch CHR ''#''
                   then [ch CHR ''/''] else []
                 else copyPathRemovingDots basePath 0 (length basePath));
          (buf', rest) = relative_path_loop pre str buf in
      pre @ buf' @ takeWhile (\<lambda>c. c \<noteq> 0) rest)"

definition url_init ::
    "icu \<Rightarrow> (wtf_string \<Rightarrow> wtf_string) \<Rightarrow> url \<Rightarrow> wtf_string \<Rightarrow> text_encoding \<Rightarrow> url" where
  "url_init u utf8Encode base relative encoding =
     (if \<not> m_isValid base \<and> \<not> url_isEmpty base then invalid_url relative
      else let rel = (if 0x5C \<in> set relative \<and> \<not> (protocolIsJavaScript relative \<or> protocolIs relative (lit ''data''))
                      then substituteBackslashes relative else relative);
               str = (if containsOnlyASCII rel then copyASCII rel
                      else takeWhile (\<lambda>c. c \<noteq> 0) (encodeRelativeString u utf8Encode encoding rel));
               str = trimFromURL str;
               p = (if isSchemeFirstChar (at str 0) then scan_while isSchemeChar str 1 else 0);
               hasScheme = (isSchemeFirstChar (at str 0) \<and> at str p = ch CHR '':'');
               sameScheme = (hasScheme \<and> at str (p + 1) \<noteq> ch CHR ''/''
                  \<and> equalIgnoringCase u (protocol base) (take p str) \<and> isHierarchical base) in
        if hasScheme \<and> \<not> sameScheme then parse_chars str (Some relative)
        else let str = (if sameScheme then drop (p + 1) str else str) in
          if \<not> isHierarchical base then
            if at str 0 = ch CHR ''#'' then parse_chars (appendASCII (left (m_string base) (m_queryEnd base)) str) (Some relative)
            else invalid_url relative
          else if at str 0 = 0 then removeFragmentIdentifier base
          else if at str 0 = ch CHR ''#'' then
            parse_chars (appendASCII (left (m_string base) (m_queryEnd base)) str) (Some relative)
          else if at str 0 = ch CHR ''?'' then
            parse_chars (appendASCII (left (m_string base) (m_pathEnd base)) str) (Some relative)
          else if at str 0 = ch CHR ''/'' then
            if at str 1 = ch CHR ''/''
            then parse_chars (appendASCII (left (m_string base) (m_schemeEnd base + 1)) str) (Some relative)
            else parse_chars (appendASCII (left (m_string base) (m_portEnd base)) str) (Some relative)
          else parse_chars (resolve_relative_path base str) (Some relative))"

section \<open>Editing a canonical URL\<close>

lemma printable_print_url:
  assumes "canonical_parts p"
  shows "list_all printable (print_url p)"
proof -
  have "list_all printable (p_scheme p)" "list_all printable (p_user p)" "list_all printable (p_password p)"
    "list_all printable (p_host p)" "list_all printable (p_port p)" "list_all printable (p_path p)"
    using assms unfolding canonical_parts_def
    by (blast intro: list_all_mono printable_classes, blast intro: list_all_mono printable_classes,
        blast intro: list_all_mono printable_classes, blast intro: list_all_mono printable_classes,
        blast intro: list_all_mono printable_classes, auto intro: list_all_mono simp: stays_def)
  moreover have "list_all printable (p_query p)"
    using canonical_tail(3) [OF assms] by (auto elim!: list_all_mono simp: stays_def printable_def)
  moreover have "list_all printable (p_fragment p)"
    using canonical_tail(4) [OF assms] by (auto simp: printable_def)
  ultimately show ?thesis by (simp add: print_url_def print_userinfo_def print_port_def printable_def)
qed

lemma bytes_print_url: "canonical_parts p \<Longrightarrow> bytes (print_url p)"
  by (rule list_all_mono [OF printable_print_url]) (simp_all add: printable_def)

lemma parse_print:
  assumes "canonical_parts p"
  shows "parse (print_url p) =
    write_url (p_scheme p \<in> {lit ''http'', lit ''https''}) (Some (print_url p)) (p_scheme p) (parts_text p)
      (p_path p) (p_query p) (p_fragment p)"
proof -
  have "copyASCII (print_url p) = print_url p"
    using bytes_print_url [OF assms] by (simp add: copyASCII_def list_all_iff map_idI)
  then show ?thesis unfolding parse_def by (simp only: parse_print_write [OF assms])
qed

lemma m_isValid_parse_print: "canonical_parts p \<Longrightarrow> m_isValid (parse (print_url p))"
  by (simp add: parse_print write_url_ends)

lemma m_string_parse_print: "canonical_parts p \<Longrightarrow> m_string (parse (print_url p)) = print_url p"
  by (subst parse_print, assumption)
    (simp add: m_string_write_url parts_text_def print_url_def print_userinfo_def lit_def)

definition scheme_text :: "url_parts \<Rightarrow> wtf_string" where
  "scheme_text p = p_scheme p @ [58, 47, 47]"

definition tail_text :: "url_parts \<Rightarrow> wtf_string" where
  "tail_text p = p_host p @ print_port p @ p_path p @ p_query p @ p_fragment p"

lemma parse_print_ends:
  assumes "canonical_parts p"
  defines "u \<equiv> parse (print_url p)"
  shows "m_userStart u = length (scheme_text p)"
    "m_userEnd u = length (scheme_text p) + length (p_user p)"
    "m_passwordEnd u = length (scheme_text p) + length (p_user p)
       + (if p_password p = [] then 0 else 1 + length (p_password p))"
    "m_hostEnd u = length (scheme_text p) + length (print_userinfo p) + length (p_host p)"
    "m_portEnd u = length (scheme_text p) + length (print_userinfo p) + length (p_host p) + length (print_port p)"
    "m_pathEnd u = length (scheme_text p) + length (print_userinfo p) + length (p_host p) + length (print_port p) + length (p_path p)"
    "m_queryEnd u = length (scheme_text p) + length (print_userinfo p) + length (p_host p) + length (print_port p)
       + length (p_path p) + length (p_query p)"
    "url_hostStart u = length (scheme_text p) + length (print_userinfo p)"
    "m_schemeEnd u = length (p_scheme p)"
  unfolding u_def parse_print [OF assms(1)]
  by (simp_all add: write_url_ends parts_text_def scheme_text_def print_userinfo_def lit_def url_hostStart_def)

lemma print_url_split: "print_url p = scheme_text p @ print_userinfo p @ tail_text p"
  by (simp add: print_url_def scheme_text_def tail_text_def)

lemma host_no_at:
  assumes "canonical_parts p"
  shows "at (tail_text p) 0 \<noteq> 64" "p_host p \<noteq> []"
proof -
  show h: "p_host p \<noteq> []" using assms by (simp add: canonical_parts_def)
  have "list_all (\<lambda>c. c \<noteq> 64) (p_host p)"
    using assms unfolding canonical_parts_def
    by (elim conjE) (erule list_all_mono, auto simp: char_class alpha_def digit_def)
  with h show "at (tail_text p) 0 \<noteq> 64" by (cases "p_host p") (simp_all add: tail_text_def)
qed

lemma at_prefix_add: "at (pre @ xs @ ys) (length pre + length xs) = at ys 0"
  by (metis at_append_0 append_assoc length_append)

lemma url_parts_unchanged [simp]:
  "p_user p = [] \<Longrightarrow> p\<lparr>p_user := []\<rparr> = p" "p_password p = [] \<Longrightarrow> p\<lparr>p_password := []\<rparr> = p"
  by simp_all

lemma setUser_empty:
  assumes c: "canonical_parts p"
  shows "setUser (parse (print_url p)) [] = parse (print_url (p\<lparr>p_user := []\<rparr>))"
proof -
  define u where "u = parse (print_url p)"
  note ends = parse_print_ends [OF c, folded u_def] m_isValid_parse_print [OF c, folded u_def]
  have str: "m_string u = scheme_text p @ print_userinfo p @ tail_text p"
    using m_string_parse_print [OF c] by (simp add: u_def print_url_split)
  have new: "print_url (p\<lparr>p_user := []\<rparr>) = scheme_text p @
      (if p_password p = [] then [] else 58 # p_password p @ [64]) @ tail_text p"
    by (simp add: print_url_def print_userinfo_def tail_text_def scheme_text_def print_port_def)
  have "setUser u [] = (if p_user p = [] then u else parse (print_url (p\<lparr>p_user := []\<rparr>)))"
    unfolding new using host_no_at [OF c] ends at_prefix_add [of "scheme_text p" "p_user p"]
    by (simp add: setUser_def str print_userinfo_def left_take substring_from_drop)
  then show ?thesis by (simp add: u_def split: if_splits)
qed

lemma setPass_empty:
  assumes c: "canonical_parts p"
  shows "setPass (parse (print_url p)) [] = parse (print_url (p\<lparr>p_password := []\<rparr>))"
proof -
  define u where "u = parse (print_url p)"
  note ends = parse_print_ends [OF c, folded u_def] m_isValid_parse_print [OF c, folded u_def]
  have str: "m_string u = scheme_text p @ print_userinfo p @ tail_text p"
    using m_string_parse_print [OF c] by (simp add: u_def print_url_split)
  have new: "print_url (p\<lparr>p_password := []\<rparr>) = scheme_text p @
      (if p_user p = [] then [] else p_user p @ [64]) @ tail_text p"
    by (simp add: print_url_def print_userinfo_def tail_text_def scheme_text_def print_port_def)
  have "setPass u [] = (if p_password p = [] then u else parse (print_url (p\<lparr>p_password := []\<rparr>)))"
    unfolding new using host_no_at [OF c] ends at_prefix_add [of "scheme_text p" "p_user p"]
      at_prefix_add [of "scheme_text p" "p_user p @ 58 # p_password p"]
      at_prefix_add [of "scheme_text p" "58 # p_password p"]
    by (simp add: setPass_def str print_userinfo_def left_take substring_from_drop)
  then show ?thesis by (simp add: u_def split: if_splits)
qed

lemma print_update [simp]:
  "print_userinfo (p\<lparr>p_fragment := f\<rparr>) = print_userinfo p" "print_port (p\<lparr>p_fragment := f\<rparr>) = print_port p"
  "print_userinfo (p\<lparr>p_query := q\<rparr>) = print_userinfo p" "print_port (p\<lparr>p_query := q\<rparr>) = print_port p"
  "print_userinfo (p\<lparr>p_path := w\<rparr>) = print_userinfo p" "print_port (p\<lparr>p_path := w\<rparr>) = print_port p"
  "print_userinfo (p\<lparr>p_scheme := v\<rparr>) = print_userinfo p" "print_port (p\<lparr>p_scheme := v\<rparr>) = print_port p"
  "scheme_text (p\<lparr>p_fragment := f\<rparr>) = scheme_text p" "scheme_text (p\<lparr>p_query := q\<rparr>) = scheme_text p"
  "scheme_text (p\<lparr>p_path := w\<rparr>) = scheme_text p"
  by (simp_all add: print_userinfo_def print_port_def scheme_text_def)

lemma removeFragmentIdentifier_print:
  assumes c: "canonical_parts p"
  shows "removeFragmentIdentifier (parse (print_url p)) = parse (print_url (p\<lparr>p_fragment := []\<rparr>))"
proof -
  define u where "u = parse (print_url p)"
  note ends = parse_print_ends [OF c, folded u_def] m_isValid_parse_print [OF c, folded u_def]
  have "left (m_string u) (m_queryEnd u) = print_url (p\<lparr>p_fragment := []\<rparr>)"
    using m_string_parse_print [OF c] ends
    by (simp add: u_def print_url_split tail_text_def left_take)
  then show ?thesis using ends by (simp add: removeFragmentIdentifier_def flip: u_def)
qed

lemma canonical_without:
  assumes "canonical_parts p"
  shows "canonical_parts (p\<lparr>p_user := []\<rparr>)" "canonical_parts (p\<lparr>p_password := []\<rparr>)"
    "canonical_parts (p\<lparr>p_fragment := []\<rparr>)"
  using assms by (simp_all add: canonical_parts_def)



section \<open>References on a canonical base\<close>

text \<open>
  The references that start with a separator, and what RFC 3986 makes of them on a base:
  the named parts come from the reference, the parts before them from the base.
\<close>

datatype reference = Fragment_ref | Query_ref | Path_ref | Network_ref

fun reference_text :: "reference \<Rightarrow> url_parts \<Rightarrow> wtf_string" where
  "reference_text Fragment_ref r = p_fragment r"
| "reference_text Query_ref r = p_query r @ p_fragment r"
| "reference_text Path_ref r = p_path r @ p_query r @ p_fragment r"
| "reference_text Network_ref r = [47, 47] @ print_userinfo r @ tail_text r"

fun refer :: "reference \<Rightarrow> url_parts \<Rightarrow> url_parts \<Rightarrow> url_parts" where
  "refer Fragment_ref p r = p\<lparr>p_fragment := p_fragment r\<rparr>"
| "refer Query_ref p r = p\<lparr>p_query := p_query r, p_fragment := p_fragment r\<rparr>"
| "refer Path_ref p r = p\<lparr>p_path := p_path r, p_query := p_query r, p_fragment := p_fragment r\<rparr>"
| "refer Network_ref p r = r\<lparr>p_scheme := p_scheme p\<rparr>"

fun leading_part :: "reference \<Rightarrow> url_parts \<Rightarrow> bool" where
  "leading_part Fragment_ref r = (p_fragment r \<noteq> [])"
| "leading_part Query_ref r = (p_query r \<noteq> [])"
| "leading_part Path_ref r = (p_path r \<noteq> [] \<and> at (p_path r) 1 \<noteq> 47)"
| "leading_part Network_ref r = True"

definition base_prefix :: "reference \<Rightarrow> url \<Rightarrow> wtf_string" where
  "base_prefix k u = left (m_string u) (case k of Fragment_ref \<Rightarrow> m_queryEnd u | Query_ref \<Rightarrow> m_pathEnd u
     | Path_ref \<Rightarrow> m_portEnd u | Network_ref \<Rightarrow> m_schemeEnd u + 1)"

lemma base_prefix_reference:
  assumes "canonical_parts p"
  shows "base_prefix k (parse (print_url p)) @ reference_text k r = print_url (refer k p r)"
proof -
  define u where "u = parse (print_url p)"
  note ends = parse_print_ends [OF assms, folded u_def]
  have "m_string u = print_url p" using m_string_parse_print [OF assms] by (simp add: u_def)
  then show ?thesis unfolding u_def [symmetric]
    using ends(9) by (cases k) (simp_all add: base_prefix_def ends left_take print_url_split tail_text_def,
      simp add: scheme_text_def)
qed

lemma trimFromURL_keep:
  "s \<noteq> [] \<Longrightarrow> hd s > 32 \<Longrightarrow> last s > 32 \<Longrightarrow> trimFromURL s = s"
  using dropWhile_eq_self_iff [of shouldTrimFromURL s] dropWhile_eq_self_iff [of shouldTrimFromURL "rev s"]
  by (simp add: hd_rev trimFromURL_def shouldTrimFromURL_def)

lemma isHierarchical_print:
  assumes "canonical_parts p"
  shows "isHierarchical (parse (print_url p))"
  using parse_print_ends(9) [OF assms] m_isValid_parse_print [OF assms] m_string_parse_print [OF assms]
    at_append_add [of "p_scheme p" "58 # 47 # 47 # rest" 1 for rest]
  by (simp add: isHierarchical_def print_url_def)

lemma reference_text_head:
  assumes "canonical_parts (refer k p r)" "leading_part k r"
  shows "at (reference_text k r) 0 = (case k of Fragment_ref \<Rightarrow> 35 | Query_ref \<Rightarrow> 63 | _ \<Rightarrow> 47)"
    "k = Path_ref \<Longrightarrow> at (reference_text k r) 1 \<noteq> 47" "k = Network_ref \<Longrightarrow> at (reference_text k r) 1 = 47"
proof -
  have h: "p_fragment r = [] \<or> at (p_fragment r) 0 = 35"
    "k \<noteq> Fragment_ref \<Longrightarrow> p_query r = [] \<or> at (p_query r) 0 = 63"
    "k = Path_ref \<Longrightarrow> p_path r = [] \<or> at (p_path r) 0 = 47"
    using canonical_tail(4) [OF assms(1)] canonical_tail(3) [OF assms(1)] canonical_tail(2) [OF assms(1)]
    by (cases k; force)+
  have head: "xs \<noteq> [] \<Longrightarrow> at (xs @ ys) 0 = at xs 0" for xs ys by (cases xs) simp_all
  show "at (reference_text k r) 0 = (case k of Fragment_ref \<Rightarrow> 35 | Query_ref \<Rightarrow> 63 | _ \<Rightarrow> 47)"
    using h assms(2) by (cases k) (simp_all add: head)
  show "at (reference_text k r) 1 \<noteq> 47" if k: "k = Path_ref"
  proof -
    obtain w where "p_path r = 47 # w" using h(3) [OF k] assms(2) unfolding k by (cases "p_path r") simp_all
    moreover have "at (p_query r @ p_fragment r) 0 \<noteq> 47" 
      using h k by (cases "p_query r"; cases "p_fragment r") auto
    ultimately show ?thesis using k assms(2) by (cases w) simp_all
  qed
  show "k = Network_ref \<Longrightarrow> at (reference_text k r) 1 = 47" by simp
qed

lemma url_init_separator:
  assumes "isHierarchical base" "m_isValid base" "0x5C \<notin> set s" "containsOnlyASCII s" "copyASCII s = s"
    and "trimFromURL s = s" "at s 0 \<in> {35, 47, 63}"
  shows "url_init icu utf8Encode base s encoding =
      (if at s 0 = 35 then parse_chars (copyASCII (base_prefix Fragment_ref base) @ s) (Some s)
       else if at s 0 = 63 then parse_chars (copyASCII (base_prefix Query_ref base) @ s) (Some s)
       else if at s 1 = 47 then parse_chars (copyASCII (base_prefix Network_ref base) @ s) (Some s)
       else parse_chars (copyASCII (base_prefix Path_ref base) @ s) (Some s))"
proof -
  have nosch: "\<not> isSchemeFirstChar (at s 0)" using assms(7) by (auto simp: char_class alpha_def)
  have "at s 0 \<noteq> 0" using assms(7) by auto
  with assms(7) show ?thesis
    by (simp add: url_init_def Let_def nosch assms(1-6) appendASCII_def base_prefix_def) blast
qed

text \<open>
  C3: Resolving a fragment, query, absolute-path or network-path reference on a canonical
  base gives the URL of the merged components, whatever the text encoding of the document
  is: the parts named in the reference replace those of the base, and the base's parts
  after them are dropped.
\<close>

theorem url_init_reference:
  assumes "canonical_parts p" "canonical_parts (refer k p r)" "leading_part k r"
    and "0x5C \<notin> set (reference_text k r)" "last (reference_text k r) \<noteq> 32"
  shows "url_init icu utf8Encode (parse (print_url p)) (reference_text k r) encoding
    = parse (print_url (refer k p r))"
proof -
  define u where "u = parse (print_url p)"
  define s where "s = reference_text k r"
  have full: "base_prefix k u @ s = print_url (refer k p r)"
    unfolding u_def s_def by (rule base_prefix_reference [OF assms(1)])
  have "list_all printable (base_prefix k u @ s)" unfolding full by (rule printable_print_url [OF assms(2)])
  then have pr: "list_all printable (base_prefix k u)" "list_all printable s" by simp_all
  have h: "at s 0 = (case k of Fragment_ref \<Rightarrow> 35 | Query_ref \<Rightarrow> 63 | _ \<Rightarrow> 47)"
    "k = Path_ref \<Longrightarrow> at s 1 \<noteq> 47" "k = Network_ref \<Longrightarrow> at s 1 = 47"
    using reference_text_head [OF assms(2,3)] by (simp_all add: s_def)
  then have ne: "s \<noteq> []" by (auto split: reference.splits)
  have trim: "trimFromURL s = s" 
    using h(1) ne assms(5) pr(2) by (intro trimFromURL_keep) 
      (auto simp: list_all_iff printable_def at_def hd_conv_nth less_le s_def split: reference.splits)
  have copy: "copyASCII s = s" "copyASCII (base_prefix k u) = base_prefix k u"
    using pr by (auto simp: copyASCII_def printable_def list_all_iff intro!: map_idI)
  have asc: "containsOnlyASCII s"
    using pr(2) by (auto simp: containsOnlyASCII_def isASCII_def printable_def list_all_iff)
  have bs: "0x5C \<notin> set s" using assms(4) by (simp add: s_def)
  have u: "isHierarchical u" "m_isValid u"
    using isHierarchical_print [OF assms(1)] m_isValid_parse_print [OF assms(1)] by (simp_all add: u_def)
  have "url_init icu utf8Encode u s encoding =
      (if at s 0 = 35 then parse_chars (copyASCII (base_prefix Fragment_ref u) @ s) (Some s)
       else if at s 0 = 63 then parse_chars (copyASCII (base_prefix Query_ref u) @ s) (Some s)
       else if at s 1 = 47 then parse_chars (copyASCII (base_prefix Network_ref u) @ s) (Some s)
       else parse_chars (copyASCII (base_prefix Path_ref u) @ s) (Some s))"
    by (rule url_init_separator [OF u bs asc copy(1) trim]) (use h(1) in \<open>simp split: reference.splits\<close>)
  with h have "url_init icu utf8Encode u s encoding = parse_chars (copyASCII (base_prefix k u) @ s) (Some s)"
    by (cases k) simp_all
  then have "url_init icu utf8Encode u s encoding = parse_chars (base_prefix k u @ s) (Some s)"
    by (simp add: copy)
  also have "\<dots> = parse (print_url (refer k p r))"
    unfolding full parse_print [OF assms(2)] parse_print_write [OF assms(2)] by (simp add: write_url_def Let_def)
  finally show ?thesis by (simp add: u_def s_def)
qed


theorem url_init_reference_witness:
  "m_string (url_init ascii_icu (\<lambda>s. s) (parse (print_url sample_parts)) (lit ''/z?k'')
     \<lparr>enc_isUTF8 = True, enc_isValid = True, enc_encode = (\<lambda>s. s)\<rparr>) = lit ''http://me:pw@a.org:81/z?k''"
proof -
  let ?r = "sample_parts\<lparr>p_path := lit ''/z'', p_query := lit ''?k'', p_fragment := []\<rparr>"
  have "list_all stays (lit ''/z'')" "list_all (\<lambda>c. stays c \<or> c = 63) (lit ''k'')" "\<not> slash_dot_loop 47 (lit ''z'')"
    by code_simp+
  then have c: "canonical_parts (refer Path_ref sample_parts ?r)"
    using sample_parts_canonical by (simp add: canonical_parts_def lit_def)
  moreover have "leading_part Path_ref ?r" by (simp add: lit_def)
  ultimately show ?thesis
    using url_init_reference [OF sample_parts_canonical, of Path_ref ?r] m_string_parse_print [OF c]
    by (simp add: sample_parts_def lit_def print_url_def print_userinfo_def print_port_def)
qed

text \<open>
  A host name behind a user name and a password is not found: the search for the end of the
  host stops at the colon before the password, so the range found is the user name.
\<close>

theorem findHostnameInHierarchicalURL_password:
  "findHostnameInHierarchicalURL (lit ''http://u:p@h/'') = Some (7, 8)"
  by code_simp

end
