(* ===== verification/Web_Socket_Frame.thy ===== *)
theory Web_Socket_Frame
  imports Prelude
begin

text \<open>
  The WebSocket frame format (\<open>WebSocketFrame.cpp\<close>): a frame is made into bytes and parsed
  from them. Bytes are 8-bit words, the length read from the wire a 64-bit word as in the
  code, and \<open>size_t\<close> has 64 bits. Parsing unmasks the payload in place; the model returns
  the unmasked payload in the frame.
\<close>

unbundle bit_operations_syntax

section \<open>Constants and frames\<close>

definition finalBit :: byte where "finalBit = 0x80"
definition compressBit :: byte where "compressBit = 0x40"
definition reserved2Bit :: byte where "reserved2Bit = 0x20"
definition reserved3Bit :: byte where "reserved3Bit = 0x10"
definition opCodeMask :: byte where "opCodeMask = 0xF"
definition maskBit :: byte where "maskBit = 0x80"
definition payloadLengthMask :: byte where "payloadLengthMask = 0x7F"
definition maxPayloadLengthWithoutExtendedLengthField :: nat where
  "maxPayloadLengthWithoutExtendedLengthField = 125"
definition payloadLengthWithTwoByteExtendedLengthField :: nat where
  "payloadLengthWithTwoByteExtendedLengthField = 126"
definition payloadLengthWithEightByteExtendedLengthField :: nat where
  "payloadLengthWithEightByteExtendedLengthField = 127"
definition maskingKeyWidthInBytes :: nat where "maskingKeyWidthInBytes = 4"

lemmas frame_constants = finalBit_def compressBit_def reserved2Bit_def reserved3Bit_def opCodeMask_def
  maskBit_def payloadLengthMask_def maxPayloadLengthWithoutExtendedLengthField_def
  payloadLengthWithTwoByteExtendedLengthField_def payloadLengthWithEightByteExtendedLengthField_def
  maskingKeyWidthInBytes_def

text \<open>The operation code is kept as the byte it is cast from.\<close>

record ws_frame =
  f_opCode :: byte
  f_final :: bool
  f_compress :: bool
  f_reserved2 :: bool
  f_reserved3 :: bool
  f_masked :: bool
  f_payload :: "byte list"

definition OpCodeContinuation :: byte where "OpCodeContinuation = 0x0"
definition OpCodeText :: byte where "OpCodeText = 0x1"
definition OpCodeBinary :: byte where "OpCodeBinary = 0x2"
definition OpCodeClose :: byte where "OpCodeClose = 0x8"
definition OpCodePing :: byte where "OpCodePing = 0x9"
definition OpCodePong :: byte where "OpCodePong = 0xA"

lemmas op_codes = OpCodeContinuation_def OpCodeText_def OpCodeBinary_def OpCodeClose_def OpCodePing_def
  OpCodePong_def

definition isNonControlOpCode :: "byte \<Rightarrow> bool" where
  "isNonControlOpCode c \<longleftrightarrow> c = OpCodeContinuation \<or> c = OpCodeText \<or> c = OpCodeBinary"

definition isControlOpCode :: "byte \<Rightarrow> bool" where
  "isControlOpCode c \<longleftrightarrow> c = OpCodeClose \<or> c = OpCodePing \<or> c = OpCodePong"

definition isReservedOpCode :: "byte \<Rightarrow> bool" where
  "isReservedOpCode c \<longleftrightarrow> \<not> isNonControlOpCode c \<and> \<not> isControlOpCode c"

definition needsExtendedLengthField :: "nat \<Rightarrow> bool" where
  "needsExtendedLengthField payloadLength \<longleftrightarrow> payloadLength > maxPayloadLengthWithoutExtendedLengthField"

text \<open>The constructor, whose reserved bits are off.\<close>

definition WebSocketFrame :: "byte \<Rightarrow> bool \<Rightarrow> bool \<Rightarrow> bool \<Rightarrow> byte list \<Rightarrow> ws_frame" where
  "WebSocketFrame opCode final compress masked payload =
     \<lparr>f_opCode = opCode, f_final = final, f_compress = compress, f_reserved2 = False, f_reserved3 = False,
      f_masked = masked, f_payload = payload\<rparr>"

section \<open>Parsing\<close>

datatype frame_error = NotMinimalLength | LengthTooLarge "64 word"

text \<open>The end of a parsed frame is its distance from the start of the data.\<close>

datatype ParseFrameResult = FrameOK ws_frame nat | FrameIncomplete | FrameError frame_error

text \<open>The loop over the extended length, most significant byte first.\<close>

fun read_length :: "64 word \<Rightarrow> byte list \<Rightarrow> 64 word" where
  "read_length v [] = v"
| "read_length v (b # bs) = read_length (push_bit 8 v OR ucast b) bs"

definition maxPayloadLength :: "64 word" where
  "maxPayloadLength = 0x7FFFFFFFFFFFFFFF"

text \<open>Exclusive or with the key, used in both directions.\<close>

definition mask_payload :: "byte list \<Rightarrow> byte list \<Rightarrow> byte list" where
  "mask_payload maskingKey payload =
     map (\<lambda>i. payload ! i XOR maskingKey ! (i mod maskingKeyWidthInBytes)) [0..<length payload]"

text \<open>
  What follows the two header bytes: the payload length and the rest of the data, after
  the extended length field when there is one.
\<close>

definition parse_length :: "byte \<Rightarrow> byte list \<Rightarrow> (64 word \<times> byte list) option + frame_error" where
  "parse_length secondByte p =
     (let payloadLength = unat (secondByte AND payloadLengthMask) in
      if payloadLength > maxPayloadLengthWithoutExtendedLengthField then
        let extendedPayloadLengthSize = (if payloadLength = payloadLengthWithTwoByteExtendedLengthField then 2 else 8) in
        if length p < extendedPayloadLengthSize then Inl None
        else let payloadLength64 = read_length 0 (take extendedPayloadLengthSize p) in
          if extendedPayloadLengthSize = 2 \<and> unat payloadLength64 \<le> maxPayloadLengthWithoutExtendedLengthField
          then Inr NotMinimalLength
          else if extendedPayloadLengthSize = 8 \<and> payloadLength64 \<le> 0xFFFF then Inr NotMinimalLength
          else Inl (Some (payloadLength64, drop extendedPayloadLengthSize p))
      else Inl (Some (of_nat payloadLength, p)))"

text \<open>The rest of the parse: \<open>q\<close> is the data from \<open>p\<close> on, and \<open>consumed\<close> what lies before it.\<close>

definition parse_payload :: "byte \<Rightarrow> byte \<Rightarrow> nat \<Rightarrow> 64 word \<Rightarrow> byte list \<Rightarrow> ParseFrameResult" where
  "parse_payload firstByte secondByte consumed payloadLength64 q =
     (let masked = (secondByte AND maskBit \<noteq> 0);
          maskingKeyLength = (if masked then maskingKeyWidthInBytes else 0) in
      if payloadLength64 > maxPayloadLength \<or> unat payloadLength64 + maskingKeyLength \<ge> 2 ^ 64
      then FrameError (LengthTooLarge payloadLength64)
      else let payloadLength = unat payloadLength64 in
        if length q < maskingKeyLength + payloadLength then FrameIncomplete
        else let payload = take payloadLength (drop maskingKeyLength q) in
          FrameOK \<lparr>f_opCode = firstByte AND opCodeMask, f_final = (firstByte AND finalBit \<noteq> 0),
            f_compress = (firstByte AND compressBit \<noteq> 0), f_reserved2 = (firstByte AND reserved2Bit \<noteq> 0),
            f_reserved3 = (firstByte AND reserved3Bit \<noteq> 0), f_masked = masked,
            f_payload = (if masked then mask_payload (take maskingKeyWidthInBytes q) payload else payload)\<rparr>
            (consumed + maskingKeyLength + payloadLength))"

definition parseFrame :: "byte list \<Rightarrow> ParseFrameResult" where
  "parseFrame data =
     (case data of
        firstByte # secondByte # p \<Rightarrow>
          (case parse_length secondByte p of
             Inr e \<Rightarrow> FrameError e
           | Inl None \<Rightarrow> FrameIncomplete
           | Inl (Some (payloadLength64, q)) \<Rightarrow>
               parse_payload firstByte secondByte (length data - length q) payloadLength64 q)
      | _ \<Rightarrow> FrameIncomplete)"

section \<open>Making frames\<close>

text \<open>\<open>cryptographicallyRandomValues\<close> is not under the model's control: the key is an argument.\<close>

definition appendFramePayload :: "byte list \<Rightarrow> ws_frame \<Rightarrow> byte list \<Rightarrow> byte list" where
  "appendFramePayload maskingKey frame frameData =
     (if f_masked frame then frameData @ maskingKey @ mask_payload maskingKey (f_payload frame)
      else frameData @ f_payload frame)"

text \<open>The loop that fills \<open>extendedPayloadLength\<close> from its last byte.\<close>

fun fill_length :: "nat \<Rightarrow> nat \<Rightarrow> byte list" where
  "fill_length 0 remaining = []"
| "fill_length (Suc n) remaining = fill_length n (drop_bit 8 remaining) @ [of_nat (remaining AND 0xFF)]"

definition makeFrameData :: "byte list \<Rightarrow> ws_frame \<Rightarrow> byte list" where
  "makeFrameData maskingKey frame =
     (let payloadLength = length (f_payload frame);
          b0 = (if f_final frame then finalBit else 0) OR (if f_compress frame then compressBit else 0) OR f_opCode frame;
          b1 = (if f_masked frame then maskBit else 0);
          frameData =
            (if payloadLength \<le> maxPayloadLengthWithoutExtendedLengthField then [b0, b1 OR of_nat payloadLength]
             else if payloadLength \<le> 0xFFFF then
               [b0, b1 OR of_nat payloadLengthWithTwoByteExtendedLengthField,
                of_nat (drop_bit 8 (payloadLength AND 0xFF00)), of_nat (payloadLength AND 0xFF)]
             else [b0, b1 OR of_nat payloadLengthWithEightByteExtendedLengthField] @ fill_length 8 payloadLength) in
      appendFramePayload maskingKey frame frameData)"

section \<open>Lengths\<close>

text \<open>The number a sequence of bytes stands for, most significant byte first.\<close>

definition be_value :: "byte list \<Rightarrow> nat" where
  "be_value bs = foldl (\<lambda>v b. 256 * v + unat b) 0 bs"

lemma be_value_Nil [simp]: "be_value [] = 0"
  and be_value_snoc [simp]: "be_value (bs @ [b]) = 256 * be_value bs + unat b"
  by (simp_all add: be_value_def)

lemma be_value_less: "be_value bs < 256 ^ length bs"
proof (induction bs rule: rev_induct)
  case (snoc b bs)
  have "unat b < 256" using unsigned_less [of b, where ?'a = nat] by simp
  with snoc show ?case by simp
qed simp

lemma read_length_append: "read_length v (xs @ ys) = read_length (read_length v xs) ys"
  by (induction xs arbitrary: v) simp_all

lemma shift_in_byte: "push_bit 8 (v :: 64 word) OR ucast (b :: byte) = push_bit 8 v + ucast b"
  by (rule disjunctive_add [symmetric]) (auto simp: bit_simps dest: bit_imp_le_length)

lemma unat_read_length: "length bs \<le> 8 \<Longrightarrow> unat (read_length 0 bs) = be_value bs"
proof (induction bs rule: rev_induct)
  case (snoc b bs)
  have "be_value (bs @ [b]) < 256 ^ length (bs @ [b])" by (rule be_value_less)
  also have "\<dots> \<le> 256 ^ 8" using snoc.prems by (intro power_increasing) simp_all
  finally have "256 * be_value bs + unat b < 2 ^ 64" by simp
  moreover have "unat (read_length 0 bs) = be_value bs" using snoc by simp
  moreover have "read_length 0 (bs @ [b]) = 256 * read_length 0 bs + ucast b"
    by (simp only: read_length_append read_length.simps shift_in_byte) (simp add: push_bit_eq_mult)
  moreover have "unat b < 256" using unsigned_less [of b, where ?'a = nat] by simp
  ultimately show ?case
    by (simp add: unat_word_ariths unsigned_ucast_eq take_bit_eq_mod)
qed simp

lemma be_value_fill_length: "be_value (fill_length n r) = r mod 256 ^ n"
proof (induction n arbitrary: r)
  case (Suc n)
  have "unat (of_nat (r AND 0xFF) :: byte) = r mod 256"
    using take_bit_eq_mask [of 8 r]
    by (simp add: unat_of_nat take_bit_eq_mod mask_eq_exp_minus_1)
  then show ?case using Suc [of "r div 256"]
    by (simp add: drop_bit_eq_div mod_mult2_eq)
qed simp

lemma length_fill_length [simp]: "length (fill_length n r) = n"
  by (induction n arbitrary: r) simp_all

lemma read_fill_length: "r < 2 ^ 64 \<Longrightarrow> unat (read_length 0 (fill_length 8 r)) = r"
  by (simp add: unat_read_length be_value_fill_length)

lemma two_byte_length:
  assumes "n < 2 ^ 16"
  shows "unat (read_length 0 [of_nat (drop_bit 8 (n AND 0xFF00)), of_nat (n AND 0xFF)]) = n"
proof -
  have "[of_nat (drop_bit 8 (n AND 0xFF00)), of_nat (n AND 0xFF)] = fill_length 2 n"
    by (simp add: numeral_2_eq_2)
  then show ?thesis using assms by (simp add: unat_read_length be_value_fill_length)
qed

section \<open>Header bytes\<close>

lemma flag_bits:
  "(b :: byte) AND 0x80 \<noteq> 0 \<longleftrightarrow> bit b 7" "b AND 0x40 \<noteq> 0 \<longleftrightarrow> bit b 6"
  "b AND 0x20 \<noteq> 0 \<longleftrightarrow> bit b 5" "b AND 0x10 \<noteq> 0 \<longleftrightarrow> bit b 4"
  using and_exp_eq_0_iff_not_bit [of b 7] and_exp_eq_0_iff_not_bit [of b 6]
    and_exp_eq_0_iff_not_bit [of b 5] and_exp_eq_0_iff_not_bit [of b 4] by simp_all

lemma low_bits: "(b :: byte) AND 0xF = take_bit 4 b" "b AND 0x7F = take_bit 7 b"
  by (simp_all add: take_bit_eq_mask mask_eq_exp_minus_1)

lemma flag_constants: "bit (0x80 :: byte) n \<longleftrightarrow> n = 7" "bit (0x40 :: byte) n \<longleftrightarrow> n = 6"
  using bit_exp_iff [of 7 n, where ?'a = byte] bit_exp_iff [of 6 n, where ?'a = byte] by auto

lemma first_byte:
  fixes opc :: byte and fin cmp :: bool
  assumes "take_bit 4 opc = opc"
  defines "b \<equiv> (if fin then 0x80 else 0) OR (if cmp then 0x40 else 0) OR opc"
  shows "bit b 7 = fin" "bit b 6 = cmp" "\<not> bit b 5" "\<not> bit b 4" "take_bit 4 b = opc"
proof -
  have "\<not> bit opc n" if "4 \<le> n" for n
    using that assms(1) by (metis bit_take_bit_iff not_le)
  then show "bit b 7 = fin" "bit b 6 = cmp" "\<not> bit b 5" "\<not> bit b 4"
    by (auto simp: b_def bit_or_iff flag_constants)
  show "take_bit 4 b = opc" using assms(1) by (simp add: b_def)
qed

lemma second_byte:
  fixes n :: nat and m :: bool
  assumes "n < 128"
  defines "b \<equiv> (if m then 0x80 else 0) OR (of_nat n :: byte)"
  shows "bit b 7 = m" "unat (take_bit 7 b) = n"
proof -
  have n: "take_bit 7 (of_nat n :: byte) = of_nat n"
    using assms(1) by (simp add: take_bit_of_nat take_bit_nat_eq_self)
  then have "\<not> bit (of_nat n :: byte) 7" by (metis bit_take_bit_iff order.irrefl)
  then show "bit b 7 = m" by (simp add: b_def bit_or_iff flag_constants)
  have "take_bit 7 b = of_nat n" using n by (simp add: b_def)
  then show "unat (take_bit 7 b) = n" using assms(1) by (simp add: unat_of_nat)
qed

lemma mask_payload_length [simp]: "length (mask_payload k p) = length p"
  by (simp add: mask_payload_def)

lemma mask_payload_involution [simp]: "mask_payload k (mask_payload k p) = p"
  by (rule nth_equalityI) (simp_all add: mask_payload_def xor.assoc)

section \<open>Made frames are parsed\<close>

text \<open>The second byte and the extended length field that \<^const>\<open>makeFrameData\<close> writes.\<close>

definition length_code :: "nat \<Rightarrow> nat" where
  "length_code n = (if n \<le> 125 then n else if n \<le> 0xFFFF then 126 else 127)"

definition length_bytes :: "nat \<Rightarrow> byte list" where
  "length_bytes n = (if n \<le> 125 then [] else if n \<le> 0xFFFF
     then [of_nat (drop_bit 8 (n AND 0xFF00)), of_nat (n AND 0xFF)] else fill_length 8 n)"

definition first_code :: "ws_frame \<Rightarrow> byte" where
  "first_code f = (if f_final f then 0x80 else 0) OR (if f_compress f then 0x40 else 0) OR f_opCode f"

definition second_code :: "ws_frame \<Rightarrow> byte" where
  "second_code f = (if f_masked f then 0x80 else 0) OR of_nat (length_code (length (f_payload f)))"

definition key_and_payload :: "byte list \<Rightarrow> ws_frame \<Rightarrow> byte list" where
  "key_and_payload k f = (if f_masked f then k @ mask_payload k (f_payload f) else f_payload f)"

lemma makeFrameData_split:
  "makeFrameData k f = first_code f # second_code f # length_bytes (length (f_payload f)) @ key_and_payload k f"
  by (simp add: makeFrameData_def Let_def frame_constants appendFramePayload_def first_code_def second_code_def
      length_code_def length_bytes_def key_and_payload_def)

lemma length_code_less: "length_code n < 128"
  by (simp add: length_code_def)

lemma second_code_bits:
  "bit (second_code f) 7 = f_masked f" "unat (second_code f AND 0x7F) = length_code (length (f_payload f))"
  using second_byte [OF length_code_less, of "f_masked f" "length (f_payload f)"]
  by (simp_all add: second_code_def low_bits)

lemma unat_le_numeral: "(w :: 64 word) \<le> 0xFFFF \<longleftrightarrow> unat w \<le> 0xFFFF"
  by (simp add: word_le_nat_alt)

lemma word_of_unat: "unat w = n \<Longrightarrow> w = of_nat n"
  by auto

lemma parse_length_made:
  assumes "unat (b AND 0x7F) = length_code n" "n < 2 ^ 63"
  shows "parse_length b (length_bytes n @ rest) = Inl (Some (of_nat n, rest))"
proof -
  consider "n \<le> 125" | "125 < n" "n \<le> 0xFFFF" | "0xFFFF < n" by linarith
  then show ?thesis
  proof cases
    case 1
    then show ?thesis using assms(1) by (simp add: parse_length_def frame_constants length_code_def length_bytes_def)
  next
    case 2
    then have r: "unat (read_length 0 (length_bytes n)) = n" "length (length_bytes n) = 2"
      using two_byte_length [of n] by (simp_all add: length_bytes_def)
    then have "read_length 0 (length_bytes n) = of_nat n" by (simp add: word_of_unat)
    with 2 r assms show ?thesis
      by (simp add: parse_length_def frame_constants length_code_def Let_def)
  next
    case 3
    then have r: "unat (read_length 0 (length_bytes n)) = n" "length (length_bytes n) = 8"
      using read_fill_length [of n] assms(2) by (simp_all add: length_bytes_def)
    then have "read_length 0 (length_bytes n) = of_nat n" by (simp add: word_of_unat)
    with 3 r assms show ?thesis
      by (simp add: parse_length_def frame_constants length_code_def Let_def unat_le_numeral)
  qed
qed

lemma key_and_payload_parts:
  assumes "length k = 4"
  shows "length (key_and_payload k f) = (if f_masked f then 4 else 0) + length (f_payload f)"
    "(if f_masked f then mask_payload (take 4 (key_and_payload k f @ rest))
        (take (length (f_payload f)) (drop 4 (key_and_payload k f @ rest)))
      else take (length (f_payload f)) (key_and_payload k f @ rest)) = f_payload f"
  using assms by (simp_all add: key_and_payload_def)

lemma payload_not_too_large:
  assumes "n < 2 ^ 63"
  shows "unat (of_nat n :: 64 word) = n" "\<not> (of_nat n :: 64 word) > maxPayloadLength" "n + 4 < 2 ^ 64"
proof -
  show n: "unat (of_nat n :: 64 word) = n" using assms by (simp add: unat_of_nat)
  show "\<not> (of_nat n :: 64 word) > maxPayloadLength"
    using assms n by (simp add: maxPayloadLength_def word_less_nat_alt)
  show "n + 4 < 2 ^ 64" using assms by simp
qed

lemma parse_payload_made:
  assumes "length k = 4" "take_bit 4 (f_opCode f) = f_opCode f" "length (f_payload f) < 2 ^ 63"
  shows "parse_payload (first_code f) (second_code f) c (of_nat (length (f_payload f))) (key_and_payload k f @ rest) =
    FrameOK (f\<lparr>f_reserved2 := False, f_reserved3 := False\<rparr>) (c + length (key_and_payload k f))"
proof -
  note b = first_byte [OF assms(2), of "f_final f" "f_compress f", folded first_code_def]
  note n = payload_not_too_large [OF assms(3)]
  show ?thesis using n assms(1)
    by (simp add: parse_payload_def Let_def frame_constants flag_bits b second_code_bits(1) low_bits
        key_and_payload_parts key_and_payload_def)
qed

lemma parseFrame_made:
  assumes "length k = 4" "take_bit 4 (f_opCode f) = f_opCode f" "length (f_payload f) < 2 ^ 63"
  shows "parseFrame (makeFrameData k f @ rest) =
    FrameOK (f\<lparr>f_reserved2 := False, f_reserved3 := False\<rparr>) (length (makeFrameData k f))"
  using parse_length_made [OF second_code_bits(2) assms(3), of "key_and_payload k f @ rest"]
    parse_payload_made [OF assms, of _ rest]
  by (simp add: parseFrame_def makeFrameData_split)

section \<open>More data does not change a parsed frame\<close>

lemma parse_length_cases:
  obtains (short) "unat (b AND 0x7F) \<le> 125" "parse_length b p = Inl (Some (of_nat (unat (b AND 0x7F)), p))"
  | (two) "unat (b AND 0x7F) = 126" "parse_length b p = (if length p < 2 then Inl None
      else if be_value (take 2 p) \<le> 125 then Inr NotMinimalLength
      else Inl (Some (read_length 0 (take 2 p), drop 2 p)))"
  | (eight) "unat (b AND 0x7F) = 127" "parse_length b p = (if length p < 8 then Inl None
      else if be_value (take 8 p) \<le> 0xFFFF then Inr NotMinimalLength
      else Inl (Some (read_length 0 (take 8 p), drop 8 p)))"
proof -
  have "unat (b AND 0x7F) < 128"
    using take_bit_nat_less_exp [of 7 "unat b"] by (simp add: low_bits unsigned_take_bit_eq)
  then consider "unat (b AND 0x7F) \<le> 125" | "unat (b AND 0x7F) = 126" | "unat (b AND 0x7F) = 127" by linarith
  then show thesis
  proof cases
    case 1
    then show ?thesis by (intro short) (simp_all add: parse_length_def frame_constants)
  next
    case 2
    then show ?thesis
      by (intro two) (simp_all add: parse_length_def frame_constants Let_def unat_read_length)
  next
    case 3
    then show ?thesis
      by (intro eight) (simp_all add: parse_length_def frame_constants Let_def unat_read_length unat_le_numeral)
  qed
qed

lemma parse_length_extend:
  assumes "parse_length b p \<noteq> Inl None"
  shows "parse_length b (p @ m) =
    (case parse_length b p of Inl (Some (v, q)) \<Rightarrow> Inl (Some (v, q @ m)) | r \<Rightarrow> r)"
  using assms by (cases b p rule: parse_length_cases; cases b "p @ m" rule: parse_length_cases)
    (auto split: if_splits)

lemma parse_length_rest:
  assumes "parse_length b p = Inl (Some (v, q))"
  shows "length q \<le> length p"
  using assms by (cases b p rule: parse_length_cases) (auto split: if_splits)

lemma parse_payload_extend:
  "parse_payload a b c v q \<noteq> FrameIncomplete \<Longrightarrow> parse_payload a b c v (q @ m) = parse_payload a b c v q"
  by (auto simp: parse_payload_def Let_def frame_constants split: if_splits)

lemma parse_payload_end:
  "parse_payload a b c v q = FrameOK f e \<Longrightarrow> c \<le> e \<and> e \<le> c + length q"
  by (auto simp: parse_payload_def Let_def split: if_splits)

lemma parseFrame_extends:
  assumes "parseFrame data \<noteq> FrameIncomplete"
  shows "parseFrame (data @ m) = parseFrame data"
proof -
  obtain a b p where d: "data = a # b # p"
    using assms by (auto simp: parseFrame_def split: list.splits)
  consider "parse_length b p = Inl None" | e where "parse_length b p = Inr e"
    | v q where "parse_length b p = Inl (Some (v, q))"
    by (metis obj_sumE option.exhaust surj_pair)
  then show ?thesis
  proof cases
    case 3
    then have "length q \<le> length p" by (rule parse_length_rest)
    then have "length data + length m - (length q + length m) = length data - length q" by simp
    with 3 show ?thesis using assms parse_length_extend [of b p m]
      by (simp add: d parseFrame_def parse_payload_extend)
  qed (use assms parse_length_extend [of b p m] in \<open>simp_all add: d parseFrame_def\<close>)
qed

lemma parseFrame_end:
  assumes "parseFrame data = FrameOK f e"
  shows "2 \<le> e \<and> e \<le> length data"
proof -
  obtain a b p where d: "data = a # b # p"
    using assms by (auto simp: parseFrame_def split: list.splits)
  obtain v q where q: "parse_length b p = Inl (Some (v, q))" "parse_payload a b (length data - length q) v q = FrameOK f e"
    using assms by (auto simp: d parseFrame_def split: sum.splits option.splits prod.splits)
  show ?thesis using parse_payload_end [OF q(2)] parse_length_rest [OF q(1)] by (auto simp: d)
qed

section \<open>Properties\<close>

text \<open>
  C7: What \<open>makeFrameData\<close> writes is what \<open>parseFrame\<close> reads: a frame with a four-bit
  operation code and a payload below 2^63 bytes comes back with its flags and its unmasked
  payload, whatever the masking key is and whatever follows, and the parse ends exactly at
  the end of the frame.
\<close>

theorem parseFrame_makeFrameData:
  fixes final compress masked :: bool
  assumes "length key = 4" "opCode AND 0xF = opCode" "length payload < 2 ^ 63"
  defines "f \<equiv> WebSocketFrame opCode final compress masked payload"
  shows "parseFrame (makeFrameData key f @ rest) = FrameOK f (length (makeFrameData key f))"
  using parseFrame_made [of key f rest] assms by (simp add: WebSocketFrame_def low_bits)

theorem parseFrame_makeFrameData_witness:
  "parseFrame (makeFrameData [1, 2, 3, 4] (WebSocketFrame OpCodeText True False True [104, 105]) @ [7])
    = FrameOK (WebSocketFrame OpCodeText True False True [104, 105]) 8"
  using parseFrame_makeFrameData [of "[1, 2, 3, 4]" OpCodeText "[104, 105]" True False True "[7]"]
  by (simp add: OpCodeText_def makeFrameData_def WebSocketFrame_def appendFramePayload_def frame_constants)

text \<open>
  C33: Frames are self-delimiting in a stream: no strict prefix of a made frame parses,
  neither as a frame nor as an error, so the receiver waits for the rest.
\<close>

theorem parseFrame_strict_prefix:
  assumes "length key = 4" "opCode AND 0xF = opCode" "length payload < 2 ^ 63"
    and "n < length (makeFrameData key (WebSocketFrame opCode final compress masked payload))"
  shows "parseFrame (take n (makeFrameData key (WebSocketFrame opCode final compress masked payload))) = FrameIncomplete"
proof (rule ccontr)
  let ?f = "WebSocketFrame opCode final compress masked payload" and ?d = "makeFrameData key (WebSocketFrame opCode final compress masked payload)"
  assume i: "parseFrame (take n ?d) \<noteq> FrameIncomplete"
  have "parseFrame (take n ?d @ drop n ?d) = parseFrame (take n ?d)" by (rule parseFrame_extends [OF i])
  moreover have "parseFrame ?d = FrameOK ?f (length ?d)"
    using parseFrame_made [of key ?f "[]"] assms by (simp add: WebSocketFrame_def low_bits)
  ultimately have "parseFrame (take n ?d) = FrameOK ?f (length ?d)" by simp
  from parseFrame_end [OF this] assms(4) show False by simp
qed

theorem parseFrame_strict_prefix_witness:
  "parseFrame (take 4 (makeFrameData [1, 2, 3, 4] (WebSocketFrame OpCodeText True False True [104, 105]))) = FrameIncomplete"
  using parseFrame_strict_prefix [of "[1, 2, 3, 4]" OpCodeText "[104, 105]" 4 True False True]
  by (simp add: OpCodeText_def makeFrameData_def WebSocketFrame_def appendFramePayload_def frame_constants)

text \<open>
  C34: A decision of the parser is final: once the data parse as a frame or as an error, data
  received later do not change the result, and a parsed frame ends inside the data.
\<close>

theorem parseFrame_stable:
  assumes "parseFrame data \<noteq> FrameIncomplete"
  shows "parseFrame (data @ later) = parseFrame data \<and>
    (case parseFrame data of FrameOK f e \<Rightarrow> 2 \<le> e \<and> e \<le> length data | _ \<Rightarrow> True)"
  using parseFrame_extends [OF assms] parseFrame_end [of data] by (simp split: ParseFrameResult.splits)

theorem parseFrame_stable_witness:
  "parseFrame ([0x81, 0x01, 65] @ [3, 4]) = parseFrame [0x81, 0x01, 65]"
proof -
  have "parseFrame [0x81, 0x01, 65] \<noteq> FrameIncomplete"
    by (simp add: parseFrame_def parse_length_def parse_payload_def frame_constants maxPayloadLength_def)
  from parseFrame_stable [OF this] show ?thesis by blast
qed

text \<open>
  C35: The parser rejects exactly the length fields that the protocol forbids: an extended
  length that would have fitted a shorter field, and an eight-byte length of 2^63 or more.
\<close>

theorem parseFrame_error_iff:
  "(\<exists>e. parseFrame (b0 # b1 # p) = FrameError e) \<longleftrightarrow>
    (b1 AND 0x7F = 126 \<and> 2 \<le> length p \<and> be_value (take 2 p) \<le> 125) \<or>
    (b1 AND 0x7F = 127 \<and> 8 \<le> length p \<and> (be_value (take 8 p) < 0x10000 \<or> 2 ^ 63 \<le> be_value (take 8 p)))"
proof -
  have code: "b1 AND 0x7F = 126 \<longleftrightarrow> unat (b1 AND 0x7F) = 126" "b1 AND 0x7F = 127 \<longleftrightarrow> unat (b1 AND 0x7F) = 127"
    by (simp_all add: word_unat_eq_iff)
  have pay: "(\<exists>e. parse_payload b0 b1 c v q = FrameError e) \<longleftrightarrow> 2 ^ 63 \<le> unat v" for c v q
    using unsigned_less [of v, where ?'a = nat]
    by (auto simp: parse_payload_def Let_def frame_constants maxPayloadLength_def word_less_nat_alt)
  consider (short) "unat (b1 AND 0x7F) \<le> 125" | (two) "unat (b1 AND 0x7F) = 126" | (eight) "unat (b1 AND 0x7F) = 127"
    by (cases b1 p rule: parse_length_cases) auto
  then show ?thesis
  proof cases
    case short
    moreover have "parse_length b1 p = Inl (Some (of_nat (unat (b1 AND 0x7F)), p))"
      using short by (cases b1 p rule: parse_length_cases) simp_all
    moreover have "b1 AND 0x7F \<noteq> 126" "b1 AND 0x7F \<noteq> 127" using short by (auto simp: code)
    ultimately show ?thesis by (simp add: parseFrame_def pay unsigned_ucast_eq take_bit_eq_mod)
  next
    case two
    have "be_value (take 2 p) < 2 ^ 63"
      using be_value_less [of "take 2 p"] power_increasing [of "min (length p) 2" 2 "256 :: nat"] by simp
    moreover have "parse_length b1 p = (if length p < 2 then Inl None
      else if be_value (take 2 p) \<le> 125 then Inr NotMinimalLength
      else Inl (Some (read_length 0 (take 2 p), drop 2 p)))"
      using two by (cases b1 p rule: parse_length_cases) simp_all
    ultimately show ?thesis using two pay by (simp add: parseFrame_def unat_read_length flip: code)
  next
    case eight
    have "parse_length b1 p = (if length p < 8 then Inl None
      else if be_value (take 8 p) \<le> 0xFFFF then Inr NotMinimalLength
      else Inl (Some (read_length 0 (take 8 p), drop 8 p)))"
      using eight by (cases b1 p rule: parse_length_cases) simp_all
    then show ?thesis using eight pay by (simp add: parseFrame_def unat_read_length flip: code)
  qed
qed

end
