(* ===== verification/Region_Shape.thy ===== *)
theory Region_Shape
  imports Prelude
begin

text \<open>
  Rectangles and the shapes of regions (\<open>IntRect\<close>, \<open>Region::Shape\<close>). A shape keeps a vector of
  spans, each with its vertical start and an index into one vector of segment ends; the
  operations merge two shapes in one scan. Coordinates are integers; the arithmetic on them
  does not wrap, since signed overflow is undefined in the source.

  The lemmas give a shape its meaning as a set of points and show that a scan computes
  union, intersection and difference on it.
\<close>

unbundle bit_operations_syntax

section \<open>Rectangles\<close>

record int_rect =
  r_x :: int
  r_y :: int
  r_width :: int
  r_height :: int

definition maxX :: "int_rect \<Rightarrow> int" where "maxX r = r_x r + r_width r"
definition maxY :: "int_rect \<Rightarrow> int" where "maxY r = r_y r + r_height r"

definition rect_isEmpty :: "int_rect \<Rightarrow> bool" where
  "rect_isEmpty r \<longleftrightarrow> r_width r \<le> 0 \<or> r_height r \<le> 0"

definition rect_intersects :: "int_rect \<Rightarrow> int_rect \<Rightarrow> bool" where
  "rect_intersects r other \<longleftrightarrow> \<not> rect_isEmpty r \<and> \<not> rect_isEmpty other
     \<and> r_x r < maxX other \<and> r_x other < maxX r \<and> r_y r < maxY other \<and> r_y other < maxY r"

definition rect_contains :: "int_rect \<Rightarrow> int_rect \<Rightarrow> bool" where
  "rect_contains r other \<longleftrightarrow> r_x r \<le> r_x other \<and> maxX r \<ge> maxX other \<and> r_y r \<le> r_y other \<and> maxY r \<ge> maxY other"

definition rect_contains_point :: "int_rect \<Rightarrow> int \<Rightarrow> int \<Rightarrow> bool" where
  "rect_contains_point r px py \<longleftrightarrow> px \<ge> r_x r \<and> px < maxX r \<and> py \<ge> r_y r \<and> py < maxY r"

definition rect_unite :: "int_rect \<Rightarrow> int_rect \<Rightarrow> int_rect" where
  "rect_unite r other =
     (if rect_isEmpty other then r
      else if rect_isEmpty r then other
      else let l = min (r_x r) (r_x other); t = min (r_y r) (r_y other);
               ri = max (maxX r) (maxX other); b = max (maxY r) (maxY other) in
        \<lparr>r_x = l, r_y = t, r_width = ri - l, r_height = b - t\<rparr>)"

definition rect_intersect :: "int_rect \<Rightarrow> int_rect \<Rightarrow> int_rect" where
  "rect_intersect r other =
     (let l = max (r_x r) (r_x other); t = max (r_y r) (r_y other);
          ri = min (maxX r) (maxX other); b = min (maxY r) (maxY other) in
      if l \<ge> ri \<or> t \<ge> b then \<lparr>r_x = 0, r_y = 0, r_width = 0, r_height = 0\<rparr>
      else \<lparr>r_x = l, r_y = t, r_width = ri - l, r_height = b - t\<rparr>)"

definition rect_move :: "int \<Rightarrow> int \<Rightarrow> int_rect \<Rightarrow> int_rect" where
  "rect_move dx dy r = r\<lparr>r_x := r_x r + dx, r_y := r_y r + dy\<rparr>"

definition empty_rect :: int_rect where
  "empty_rect = \<lparr>r_x = 0, r_y = 0, r_width = 0, r_height = 0\<rparr>"

section \<open>Shapes\<close>

record span =
  span_y :: int
  segmentIndex :: nat

record shape =
  m_segments :: "int list"
  m_spans :: "span list"

definition shape_isEmpty :: "shape \<Rightarrow> bool" where
  "shape_isEmpty sh \<longleftrightarrow> m_spans sh = []"

definition shape_isRect :: "shape \<Rightarrow> bool" where
  "shape_isRect sh \<longleftrightarrow> length (m_spans sh) \<le> 2 \<and> length (m_segments sh) \<le> 2"

definition gridSize :: "shape \<Rightarrow> nat" where
  "gridSize sh = length (m_spans sh) * length (m_segments sh)"

definition empty_shape :: shape where
  "empty_shape = \<lparr>m_segments = [], m_spans = []\<rparr>"

text \<open>
  The segments between \<open>segments_begin(it)\<close> and \<open>segments_end(it)\<close>: up to the index of the
  next span, or up to the end of the vector for the last one.
\<close>

definition segment_end :: "shape \<Rightarrow> nat \<Rightarrow> nat" where
  "segment_end sh i = (if i + 1 < length (m_spans sh) then segmentIndex (m_spans sh ! (i + 1)) else length (m_segments sh))"

definition segments_of :: "shape \<Rightarrow> nat \<Rightarrow> int list" where
  "segments_of sh i =
     (let begin = segmentIndex (m_spans sh ! i) in
      if begin = length (m_segments sh) then [] else between begin (segment_end sh i) (m_segments sh))"

text \<open>The spans a \<open>SpanIterator\<close> visits, each with its segments.\<close>

type_synonym row = "int \<times> int list"

definition rows :: "shape \<Rightarrow> row list" where
  "rows sh = map (\<lambda>i. (span_y (m_spans sh ! i), segments_of sh i)) [0..<length (m_spans sh)]"

definition appendSpan :: "int \<Rightarrow> shape \<Rightarrow> shape" where
  "appendSpan y sh = sh\<lparr>m_spans := m_spans sh @ [\<lparr>span_y = y, segmentIndex = length (m_segments sh)\<rparr>]\<rparr>"

definition appendSegment :: "int \<Rightarrow> shape \<Rightarrow> shape" where
  "appendSegment x sh = sh\<lparr>m_segments := m_segments sh @ [x]\<rparr>"

definition canCoalesce :: "int list \<Rightarrow> shape \<Rightarrow> bool" where
  "canCoalesce segs sh =
     (if m_spans sh = [] then False
      else let lastSpan = drop (segmentIndex (last (m_spans sh))) (m_segments sh) in
        if length lastSpan \<noteq> length segs then False
        else if segs \<noteq> lastSpan then False
        else True)"

definition appendSpan_range :: "int \<Rightarrow> int list \<Rightarrow> shape \<Rightarrow> shape" where
  "appendSpan_range y segs sh =
     (if canCoalesce segs sh then sh
      else let sh' = appendSpan y sh in sh'\<lparr>m_segments := m_segments sh' @ segs\<rparr>)"

fun appendSpans :: "row list \<Rightarrow> shape \<Rightarrow> shape" where
  "appendSpans [] sh = sh"
| "appendSpans ((y, segs) # it) sh = appendSpans it (appendSpan_range y segs sh)"

definition shape_of_rect :: "int_rect \<Rightarrow> shape" where
  "shape_of_rect r =
     appendSpan (maxY r) (appendSegment (maxX r) (appendSegment (r_x r) (appendSpan (r_y r) empty_shape)))"

definition shape_translate :: "int \<Rightarrow> int \<Rightarrow> shape \<Rightarrow> shape" where
  "shape_translate dx dy sh =
     \<lparr>m_segments = map (\<lambda>x. x + dx) (m_segments sh), m_spans = map (\<lambda>s. s\<lparr>span_y := span_y s + dy\<rparr>) (m_spans sh)\<rparr>"

text \<open>
  \<open>bounds()\<close>. For a span without segments that is not at the end of the vector, the code
  reads the element at its index and the one before it, which belong to its neighbours.
\<close>

fun bounds_loop :: "shape \<Rightarrow> nat list \<Rightarrow> int \<Rightarrow> int \<Rightarrow> int \<times> int" where
  "bounds_loop sh [] lo hi = (lo, hi)"
| "bounds_loop sh (i # is) lo hi =
     (let begin = segmentIndex (m_spans sh ! i) in
      if begin = length (m_segments sh) then bounds_loop sh is lo hi
      else let firstSegment = m_segments sh ! begin; lastSegment = m_segments sh ! (segment_end sh i - 1) in
        bounds_loop sh is (if firstSegment < lo then firstSegment else lo)
          (if lastSegment > hi then lastSegment else hi))"

definition INT_MAX :: int where "INT_MAX = 2 ^ 31 - 1"
definition INT_MIN :: int where "INT_MIN = - (2 ^ 31)"

definition shape_bounds :: "shape \<Rightarrow> int_rect" where
  "shape_bounds sh =
     (if shape_isEmpty sh then empty_rect
      else let top = span_y (hd (m_spans sh)); bottom = span_y (last (m_spans sh));
               (lo, hi) = bounds_loop sh [0..<length (m_spans sh) - 1] INT_MAX INT_MIN in
        \<lparr>r_x = lo, r_y = top, r_width = hi - lo, r_height = bottom - top\<rparr>)"

section \<open>Combining shapes\<close>

record shape_operation =
  so_trySimple :: bool
  so_opCode :: nat
  so_addSegments1 :: bool
  so_addSegments2 :: bool
  so_addSpans1 :: bool
  so_addSpans2 :: bool

text \<open>\<open>so_trySimple\<close>: whether an empty first shape makes the second one the result.\<close>

definition UnionOperation :: shape_operation where
  "UnionOperation = \<lparr>so_trySimple = True, so_opCode = 0, so_addSegments1 = True, so_addSegments2 = True,
     so_addSpans1 = True, so_addSpans2 = True\<rparr>"

definition IntersectOperation :: shape_operation where
  "IntersectOperation = \<lparr>so_trySimple = False, so_opCode = 3, so_addSegments1 = False, so_addSegments2 = False,
     so_addSpans1 = False, so_addSpans2 = False\<rparr>"

definition SubtractOperation :: shape_operation where
  "SubtractOperation = \<lparr>so_trySimple = False, so_opCode = 1, so_addSegments1 = True, so_addSegments2 = False,
     so_addSpans1 = True, so_addSpans2 = False\<rparr>"

text \<open>
  The loop over the segments of two spans. \<open>oldFlag\<close> is \<open>flag\<close> at the head of the loop.
\<close>

function merge_segments :: "shape_operation \<Rightarrow> int list \<Rightarrow> int list \<Rightarrow> nat \<Rightarrow> int list" where
  "merge_segments op (x1 # s1) (x2 # s2) oldFlag =
     (let test = x1 - x2;
          x = (if test \<ge> 0 then x2 else x1);
          flag = (if test \<le> 0 then oldFlag XOR 1 else oldFlag);
          flag' = (if test \<ge> 0 then flag XOR 2 else flag);
          segments = merge_segments op (if test \<le> 0 then s1 else x1 # s1) (if test \<ge> 0 then s2 else x2 # s2) flag' in
      if flag' = so_opCode op \<or> oldFlag = so_opCode op then x # segments else segments)"
| "merge_segments op [] s2 oldFlag = (if so_addSegments2 op \<and> s2 \<noteq> [] then s2 else [])"
| "merge_segments op (x1 # s1) [] oldFlag = (if so_addSegments1 op then x1 # s1 else [])"
  by pat_completeness auto
termination
  by (relation "measure (\<lambda>(op, s1, s2, flag). length s1 + length s2)") auto

function span_loop :: "shape_operation \<Rightarrow> row list \<Rightarrow> row list \<Rightarrow> int list \<Rightarrow> int list \<Rightarrow> shape \<Rightarrow> shape" where
  "span_loop op ((y1, g1) # spans1) ((y2, g2) # spans2) segments1 segments2 result =
     (let test = y1 - y2;
          y = (if test \<ge> 0 then y2 else y1);
          segments1' = (if test \<le> 0 then g1 else segments1);
          segments2' = (if test \<ge> 0 then g2 else segments2);
          segments = merge_segments op segments1' segments2' 0;
          result' = (if segments \<noteq> [] \<or> \<not> shape_isEmpty result then appendSpan_range y segments result else result) in
      span_loop op (if test \<le> 0 then spans1 else (y1, g1) # spans1) (if test \<ge> 0 then spans2 else (y2, g2) # spans2)
        segments1' segments2' result')"
| "span_loop op [] spans2 segments1 segments2 result =
     (if so_addSpans2 op \<and> spans2 \<noteq> [] then appendSpans spans2 result else result)"
| "span_loop op (r1 # spans1) [] segments1 segments2 result =
     (if so_addSpans1 op then appendSpans (r1 # spans1) result else result)"
  by pat_completeness auto
termination
  by (relation "measure (\<lambda>(op, r1, r2, g1, g2, result). length r1 + length r2)") auto

definition shapeOperation :: "shape_operation \<Rightarrow> shape \<Rightarrow> shape \<Rightarrow> shape" where
  "shapeOperation op shape1 shape2 =
     (if so_trySimple op \<and> shape_isEmpty shape1 then shape2
      else span_loop op (rows shape1) (rows shape2) [] [] empty_shape)"

definition unionShapes :: "shape \<Rightarrow> shape \<Rightarrow> shape" where
  "unionShapes = shapeOperation UnionOperation"

definition intersectShapes :: "shape \<Rightarrow> shape \<Rightarrow> shape" where
  "intersectShapes = shapeOperation IntersectOperation"

definition subtractShapes :: "shape \<Rightarrow> shape \<Rightarrow> shape" where
  "subtractShapes = shapeOperation SubtractOperation"

section \<open>Comparing shapes\<close>

text \<open>
  A comparison: its default result, and for each of the three tests the result with which
  it ends the comparison, if it does.
\<close>

record compare_operation =
  co_default :: bool
  co_aOutsideB :: "bool option"
  co_bOutsideA :: "bool option"
  co_aOverlapsB :: "bool option"

definition CompareContainsOperation :: compare_operation where
  "CompareContainsOperation = \<lparr>co_default = True, co_aOutsideB = None, co_bOutsideA = Some False, co_aOverlapsB = None\<rparr>"

definition CompareIntersectsOperation :: compare_operation where
  "CompareIntersectsOperation = \<lparr>co_default = False, co_aOutsideB = None, co_bOutsideA = None, co_aOverlapsB = Some True\<rparr>"

text \<open>\<open>if (guard && test(result)) return result;\<close> and then the rest.\<close>

definition stop_if :: "bool \<Rightarrow> bool option \<Rightarrow> bool option \<Rightarrow> bool option" where
  "stop_if guard test rest = (if guard then (case test of Some r \<Rightarrow> Some r | None \<Rightarrow> rest) else rest)"

text \<open>
  The segments of a span come in pairs, so that the cases of a single segment are never
  reached from a shape.
\<close>

function compare_segments :: "compare_operation \<Rightarrow> int list \<Rightarrow> int list \<Rightarrow> bool option" where
  "compare_segments op (aX # aMaxX # as) (bX # bMaxX # bs) =
     stop_if (bMaxX > aX \<and> bX < aMaxX) (co_aOverlapsB op)
      (stop_if (aX < bX) (co_aOutsideB op)
        (stop_if (bX < aX) (co_bOutsideA op)
          (if aMaxX < bMaxX then compare_segments op as (bX # bMaxX # bs)
           else if bMaxX < aMaxX then compare_segments op (aX # aMaxX # as) bs
           else compare_segments op as bs)))"
| "compare_segments op [] bs = stop_if (bs \<noteq> []) (co_bOutsideA op) None"
| "compare_segments op [a] bs = stop_if True (co_aOutsideB op) (stop_if (bs \<noteq> []) (co_bOutsideA op) None)"
| "compare_segments op (aX # aMaxX # as) [] = stop_if True (co_aOutsideB op) None"
| "compare_segments op (aX # aMaxX # as) [b] = stop_if True (co_aOutsideB op) (stop_if True (co_bOutsideA op) None)"
  by pat_completeness auto
termination
  by (relation "measure (\<lambda>(op, as, bs). length as + length bs)") auto

function compare_spans :: "compare_operation \<Rightarrow> row list \<Rightarrow> row list \<Rightarrow> bool \<Rightarrow> bool \<Rightarrow> bool option" where
  "compare_spans op ((aY, as) # (aMaxY, as') # ar) ((bY, bs) # (bMaxY, bs') # br) aHad bHad =
     stop_if (aY < bY \<and> \<not> bHad \<and> as \<noteq> []) (co_aOutsideB op)
      (stop_if (bY < aY \<and> \<not> aHad \<and> bs \<noteq> []) (co_bOutsideA op)
        (case (if bMaxY > aY \<and> bY < aMaxY then compare_segments op as bs else None) of
           Some r \<Rightarrow> Some r
         | None \<Rightarrow>
             if aMaxY < bMaxY then
               compare_spans op ((aMaxY, as') # ar) ((bY, bs) # (bMaxY, bs') # br) (as \<noteq> []) (bs \<noteq> [])
             else if bMaxY < aMaxY then
               compare_spans op ((aY, as) # (aMaxY, as') # ar) ((bMaxY, bs') # br) (as \<noteq> []) (bs \<noteq> [])
             else compare_spans op ((aMaxY, as') # ar) ((bMaxY, bs') # br) (as \<noteq> []) (bs \<noteq> [])))"
| "compare_spans op [] br aHad bHad = stop_if (length br \<ge> 2) (co_bOutsideA op) None"
| "compare_spans op [a] br aHad bHad = stop_if (length br \<ge> 2) (co_bOutsideA op) None"
| "compare_spans op (a # a' # ar) [] aHad bHad = stop_if True (co_aOutsideB op) None"
| "compare_spans op (a # a' # ar) [b] aHad bHad = stop_if True (co_aOutsideB op) None"
  by pat_completeness auto
termination
  by (relation "measure (\<lambda>(op, ar, br, aHad, bHad). length ar + length br)") auto

definition compareShapes :: "compare_operation \<Rightarrow> shape \<Rightarrow> shape \<Rightarrow> bool" where
  "compareShapes op aShape bShape =
     (case compare_spans op (rows aShape) (rows bShape) False False of Some r \<Rightarrow> r | None \<Rightarrow> co_default op)"

section \<open>Segments as sets\<close>

text \<open>A coordinate is inside when an odd number of segment ends is at or before it.\<close>

definition inside :: "int \<Rightarrow> int list \<Rightarrow> bool" where
  "inside x s \<longleftrightarrow> odd (length (filter (\<lambda>v. v \<le> x) s))"

lemma inside_Nil [simp]: "\<not> inside x []"
  and inside_Cons: "inside x (v # s) = (if v \<le> x then \<not> inside x s else inside x s)"
  by (simp_all add: inside_def)

lemma inside_none: "\<forall>v\<in>set s. x < v \<Longrightarrow> \<not> inside x s"
  by (induction s) (auto simp: inside_Cons)

text \<open>What an operation computes on two sets, as a truth function.\<close>

definition combines :: "shape_operation \<Rightarrow> bool \<Rightarrow> bool \<Rightarrow> bool" where
  "combines op a b \<longleftrightarrow> (if so_opCode op = 0 then a \<or> b else of_bool a + 2 * of_bool b = so_opCode op)"

definition good_operation :: "shape_operation \<Rightarrow> bool" where
  "good_operation op \<longleftrightarrow> (\<forall>a. combines op a False = (so_addSegments1 op \<and> a)) \<and>
     (\<forall>b. combines op False b = (so_addSegments2 op \<and> b)) \<and>
     so_addSpans1 op = so_addSegments1 op \<and> so_addSpans2 op = so_addSegments2 op \<and> so_opCode op \<le> 3"

lemma good_operations [simp]:
  "good_operation UnionOperation" "good_operation IntersectOperation" "good_operation SubtractOperation"
  by (simp_all add: good_operation_def combines_def UnionOperation_def IntersectOperation_def SubtractOperation_def)

definition flag_of :: "bool \<Rightarrow> bool \<Rightarrow> nat" where
  "flag_of a b = of_bool a + 2 * of_bool b"

lemma flag_of_cases: "flag_of False False = 0" "flag_of True False = 1" "flag_of False True = 2" "flag_of True True = 3"
  by (simp_all add: flag_of_def)

lemma flag_of_XOR: "flag_of a b XOR 1 = flag_of (\<not> a) b" "flag_of a b XOR 2 = flag_of a (\<not> b)"
proof -
  show "flag_of a b XOR 1 = flag_of (\<not> a) b" by (cases a; cases b) (simp_all add: flag_of_cases)
  show "flag_of a b XOR 2 = flag_of a (\<not> b)" by (cases a; cases b) (simp_all add: flag_of_cases)
qed

lemmas flag_of_toggle = flag_of_XOR flag_of_XOR(1) [unfolded One_nat_def]

lemma combines_flag: "combines op a b = (if so_opCode op = 0 then flag_of a b \<noteq> 0 else flag_of a b = so_opCode op)"
  by (simp add: combines_def flag_of_def)

lemma flag_of_inject [simp]: "flag_of a b = flag_of a' b' \<longleftrightarrow> a = a' \<and> b = b'"
  by (cases a; cases b; cases a'; cases b') (simp_all add: flag_of_cases)

lemma flag_changes:
  assumes "a' \<noteq> a \<or> b' \<noteq> b"
  shows "(flag_of a' b' = so_opCode op \<or> flag_of a b = so_opCode op) \<longleftrightarrow> combines op a' b' \<noteq> combines op a b"
proof -
  have "flag_of a' b' \<noteq> flag_of a b" using assms by simp
  then show ?thesis unfolding combines_flag by metis
qed

text \<open>Induction along a merge of two lists by a key.\<close>

lemma merge_induct [case_names nil1 nil2 first both second]:
  fixes key :: "'a \<Rightarrow> int"
  assumes "\<And>ys. P [] ys" "\<And>x xs. P (x # xs) []"
    and "\<And>x xs y ys. key x < key y \<Longrightarrow> P xs (y # ys) \<Longrightarrow> P (x # xs) (y # ys)"
    and "\<And>x xs y ys. key x = key y \<Longrightarrow> P xs ys \<Longrightarrow> P (x # xs) (y # ys)"
    and "\<And>x xs y ys. key y < key x \<Longrightarrow> P (x # xs) ys \<Longrightarrow> P (x # xs) (y # ys)"
  shows "P xs ys"
proof (induction "length xs + length ys" arbitrary: xs ys rule: less_induct)
  case less
  show ?case
  proof (cases xs)
    case Nil
    then show ?thesis using assms(1) by simp
  next
    case (Cons x xs')
    show ?thesis
    proof (cases ys)
      case Nil
      then show ?thesis using Cons assms(2) by simp
    next
      case y: (Cons y ys')
      have "P xs' ys" "P xs' ys'" "P xs ys'" using Cons y by (intro less; simp)+
      then show ?thesis using Cons y assms(3-5) by (cases "key x" "key y" rule: linorder_cases) simp_all
    qed
  qed
qed

lemma merge_segments_step:
  "x1 < x2 \<Longrightarrow> merge_segments op (x1 # s1) (x2 # s2) f =
     (if f XOR 1 = so_opCode op \<or> f = so_opCode op then [x1] else []) @ merge_segments op s1 (x2 # s2) (f XOR 1)"
  "x1 = x2 \<Longrightarrow> merge_segments op (x1 # s1) (x2 # s2) f =
     (if (f XOR 1) XOR 2 = so_opCode op \<or> f = so_opCode op then [x1] else []) @ merge_segments op s1 s2 ((f XOR 1) XOR 2)"
  "x2 < x1 \<Longrightarrow> merge_segments op (x1 # s1) (x2 # s2) f =
     (if f XOR 2 = so_opCode op \<or> f = so_opCode op then [x2] else []) @ merge_segments op (x1 # s1) s2 (f XOR 2)"
  by (simp_all add: Let_def)

declare merge_segments.simps(1) [simp del]

lemma merge_segments_subset: "set (merge_segments op s1 s2 f) \<subseteq> set s1 \<union> set s2"
proof (induction s1 s2 arbitrary: f rule: merge_induct [where key = "\<lambda>v. v"])
qed (auto simp: merge_segments_step)


lemma inside_opt: "inside x ((if c then [v] else []) @ t) = (if v \<le> x then c \<noteq> inside x t else inside x t)"
  by (simp add: inside_Cons)

lemma merge_segments_before:
  assumes "\<forall>v\<in>set s1 \<union> set s2. x < v"
  shows "\<not> inside x (merge_segments op s1 s2 f)" "\<not> inside x s1" "\<not> inside x s2"
proof -
  show "\<not> inside x (merge_segments op s1 s2 f)"
    using assms merge_segments_subset [of op s1 s2 f] by (intro inside_none) blast
qed (use assms inside_none [of s1 x] inside_none [of s2 x] in auto)

lemma xor_chain: "m = (c \<noteq> t) \<Longrightarrow> c = (q \<noteq> p) \<Longrightarrow> t = (r \<noteq> q) \<Longrightarrow> m = (r \<noteq> p)" for m c t p q r :: bool
  by (cases p; cases q; cases r) simp_all

lemma merge_segments_inside:
  assumes "good_operation op"
  shows "sorted s1 \<Longrightarrow> sorted s2 \<Longrightarrow> a = odd (length s1) \<Longrightarrow> b = odd (length s2) \<Longrightarrow>
    inside x (merge_segments op s1 s2 (flag_of a b)) \<longleftrightarrow>
      combines op (a \<noteq> inside x s1) (b \<noteq> inside x s2) \<noteq> combines op a b"
proof (induction s1 s2 arbitrary: a b rule: merge_induct [where key = "\<lambda>v. v"])
  case (nil1 ys)
  then show ?case using assms by (auto simp: good_operation_def)
next
  case (nil2 v xs)
  then show ?case using assms by (auto simp: good_operation_def)
next
  case (first v xs w ys)
  show ?case
  proof (cases "v \<le> x")
    case True
    have "inside x (merge_segments op xs (w # ys) (flag_of (\<not> a) b)) \<longleftrightarrow>
        combines op ((\<not> a) \<noteq> inside x xs) (b \<noteq> inside x (w # ys)) \<noteq> combines op (\<not> a) b"
      using first.prems by (intro first.IH) simp_all
    then show ?thesis using True first.hyps
      by (intro xor_chain [OF _ flag_changes [of "\<not> a" a b b op]])
        (simp_all add: merge_segments_step flag_of_toggle inside_opt inside_Cons [of x v xs])
  next
    case False
    then have "\<forall>u\<in>set (v # xs) \<union> set (w # ys). x < u" using first by fastforce
    from merge_segments_before [OF this] show ?thesis by simp
  qed
next
  case (both v xs w ys)
  show ?case
  proof (cases "v \<le> x")
    case True
    have "inside x (merge_segments op xs ys (flag_of (\<not> a) (\<not> b))) \<longleftrightarrow>
        combines op ((\<not> a) \<noteq> inside x xs) ((\<not> b) \<noteq> inside x ys) \<noteq> combines op (\<not> a) (\<not> b)"
      using both.prems by (intro both.IH) simp_all
    then show ?thesis using True both.hyps
      by (intro xor_chain [OF _ flag_changes [of "\<not> a" a "\<not> b" b op]])
        (simp_all add: merge_segments_step flag_of_toggle inside_opt inside_Cons [of x w xs] inside_Cons [of x w ys])
  next
    case False
    then have "\<forall>u\<in>set (v # xs) \<union> set (w # ys). x < u" using both by fastforce
    from merge_segments_before [OF this] show ?thesis by simp
  qed
next
  case (second v xs w ys)
  show ?case
  proof (cases "w \<le> x")
    case True
    have "inside x (merge_segments op (v # xs) ys (flag_of a (\<not> b))) \<longleftrightarrow>
        combines op (a \<noteq> inside x (v # xs)) ((\<not> b) \<noteq> inside x ys) \<noteq> combines op a (\<not> b)"
      using second.prems by (intro second.IH) simp_all
    then show ?thesis using True second.hyps
      by (intro xor_chain [OF _ flag_changes [of a a "\<not> b" b op]])
        (simp_all add: merge_segments_step flag_of_toggle inside_opt inside_Cons [of x w ys])
  next
    case False
    then have "\<forall>u\<in>set (v # xs) \<union> set (w # ys). x < u" using second by fastforce
    from merge_segments_before [OF this] show ?thesis by simp
  qed
qed


lemma merge_segments_sorted:
  "sorted_wrt (<) s1 \<Longrightarrow> sorted_wrt (<) s2 \<Longrightarrow> sorted_wrt (<) (merge_segments op s1 s2 f)"
proof (induction s1 s2 arbitrary: f rule: merge_induct [where key = "\<lambda>v. v"])
  case (first v xs w ys)
  then show ?case using merge_segments_subset [of op xs "w # ys" "f XOR 1"]
    by (fastforce simp: merge_segments_step sorted_wrt_append)
next
  case (both v xs w ys)
  then show ?case using merge_segments_subset [of op xs ys "(f XOR 1) XOR 2"]
    by (fastforce simp: merge_segments_step sorted_wrt_append)
next
  case (second v xs w ys)
  then show ?case using merge_segments_subset [of op "v # xs" ys "f XOR 2"]
    by (fastforce simp: merge_segments_step sorted_wrt_append)
qed auto

text \<open>Segments come in increasing pairs.\<close>

definition valid_segments :: "int list \<Rightarrow> bool" where
  "valid_segments s \<longleftrightarrow> sorted_wrt (<) s \<and> even (length s)"

lemma inside_all: "\<forall>v\<in>set s. v \<le> x \<Longrightarrow> inside x s = odd (length s)"
  by (simp add: inside_def)

lemma merge_valid:
  assumes "good_operation op" "valid_segments s1" "valid_segments s2"
  shows "inside x (merge_segments op s1 s2 0) = combines op (inside x s1) (inside x s2)"
    and "valid_segments (merge_segments op s1 s2 0)"
proof -
  have so: "sorted s1" "sorted s2" using assms(2,3) by (simp_all add: valid_segments_def strict_sorted_imp_sorted)
  have in_all: "inside y (merge_segments op s1 s2 0) = combines op (inside y s1) (inside y s2)" for y
    using merge_segments_inside [OF assms(1) so, of False False y] assms
    by (simp add: valid_segments_def flag_of_cases good_operation_def)
  then show "inside x (merge_segments op s1 s2 0) = combines op (inside x s1) (inside x s2)" .
  obtain y where y: "\<forall>v\<in>set s1 \<union> set s2. v \<le> y"
    using finite_has_maximal [of "insert 0 (set s1 \<union> set s2)"] by (metis Max_ge List.finite_set finite_Un)
  then have "\<forall>v\<in>set (merge_segments op s1 s2 0). v \<le> y" using merge_segments_subset [of op s1 s2 0] by blast
  then have "odd (length (merge_segments op s1 s2 0)) = inside y (merge_segments op s1 s2 0)" by (simp add: inside_all)
  also have "\<dots> = False" using y assms by (simp add: in_all inside_all valid_segments_def good_operation_def)
  finally show "valid_segments (merge_segments op s1 s2 0)"
    using merge_segments_sorted assms by (simp add: valid_segments_def)
qed

section \<open>Rows of a shape\<close>

definition well_indexed :: "shape \<Rightarrow> bool" where
  "well_indexed sh \<longleftrightarrow> sorted (map segmentIndex (m_spans sh)) \<and> (\<forall>s\<in>set (m_spans sh). segmentIndex s \<le> length (m_segments sh))
     \<and> (m_spans sh = [] \<longrightarrow> m_segments sh = []) \<and> (m_spans sh \<noteq> [] \<longrightarrow> segmentIndex (hd (m_spans sh)) = 0)"

lemma segments_of_between: "segments_of sh i = between (segmentIndex (m_spans sh ! i)) (segment_end sh i) (m_segments sh)"
  by (simp add: segments_of_def Let_def between_def)

lemma rows_empty [simp]: "rows empty_shape = []" "rows sh = [] \<longleftrightarrow> m_spans sh = []"
  by (simp_all add: rows_def empty_shape_def)

lemma length_rows [simp]: "length (rows sh) = length (m_spans sh)"
  by (simp add: rows_def)

lemma well_indexed_empty [simp]: "well_indexed empty_shape"
  by (simp add: well_indexed_def empty_shape_def)

definition push_row :: "int \<Rightarrow> int list \<Rightarrow> shape \<Rightarrow> shape" where
  "push_row y g sh = \<lparr>m_segments = m_segments sh @ g,
     m_spans = m_spans sh @ [\<lparr>span_y = y, segmentIndex = length (m_segments sh)\<rparr>]\<rparr>"

lemma rows_push_row:
  assumes "well_indexed sh"
  shows "rows (push_row y g sh) = rows sh @ [(y, g)]"
proof (rule nth_equalityI)
  fix i assume "i < length (rows (push_row y g sh))"
  then consider "i < length (m_spans sh)" | "i = length (m_spans sh)" by (fastforce simp: push_row_def less_Suc_eq)
  then show "rows (push_row y g sh) ! i = (rows sh @ [(y, g)]) ! i"
  proof cases
    case 1
    then have "segment_end (push_row y g sh) i = segment_end sh i"
      by (auto simp: segment_end_def push_row_def nth_append not_less less_Suc_eq)
    moreover have "segment_end sh i \<le> length (m_segments sh)"
      using assms by (auto simp: segment_end_def well_indexed_def)
    ultimately show ?thesis using 1
      by (simp add: rows_def segments_of_between nth_append) (simp add: push_row_def between_def nth_append)
  next
    case 2
    then show ?thesis
      by (simp add: rows_def segments_of_between segment_end_def push_row_def nth_append between_def)
  qed
qed (simp add: push_row_def)

lemma well_indexed_push_row:
  assumes "well_indexed sh"
  shows "well_indexed (push_row y g sh)"
  using assms unfolding well_indexed_def push_row_def
  by (cases "m_spans sh") (auto simp: sorted_append)

lemma last_row:
  assumes "m_spans sh \<noteq> []"
  shows "last (rows sh) = (span_y (last (m_spans sh)), drop (segmentIndex (last (m_spans sh))) (m_segments sh))"
  using assms by (simp add: rows_def last_map last_conv_nth segments_of_between segment_end_def between_def)

definition row_coalesces :: "int list \<Rightarrow> row list \<Rightarrow> bool" where
  "row_coalesces g rs \<longleftrightarrow> rs \<noteq> [] \<and> snd (last rs) = g"

lemma canCoalesce_rows: "canCoalesce g sh \<longleftrightarrow> row_coalesces g (rows sh)"
  by (cases "m_spans sh = []") (auto simp: canCoalesce_def row_coalesces_def last_row Let_def)

definition append_row :: "int \<Rightarrow> int list \<Rightarrow> row list \<Rightarrow> row list" where
  "append_row y g rs = (if row_coalesces g rs then rs else rs @ [(y, g)])"

lemma appendSpan_range_push: "appendSpan_range y g sh = (if canCoalesce g sh then sh else push_row y g sh)"
  by (simp add: appendSpan_range_def appendSpan_def push_row_def Let_def)

lemma rows_appendSpan_range:
  assumes "well_indexed sh"
  shows "rows (appendSpan_range y g sh) = append_row y g (rows sh)" "well_indexed (appendSpan_range y g sh)"
  using assms by (simp_all add: appendSpan_range_push append_row_def canCoalesce_rows rows_push_row well_indexed_push_row)

fun append_rows :: "row list \<Rightarrow> row list \<Rightarrow> row list" where
  "append_rows [] rs = rs"
| "append_rows ((y, g) # it) rs = append_rows it (append_row y g rs)"

lemma rows_appendSpans:
  "well_indexed sh \<Longrightarrow> rows (appendSpans it sh) = append_rows it (rows sh) \<and> well_indexed (appendSpans it sh)"
  by (induction it sh rule: appendSpans.induct) (simp_all add: rows_appendSpan_range)

text \<open>Consecutive rows differ, and the last one is empty; \<open>c\<close> is the row before the first.\<close>

fun chain :: "int list \<Rightarrow> row list \<Rightarrow> bool" where
  "chain c [] = True"
| "chain c ((y, g) # r) = (g \<noteq> c \<and> chain g r)"

fun closed :: "int list \<Rightarrow> row list \<Rightarrow> bool" where
  "closed c [] = (c = [])"
| "closed c ((y, g) # r) = closed g r"

definition current :: "row list \<Rightarrow> int list" where
  "current rs = (if rs = [] then [] else snd (last rs))"

lemma current_simps [simp]: "current [] = []" "current (rs @ [(y, g)]) = g"
  by (simp_all add: current_def)

lemma append_rows_chain: "chain (current rs) it \<Longrightarrow> append_rows it rs = rs @ it"
proof (induction it rs rule: append_rows.induct)
  case (2 y g it rs)
  then have "append_row y g rs = rs @ [(y, g)]" by (auto simp: append_row_def row_coalesces_def current_def)
  with 2 show ?case by simp
qed simp

definition new_row :: "int \<Rightarrow> int list \<Rightarrow> int list \<Rightarrow> row list" where
  "new_row y g c = (if g = c then [] else [(y, g)])"

text \<open>What the span loop appends, when the last row written is the merge of \<open>c1\<close> and \<open>c2\<close>.\<close>

function merge_rows :: "shape_operation \<Rightarrow> row list \<Rightarrow> row list \<Rightarrow> int list \<Rightarrow> int list \<Rightarrow> row list" where
  "merge_rows op ((y1, g1) # r1) ((y2, g2) # r2) c1 c2 =
     (if y1 < y2 then new_row y1 (merge_segments op g1 c2 0) (merge_segments op c1 c2 0) @ merge_rows op r1 ((y2, g2) # r2) g1 c2
      else if y2 < y1 then new_row y2 (merge_segments op c1 g2 0) (merge_segments op c1 c2 0) @ merge_rows op ((y1, g1) # r1) r2 c1 g2
      else new_row y1 (merge_segments op g1 g2 0) (merge_segments op c1 c2 0) @ merge_rows op r1 r2 g1 g2)"
| "merge_rows op [] r2 c1 c2 = (if so_addSpans2 op then r2 else [])"
| "merge_rows op (r # r1) [] c1 c2 = (if so_addSpans1 op then r # r1 else [])"
  by pat_completeness auto
termination
  by (relation "measure (\<lambda>(op, r1, r2, c1, c2). length r1 + length r2)") auto

lemma merge_rows_step:
  "y1 < y2 \<Longrightarrow> merge_rows op ((y1, g1) # r1) ((y2, g2) # r2) c1 c2 =
     new_row y1 (merge_segments op g1 c2 0) (merge_segments op c1 c2 0) @ merge_rows op r1 ((y2, g2) # r2) g1 c2"
  "y1 = y2 \<Longrightarrow> merge_rows op ((y1, g1) # r1) ((y2, g2) # r2) c1 c2 =
     new_row y1 (merge_segments op g1 g2 0) (merge_segments op c1 c2 0) @ merge_rows op r1 r2 g1 g2"
  "y2 < y1 \<Longrightarrow> merge_rows op ((y1, g1) # r1) ((y2, g2) # r2) c1 c2 =
     new_row y2 (merge_segments op c1 g2 0) (merge_segments op c1 c2 0) @ merge_rows op ((y1, g1) # r1) r2 c1 g2"
  by simp_all

declare merge_rows.simps(1) [simp del]

definition step_row :: "int \<Rightarrow> int list \<Rightarrow> shape \<Rightarrow> shape" where
  "step_row y g sh = (if g \<noteq> [] \<or> \<not> shape_isEmpty sh then appendSpan_range y g sh else sh)"

lemma step_row_rows:
  assumes "well_indexed sh"
  shows "rows (step_row y g sh) = rows sh @ new_row y g (current (rows sh))" "well_indexed (step_row y g sh)"
  using assms by (auto simp: step_row_def new_row_def shape_isEmpty_def rows_appendSpan_range append_row_def
      row_coalesces_def current_def)

lemma span_loop_step:
  "y1 < y2 \<Longrightarrow> span_loop op ((y1, g1) # r1) ((y2, g2) # r2) c1 c2 sh =
     span_loop op r1 ((y2, g2) # r2) g1 c2 (step_row y1 (merge_segments op g1 c2 0) sh)"
  "y1 = y2 \<Longrightarrow> span_loop op ((y1, g1) # r1) ((y2, g2) # r2) c1 c2 sh =
     span_loop op r1 r2 g1 g2 (step_row y1 (merge_segments op g1 g2 0) sh)"
  "y2 < y1 \<Longrightarrow> span_loop op ((y1, g1) # r1) ((y2, g2) # r2) c1 c2 sh =
     span_loop op ((y1, g1) # r1) r2 c1 g2 (step_row y2 (merge_segments op c1 g2 0) sh)"
  by (simp_all add: Let_def step_row_def)

declare span_loop.simps(1) [simp del]

lemma current_new_row: "current rs = c \<Longrightarrow> current (rs @ new_row y g c) = g"
  by (simp add: new_row_def)

lemma merge_nil:
  assumes "good_operation op"
  shows "merge_segments op [] g 0 = (if so_addSpans2 op then g else [])"
    "merge_segments op g [] 0 = (if so_addSpans1 op then g else [])"
proof -
  show "merge_segments op [] g 0 = (if so_addSpans2 op then g else [])" using assms by (simp add: good_operation_def)
  show "merge_segments op g [] 0 = (if so_addSpans1 op then g else [])"
    using assms by (cases g) (simp_all add: good_operation_def)
qed

lemma rows_span_loop:
  assumes op: "good_operation op"
  shows "well_indexed sh \<Longrightarrow> current (rows sh) = merge_segments op c1 c2 0 \<Longrightarrow> chain c1 r1 \<Longrightarrow> chain c2 r2 \<Longrightarrow>
    closed c1 r1 \<Longrightarrow> closed c2 r2 \<Longrightarrow>
    rows (span_loop op r1 r2 c1 c2 sh) = rows sh @ merge_rows op r1 r2 c1 c2 \<and> well_indexed (span_loop op r1 r2 c1 c2 sh)"
proof (induction r1 r2 arbitrary: c1 c2 sh rule: merge_induct [where key = fst])
  case (nil1 r2)
  then show ?case using merge_nil(1) [OF op, of c2]
    by (auto simp: rows_appendSpans append_rows_chain)
next
  case (nil2 r r1)
  then show ?case using merge_nil(2) [OF op, of c1] rows_appendSpans [of sh "r # r1"] append_rows_chain [of "rows sh" "r # r1"]
    by auto
next
  case (first r r1 r' r2)
  obtain y1 g1 y2 g2 where r: "r = (y1, g1)" "r' = (y2, g2)" by fastforce
  show ?case using first.prems first.hyps first.IH [of "step_row y1 (merge_segments op g1 c2 0) sh" g1 c2]
    by (simp add: r span_loop_step merge_rows_step step_row_rows current_new_row)
next
  case (both r r1 r' r2)
  obtain y1 g1 y2 g2 where r: "r = (y1, g1)" "r' = (y2, g2)" by fastforce
  show ?case using both.prems both.hyps both.IH [of "step_row y1 (merge_segments op g1 g2 0) sh" g1 g2]
    by (simp add: r span_loop_step merge_rows_step step_row_rows current_new_row)
next
  case (second r r1 r' r2)
  obtain y1 g1 y2 g2 where r: "r = (y1, g1)" "r' = (y2, g2)" by fastforce
  show ?case using second.prems second.hyps second.IH [of "step_row y2 (merge_segments op c1 g2 0) sh" c1 g2]
    by (simp add: r span_loop_step merge_rows_step step_row_rows current_new_row)
qed

section \<open>The points of a shape\<close>

fun row_at :: "row list \<Rightarrow> int list \<Rightarrow> int \<Rightarrow> int list" where
  "row_at [] c y = c"
| "row_at ((y', g) # r) c y = (if y' \<le> y then row_at r g y else c)"

definition points :: "shape \<Rightarrow> (int \<times> int) set" where
  "points sh = {(x, y). inside x (row_at (rows sh) [] y)}"

definition valid_rows :: "row list \<Rightarrow> bool" where
  "valid_rows rs \<longleftrightarrow> sorted_wrt (<) (map fst rs) \<and> chain [] rs \<and> closed [] rs \<and> list_all (valid_segments \<circ> snd) rs"

definition shape_wf :: "shape \<Rightarrow> bool" where
  "shape_wf sh \<longleftrightarrow> well_indexed sh \<and> valid_rows (rows sh)"

lemma row_at_before: "\<forall>r\<in>set rs. y < fst r \<Longrightarrow> row_at rs c y = c"
  by (cases rs) auto

lemma row_at_new: "y' \<le> y \<Longrightarrow> row_at (new_row y' g c @ rs) c y = row_at rs g y"
  by (simp add: new_row_def)

lemma new_row_key: "r \<in> set (new_row y g c) \<Longrightarrow> fst r = y"
  by (simp add: new_row_def split: if_splits)

lemma merge_rows_before:
  "\<forall>r\<in>set r1 \<union> set r2. y < fst r \<Longrightarrow> q \<in> set (merge_rows op r1 r2 c1 c2) \<Longrightarrow> y < fst q"
proof (induction r1 r2 arbitrary: c1 c2 rule: merge_induct [where key = fst])
  case (first r r1 r' r2)
  obtain y1 g1 y2 g2 where r: "r = (y1, g1)" "r' = (y2, g2)" by fastforce
  have "y < y1" using first.prems(1) by (simp add: r)
  moreover have "q \<in> set (merge_rows op r1 (r' # r2) g1 c2) \<Longrightarrow> y < fst q"
    using first.prems(1) by (intro first.IH) auto
  ultimately show ?case using first.prems(2) first.hyps by (auto simp: r merge_rows_step dest: new_row_key)
next
  case (both r r1 r' r2)
  obtain y1 g1 y2 g2 where r: "r = (y1, g1)" "r' = (y2, g2)" by fastforce
  have "y < y1" using both.prems(1) by (simp add: r)
  moreover have "q \<in> set (merge_rows op r1 r2 g1 g2) \<Longrightarrow> y < fst q"
    using both.prems(1) by (intro both.IH) auto
  ultimately show ?case using both.prems(2) both.hyps by (auto simp: r merge_rows_step dest: new_row_key)
next
  case (second r r1 r' r2)
  obtain y1 g1 y2 g2 where r: "r = (y1, g1)" "r' = (y2, g2)" by fastforce
  have "y < y2" using second.prems(1) by (simp add: r)
  moreover have "q \<in> set (merge_rows op (r # r1) r2 c1 g2) \<Longrightarrow> y < fst q"
    using second.prems(1) by (intro second.IH) auto
  ultimately show ?case using second.prems(2) second.hyps by (auto simp: r merge_rows_step dest: new_row_key)
qed (auto split: if_splits)

lemma row_at_merge:
  assumes op: "good_operation op"
  shows "sorted_wrt (<) (map fst r1) \<Longrightarrow> sorted_wrt (<) (map fst r2) \<Longrightarrow> closed c1 r1 \<Longrightarrow> closed c2 r2 \<Longrightarrow>
    row_at (merge_rows op r1 r2 c1 c2) (merge_segments op c1 c2 0) y
      = merge_segments op (row_at r1 c1 y) (row_at r2 c2 y) 0"
proof (induction r1 r2 arbitrary: c1 c2 rule: merge_induct [where key = fst])
  case (nil1 r2)
  then show ?case by (simp add: merge_nil [OF op] del: merge_segments.simps)
next
  case (nil2 r r1)
  then show ?case by (simp add: merge_nil [OF op] del: merge_segments.simps)
next
  case (first r r1 r' r2)
  obtain y1 g1 y2 g2 where r: "r = (y1, g1)" "r' = (y2, g2)" by fastforce
  show ?case
  proof (cases "y1 \<le> y")
    case True
    then show ?thesis using first by (simp add: r merge_rows_step row_at_new del: row_at.simps) (simp add: r)
  next
    case False
    then have "\<forall>q\<in>set (r # r1) \<union> set (r' # r2). y < fst q" using first.prems first.hyps by (fastforce simp: r)
    moreover from this have "row_at (merge_rows op (r # r1) (r' # r2) c1 c2) (merge_segments op c1 c2 0) y = merge_segments op c1 c2 0"
      by (intro row_at_before ballI) (rule merge_rows_before)
    ultimately show ?thesis by (simp add: row_at_before)
  qed
next
  case (both r r1 r' r2)
  obtain y1 g1 y2 g2 where r: "r = (y1, g1)" "r' = (y2, g2)" by fastforce
  show ?case
  proof (cases "y1 \<le> y")
    case True
    then show ?thesis using both by (simp add: r merge_rows_step row_at_new)
  next
    case False
    then have "\<forall>q\<in>set (r # r1) \<union> set (r' # r2). y < fst q" using both.prems both.hyps by (fastforce simp: r)
    moreover from this have "row_at (merge_rows op (r # r1) (r' # r2) c1 c2) (merge_segments op c1 c2 0) y = merge_segments op c1 c2 0"
      by (intro row_at_before ballI) (rule merge_rows_before)
    ultimately show ?thesis by (simp add: row_at_before)
  qed
next
  case (second r r1 r' r2)
  obtain y1 g1 y2 g2 where r: "r = (y1, g1)" "r' = (y2, g2)" by fastforce
  show ?case
  proof (cases "y2 \<le> y")
    case True
    then show ?thesis using second by (simp add: r merge_rows_step row_at_new del: row_at.simps) (simp add: r)
  next
    case False
    then have "\<forall>q\<in>set (r # r1) \<union> set (r' # r2). y < fst q" using second.prems second.hyps by (fastforce simp: r)
    moreover from this have "row_at (merge_rows op (r # r1) (r' # r2) c1 c2) (merge_segments op c1 c2 0) y = merge_segments op c1 c2 0"
      by (intro row_at_before ballI) (rule merge_rows_before)
    ultimately show ?thesis by (simp add: row_at_before)
  qed
qed

abbreviation merged :: "shape_operation \<Rightarrow> int list \<Rightarrow> int list \<Rightarrow> int list" where
  "merged op c1 c2 \<equiv> merge_segments op c1 c2 0"

text \<open>Rows that continue after the row \<open>c\<close>.\<close>

definition valid_from :: "int list \<Rightarrow> row list \<Rightarrow> bool" where
  "valid_from c rs \<longleftrightarrow> sorted_wrt (<) (map fst rs) \<and> chain c rs \<and> closed c rs \<and> list_all (valid_segments \<circ> snd) rs
     \<and> valid_segments c"

lemma valid_from_Cons: "valid_from c ((y, g) # r) \<longleftrightarrow> valid_from g r \<and> (\<forall>q\<in>set r. y < fst q) \<and> g \<noteq> c \<and> valid_segments c"
  by (auto simp: valid_from_def)

lemma valid_from_new_row:
  assumes "valid_from g r" "valid_segments c" "\<And>q. q \<in> set r \<Longrightarrow> y < fst q"
  shows "valid_from c (new_row y g c @ r)"
  using assms by (auto simp: valid_from_def new_row_def)

lemma valid_from_nil: "valid_from c [] \<longleftrightarrow> c = []"
  by (auto simp: valid_from_def valid_segments_def)

lemma valid_from_key: "valid_from c (r # rs) \<Longrightarrow> q \<in> set rs \<Longrightarrow> fst r < fst q"
  by (auto simp: valid_from_def)

lemma valid_from_segments: "valid_from c rs \<Longrightarrow> valid_segments c"
  by (simp add: valid_from_def)

lemma merge_rows_valid:
  assumes op: "good_operation op"
  shows "valid_from c1 r1 \<Longrightarrow> valid_from c2 r2 \<Longrightarrow> valid_from (merged op c1 c2) (merge_rows op r1 r2 c1 c2)"
proof (induction r1 r2 arbitrary: c1 c2 rule: merge_induct [where key = fst])
  case (nil1 r2)
  then show ?case by (simp add: valid_from_nil merge_nil [OF op] del: merge_segments.simps)
next
  case (nil2 r r1)
  then show ?case by (simp add: valid_from_nil merge_nil [OF op] del: merge_segments.simps)
next
  case (first r r1 r' r2)
  obtain y1 g1 y2 g2 where r: "r = (y1, g1)" "r' = (y2, g2)" by fastforce
  have "valid_from (merged op g1 c2) (merge_rows op r1 (r' # r2) g1 c2)"
    using first.prems by (intro first.IH) (simp_all add: r valid_from_Cons)
  moreover have "y1 < fst q" if "q \<in> set (merge_rows op r1 (r' # r2) g1 c2)" for q
    using first.prems first.hyps that
    by (intro merge_rows_before [of r1 "r' # r2"]) (auto simp: r valid_from_Cons)
  moreover have "valid_segments (merged op c1 c2)"
    using first.prems by (intro merge_valid(2) op valid_from_segments)
  ultimately show ?case using first.hyps by (simp add: r merge_rows_step valid_from_new_row)
next
  case (both r r1 r' r2)
  obtain y1 g1 y2 g2 where r: "r = (y1, g1)" "r' = (y2, g2)" by fastforce
  have "valid_from (merged op g1 g2) (merge_rows op r1 r2 g1 g2)"
    using both.prems by (intro both.IH) (simp_all add: r valid_from_Cons)
  moreover have "y1 < fst q" if "q \<in> set (merge_rows op r1 r2 g1 g2)" for q
    using both.prems both.hyps that
    by (intro merge_rows_before [of r1 r2]) (auto simp: r valid_from_Cons)
  moreover have "valid_segments (merged op c1 c2)"
    using both.prems by (intro merge_valid(2) op valid_from_segments)
  ultimately show ?case using both.hyps by (simp add: r merge_rows_step valid_from_new_row)
next
  case (second r r1 r' r2)
  obtain y1 g1 y2 g2 where r: "r = (y1, g1)" "r' = (y2, g2)" by fastforce
  have "valid_from (merged op c1 g2) (merge_rows op (r # r1) r2 c1 g2)"
    using second.prems by (intro second.IH) (simp_all add: r valid_from_Cons)
  moreover have "y2 < fst q" if "q \<in> set (merge_rows op (r # r1) r2 c1 g2)" for q
    using second.prems second.hyps that
    by (intro merge_rows_before [of "r # r1" r2]) (auto simp: r valid_from_Cons)
  moreover have "valid_segments (merged op c1 c2)"
    using second.prems by (intro merge_valid(2) op valid_from_segments)
  ultimately show ?case using second.hyps by (simp add: r merge_rows_step valid_from_new_row)
qed

lemma valid_rows_from: "valid_rows rs \<longleftrightarrow> valid_from [] rs"
  by (simp add: valid_rows_def valid_from_def valid_segments_def)

lemma row_at_valid: "valid_from c rs \<Longrightarrow> valid_segments (row_at rs c y)"
proof (induction rs c y rule: row_at.induct)
  case (2 y' g r c y)
  then show ?case by (auto simp: valid_from_Cons)
qed (simp add: valid_from_segments)

lemma points_iff: "p \<in> points sh \<longleftrightarrow> inside (fst p) (row_at (rows sh) [] (snd p))"
  by (cases p) (simp add: points_def)

lemma merged_nil: "good_operation op \<Longrightarrow> merged op [] [] = []"
  by (simp add: good_operation_def)

lemma shapeOperation_wf:
  assumes op: "good_operation op" and sh: "shape_wf sh1" "shape_wf sh2"
    and simple: "so_trySimple op \<Longrightarrow> combines op False True"
  shows "shape_wf (shapeOperation op sh1 sh2)"
    and "p \<in> points (shapeOperation op sh1 sh2) \<longleftrightarrow> combines op (p \<in> points sh1) (p \<in> points sh2)"
proof -
  have v: "valid_from [] (rows sh1)" "valid_from [] (rows sh2)"
    using sh by (simp_all add: shape_wf_def valid_rows_from)
  let ?r = "merge_rows op (rows sh1) (rows sh2) [] []"
  have loop: "rows (span_loop op (rows sh1) (rows sh2) [] [] empty_shape) = ?r"
    "well_indexed (span_loop op (rows sh1) (rows sh2) [] [] empty_shape)"
    using rows_span_loop [OF op, of empty_shape "[]" "[]" "rows sh1" "rows sh2"] v
    by (simp_all add: valid_from_def)
  have "valid_from [] ?r"
    using merge_rows_valid [OF op v] by (simp add: merged_nil [OF op] del: merge_segments.simps)
  then have wf: "shape_wf (span_loop op (rows sh1) (rows sh2) [] [] empty_shape)"
    using loop by (simp add: shape_wf_def valid_rows_from)
  have "row_at ?r [] y = merged op (row_at (rows sh1) [] y) (row_at (rows sh2) [] y)" for y
    using row_at_merge [OF op, of "rows sh1" "rows sh2" "[]" "[]" y] v
    by (simp add: valid_from_def merged_nil [OF op] del: merge_segments.simps)
  then have pts: "p \<in> points (span_loop op (rows sh1) (rows sh2) [] [] empty_shape)
      \<longleftrightarrow> combines op (p \<in> points sh1) (p \<in> points sh2)"
    using merge_valid(1) [OF op row_at_valid [OF v(1)] row_at_valid [OF v(2)]]
    by (simp add: points_iff loop)
  have empty: "p \<notin> points sh1" if "shape_isEmpty sh1"
    using that by (simp add: points_iff shape_isEmpty_def rows_def)
  have "combines op False b = b" if "so_trySimple op" for b
    using simple [OF that] op by (auto simp: good_operation_def)
  then show "shape_wf (shapeOperation op sh1 sh2)"
    "p \<in> points (shapeOperation op sh1 sh2) \<longleftrightarrow> combines op (p \<in> points sh1) (p \<in> points sh2)"
    using wf pts sh empty by (simp_all add: shapeOperation_def)
qed

lemma combines_operations:
  "combines UnionOperation a b \<longleftrightarrow> a \<or> b" "combines IntersectOperation a b \<longleftrightarrow> a \<and> b"
  "combines SubtractOperation a b \<longleftrightarrow> a \<and> \<not> b"
  "so_trySimple UnionOperation" "\<not> so_trySimple IntersectOperation" "\<not> so_trySimple SubtractOperation"
  by (cases a; cases b; simp add: combines_def UnionOperation_def IntersectOperation_def SubtractOperation_def)+

lemma shapes_points:
  assumes "shape_wf sh1" "shape_wf sh2"
  shows "shape_wf (unionShapes sh1 sh2)" "points (unionShapes sh1 sh2) = points sh1 \<union> points sh2"
    and "shape_wf (intersectShapes sh1 sh2)" "points (intersectShapes sh1 sh2) = points sh1 \<inter> points sh2"
    and "shape_wf (subtractShapes sh1 sh2)" "points (subtractShapes sh1 sh2) = points sh1 - points sh2"
  unfolding set_eq_iff unionShapes_def intersectShapes_def subtractShapes_def
  using shapeOperation_wf [OF good_operations(1) assms] shapeOperation_wf [OF good_operations(2) assms]
    shapeOperation_wf [OF good_operations(3) assms]
  by (simp_all add: combines_operations)

end
