(* ===== verification/Region.thy ===== *)
theory Region
  imports Region_Shape
begin

text \<open>
  The class \<open>Region\<close>: a shape with its bounding rectangle. The lemmas show that the one-pass
  comparison decides inclusion and intersection, that \<open>bounds()\<close> is the smallest enclosing
  rectangle, and that every operation with its early exits is the set operation.
\<close>

section \<open>Regions\<close>

record region =
  m_bounds :: int_rect
  m_shape :: shape

definition region_empty :: region where
  "region_empty = \<lparr>m_bounds = empty_rect, m_shape = empty_shape\<rparr>"

definition region_of_rect :: "int_rect \<Rightarrow> region" where
  "region_of_rect r = \<lparr>m_bounds = r, m_shape = shape_of_rect r\<rparr>"

definition region_isEmpty :: "region \<Rightarrow> bool" where
  "region_isEmpty R = rect_isEmpty (m_bounds R)"

definition region_isRect :: "region \<Rightarrow> bool" where
  "region_isRect R = shape_isRect (m_shape R)"

text \<open>The loops that take the segments two at a time.\<close>

fun segment_pairs :: "int list \<Rightarrow> (int \<times> int) list" where
  "segment_pairs (x # x' # s) = (x, x') # segment_pairs s"
| "segment_pairs s = []"

fun rects_loop :: "row list \<Rightarrow> int_rect list" where
  "rects_loop ((y, g) # (y', g') # r) =
     map (\<lambda>(x, x'). \<lparr>r_x = x, r_y = y, r_width = x' - x, r_height = y' - y\<rparr>) (segment_pairs g) @ rects_loop ((y', g') # r)"
| "rects_loop r = []"

definition rects :: "region \<Rightarrow> int_rect list" where
  "rects R = rects_loop (rows (m_shape R))"

definition totalArea :: "region \<Rightarrow> 32 word" where
  "totalArea R = foldl (\<lambda>total rect. total + of_int (r_width rect * r_height rect)) 0 (rects R)"

fun point_in_segments :: "int \<Rightarrow> int list \<Rightarrow> bool" where
  "point_in_segments px (x # x' # s) = (if x > px then False else if x' > px then True else point_in_segments px s)"
| "point_in_segments px s = False"

fun point_in_spans :: "int \<Rightarrow> int \<Rightarrow> row list \<Rightarrow> bool" where
  "point_in_spans px py ((y, g) # (y', g') # r) =
     (if y > py then False
      else if y' \<le> py then point_in_spans px py ((y', g') # r)
      else if point_in_segments px g then True
      else point_in_spans px py ((y', g') # r))"
| "point_in_spans px py r = False"

definition region_contains_point :: "region \<Rightarrow> int \<Rightarrow> int \<Rightarrow> bool" where
  "region_contains_point R px py =
     (if \<not> rect_contains_point (m_bounds R) px py then False else point_in_spans px py (rows (m_shape R)))"

definition region_contains :: "region \<Rightarrow> region \<Rightarrow> bool" where
  "region_contains R S =
     (if \<not> rect_contains (m_bounds R) (m_bounds S) then False
      else compareShapes CompareContainsOperation (m_shape R) (m_shape S))"

definition region_intersects :: "region \<Rightarrow> region \<Rightarrow> bool" where
  "region_intersects R S =
     (if \<not> rect_intersects (m_bounds R) (m_bounds S) then False
      else compareShapes CompareIntersectsOperation (m_shape R) (m_shape S))"

definition updateBoundsFromShape :: "region \<Rightarrow> region" where
  "updateBoundsFromShape R = R\<lparr>m_bounds := shape_bounds (m_shape R)\<rparr>"

definition region_intersect :: "region \<Rightarrow> region \<Rightarrow> region" where
  "region_intersect R S =
     (if rect_isEmpty (m_bounds R) then R
      else if \<not> rect_intersects (m_bounds R) (m_bounds S) then \<lparr>m_bounds = empty_rect, m_shape = empty_shape\<rparr>
      else let intersectedShape = intersectShapes (m_shape R) (m_shape S) in
        \<lparr>m_bounds = shape_bounds intersectedShape, m_shape = intersectedShape\<rparr>)"

definition region_unite :: "region \<Rightarrow> region \<Rightarrow> region" where
  "region_unite R S =
     (if region_isEmpty S then R
      else if region_isRect R \<and> rect_contains (m_bounds R) (m_bounds S) then R
      else if region_isRect S \<and> rect_contains (m_bounds S) (m_bounds R) then S
      else if \<not> region_isRect R \<and> region_contains R S then R
      else \<lparr>m_bounds = rect_unite (m_bounds R) (m_bounds S), m_shape = unionShapes (m_shape R) (m_shape S)\<rparr>)"

definition region_subtract :: "region \<Rightarrow> region \<Rightarrow> region" where
  "region_subtract R S =
     (if rect_isEmpty (m_bounds R) then R
      else if region_isEmpty S then R
      else if \<not> rect_intersects (m_bounds R) (m_bounds S) then R
      else let subtractedShape = subtractShapes (m_shape R) (m_shape S) in
        \<lparr>m_bounds = shape_bounds subtractedShape, m_shape = subtractedShape\<rparr>)"

definition region_translate :: "int \<Rightarrow> int \<Rightarrow> region \<Rightarrow> region" where
  "region_translate dx dy R =
     \<lparr>m_bounds = rect_move dx dy (m_bounds R), m_shape = shape_translate dx dy (m_shape R)\<rparr>"

section \<open>Segments, one pair at a time\<close>

lemma valid_segments_Cons2:
  "valid_segments (a # b # s) \<longleftrightarrow> a < b \<and> (\<forall>v\<in>set s. b < v) \<and> valid_segments s"
  by (auto simp: valid_segments_def)

lemma valid_segments_Nil [simp]: "valid_segments []" and not_valid_single [simp]: "\<not> valid_segments [a]"
  by (simp_all add: valid_segments_def)

definition seg_set :: "int list \<Rightarrow> int set" where
  "seg_set s = {x. inside x s}"

lemma seg_set_Nil [simp]: "seg_set [] = {}"
  by (simp add: seg_set_def)

lemma seg_set_above: "\<forall>v\<in>set s. b < v \<Longrightarrow> x \<in> seg_set s \<Longrightarrow> b < x"
  using inside_none [of s x] by (force simp: seg_set_def)

lemma seg_set_Cons2:
  assumes "valid_segments (a # b # s)"
  shows "seg_set (a # b # s) = {a..<b} \<union> seg_set s" "{a..<b} \<inter> seg_set s = {}"
proof -
  have ab: "a < b" "\<forall>v\<in>set s. b < v" using assms by (simp_all add: valid_segments_Cons2)
  from ab seg_set_above [OF ab(2)] show "{a..<b} \<inter> seg_set s = {}" by force
  have "inside x (a # b # s) \<longleftrightarrow> (a \<le> x \<and> x < b) \<or> inside x s" for x
  proof (cases "x < b")
    case True
    then have "\<not> inside x s" using seg_set_above [OF ab(2), of x] by (auto simp: seg_set_def)
    with True show ?thesis by (simp add: inside_Cons)
  next
    case False
    then show ?thesis using ab(1) by (simp add: inside_Cons)
  qed
  then show "seg_set (a # b # s) = {a..<b} \<union> seg_set s" by (intro set_eqI) (simp add: seg_set_def)
qed

lemma valid_segments_cases:
  assumes "valid_segments s"
  obtains "s = []" | a b s' where "s = a # b # s'" "a < b" "\<forall>v\<in>set s'. b < v" "valid_segments s'"
proof (cases s)
  case Nil
  then show ?thesis by (rule that(1))
next
  case (Cons a t)
  with assms show ?thesis by (cases t) (auto simp: valid_segments_Cons2 intro: that(2))
qed

lemma seg_set_empty: "valid_segments s \<Longrightarrow> seg_set s = {} \<longleftrightarrow> s = []"
  by (erule valid_segments_cases) (auto simp: seg_set_Cons2 valid_segments_Cons2)

lemma seg_set_hd: "valid_segments s \<Longrightarrow> s \<noteq> [] \<Longrightarrow> hd s \<in> seg_set s"
  by (erule valid_segments_cases) (auto simp: seg_set_Cons2 valid_segments_Cons2)

lemma point_in_segments_iff: "valid_segments s \<Longrightarrow> point_in_segments px s \<longleftrightarrow> px \<in> seg_set s"
proof (induction px s rule: point_in_segments.induct)
  case (1 px x x' s)
  then have v: "x < x'" "\<forall>v\<in>set s. x' < v" "valid_segments s" by (simp_all add: valid_segments_Cons2)
  with 1 seg_set_above [OF v(2), of px] show ?case by (auto simp: seg_set_Cons2)
qed simp_all

lemma finite_seg_set: "valid_segments s \<Longrightarrow> finite (seg_set s)"
  and card_seg_set: "valid_segments s \<Longrightarrow> int (card (seg_set s)) = (\<Sum>(x, x')\<leftarrow>segment_pairs s. x' - x)"
proof (induction s rule: segment_pairs.induct)
  case (1 x x' s)
  {
    case 1
    then show ?case using "1.IH"(1) by (simp add: seg_set_Cons2 valid_segments_Cons2)
  next
    case 2
    then have v: "x < x'" "valid_segments s" by (simp_all add: valid_segments_Cons2)
    then have "card (seg_set (x # x' # s)) = card {x..<x'} + card (seg_set s)"
      using 2 "1.IH"(1) by (simp add: seg_set_Cons2 card_Un_disjoint)
    then show ?case using v "1.IH"(2) by simp
  }
qed simp_all

section \<open>Comparing segments\<close>

lemma stop_if_None: "stop_if c t r = None \<longleftrightarrow> (c \<longrightarrow> t = None) \<and> r = None"
  by (auto simp: stop_if_def split: option.splits)

lemma compare_segments_contains:
  "valid_segments as \<Longrightarrow> valid_segments bs \<Longrightarrow>
     compare_segments CompareContainsOperation as bs = None \<longleftrightarrow> seg_set bs \<subseteq> seg_set as"
proof (induction CompareContainsOperation as bs rule: compare_segments.induct)
  case (1 aX aMaxX as bX bMaxX bs)
  note va = "1.prems"(1)[unfolded valid_segments_Cons2] and vb = "1.prems"(2)[unfolded valid_segments_Cons2]
  have A: "seg_set (aX # aMaxX # as) = {aX..<aMaxX} \<union> seg_set as" and B: "seg_set (bX # bMaxX # bs) = {bX..<bMaxX} \<union> seg_set bs"
    using "1.prems" by (simp_all add: seg_set_Cons2)
  have as: "aMaxX < x" if "x \<in> seg_set as" for x using seg_set_above [of as aMaxX x] va that by simp
  have bs: "bMaxX < x" if "x \<in> seg_set bs" for x using seg_set_above [of bs bMaxX x] vb that by simp
  show ?case
  proof (cases "bX < aX")
    case True
    then have "bX \<notin> seg_set (aX # aMaxX # as)" using as [of bX] va by (auto simp: A)
    with True vb show ?thesis by (auto simp: stop_if_None CompareContainsOperation_def B)
  next
    case False
    consider "aMaxX < bMaxX" | "bMaxX < aMaxX" | "aMaxX = bMaxX" by linarith
    then show ?thesis
    proof cases
      case 1
      have "seg_set (bX # bMaxX # bs) \<subseteq> seg_set (aX # aMaxX # as) \<longleftrightarrow> seg_set (bX # bMaxX # bs) \<subseteq> seg_set as"
      proof (cases "bX < aMaxX")
        case True
        then have "aMaxX \<in> seg_set (bX # bMaxX # bs)" "aMaxX \<notin> seg_set (aX # aMaxX # as)" "aMaxX \<notin> seg_set as"
          using 1 as [of aMaxX] by (auto simp: A B)
        then show ?thesis by blast
      next
        case False
        then have "aMaxX \<le> x" if "x \<in> seg_set (bX # bMaxX # bs)" for x
          using that bs [of x] 1 by (auto simp: B)
        then show ?thesis using A by fastforce
      qed
      with 1 False "1.hyps"(1) "1.prems" va show ?thesis
        by (simp add: stop_if_None CompareContainsOperation_def)
    next
      case 2
      then have "{bX..<bMaxX} \<subseteq> {aX..<aMaxX}" using False by auto
      then have "seg_set (bX # bMaxX # bs) \<subseteq> seg_set (aX # aMaxX # as) \<longleftrightarrow> seg_set bs \<subseteq> seg_set (aX # aMaxX # as)"
        unfolding A B by blast
      with 2 False "1.hyps"(2) "1.prems" vb show ?thesis
        by (simp add: stop_if_None CompareContainsOperation_def)
    next
      case 3
      then have "{bX..<bMaxX} \<subseteq> {aX..<aMaxX}" "{aX..<aMaxX} \<inter> seg_set bs = {}" using False bs by force+
      then have "seg_set (bX # bMaxX # bs) \<subseteq> seg_set (aX # aMaxX # as) \<longleftrightarrow> seg_set bs \<subseteq> seg_set as"
        unfolding A B by blast
      with 3 False "1.hyps"(3) "1.prems" va vb show ?thesis
        by (simp add: stop_if_None CompareContainsOperation_def)
    qed
  qed
qed (auto simp: stop_if_None CompareContainsOperation_def seg_set_empty)

lemma compare_segments_intersects:
  "valid_segments as \<Longrightarrow> valid_segments bs \<Longrightarrow>
     compare_segments CompareIntersectsOperation as bs = None \<longleftrightarrow> seg_set as \<inter> seg_set bs = {}"
proof (induction CompareIntersectsOperation as bs rule: compare_segments.induct)
  case (1 aX aMaxX as bX bMaxX bs)
  note va = "1.prems"(1)[unfolded valid_segments_Cons2] and vb = "1.prems"(2)[unfolded valid_segments_Cons2]
  have A: "seg_set (aX # aMaxX # as) = {aX..<aMaxX} \<union> seg_set as" and B: "seg_set (bX # bMaxX # bs) = {bX..<bMaxX} \<union> seg_set bs"
    using "1.prems" by (simp_all add: seg_set_Cons2)
  have as: "aMaxX < x" if "x \<in> seg_set as" for x using seg_set_above [of as aMaxX x] va that by simp
  have bs: "bMaxX < x" if "x \<in> seg_set bs" for x using seg_set_above [of bs bMaxX x] vb that by simp
  show ?case
  proof (cases "bMaxX > aX \<and> bX < aMaxX")
    case True
    then have "max aX bX \<in> seg_set (aX # aMaxX # as) \<inter> seg_set (bX # bMaxX # bs)" using va vb by (simp add: A B)
    with True show ?thesis by (auto simp: stop_if_None CompareIntersectsOperation_def)
  next
    case False
    then have disj: "{aX..<aMaxX} \<inter> {bX..<bMaxX} = {}" by force
    consider "aMaxX < bMaxX" | "bMaxX < aMaxX" | "aMaxX = bMaxX" by linarith
    then show ?thesis
    proof cases
      case 1
      then have "{aX..<aMaxX} \<inter> seg_set bs = {}" using bs by force
      then have "seg_set (aX # aMaxX # as) \<inter> seg_set (bX # bMaxX # bs) = {} \<longleftrightarrow> seg_set as \<inter> seg_set (bX # bMaxX # bs) = {}"
        using disj unfolding A B by blast
      with 1 False "1.hyps"(1) "1.prems" va show ?thesis
        by (simp add: stop_if_None CompareIntersectsOperation_def)
    next
      case 2
      then have "{bX..<bMaxX} \<inter> seg_set as = {}" using as by force
      then have "seg_set (aX # aMaxX # as) \<inter> seg_set (bX # bMaxX # bs) = {} \<longleftrightarrow> seg_set (aX # aMaxX # as) \<inter> seg_set bs = {}"
        using disj unfolding A B by blast
      with 2 False "1.hyps"(2) "1.prems" vb show ?thesis
        by (simp add: stop_if_None CompareIntersectsOperation_def)
    next
      case 3
      with False va vb show ?thesis by linarith
    qed
  qed
qed (auto simp: stop_if_None CompareIntersectsOperation_def)

section \<open>Comparing spans\<close>

lemma row_at_second:
  assumes "valid_from c ((y, g) # (y', g') # r)"
  shows "y < y'" "y \<le> v \<Longrightarrow> v < y' \<Longrightarrow> row_at ((y, g) # (y', g') # r) c' v = g"
    "y' \<le> v \<Longrightarrow> row_at ((y, g) # (y', g') # r) c' v = row_at ((y', g') # r) c'' v"
  using assms by (auto simp: valid_from_Cons)

lemma compare_fields [simp]:
  "co_aOutsideB CompareIntersectsOperation = None" "co_bOutsideA CompareIntersectsOperation = None"
  "co_aOutsideB CompareContainsOperation = None" "co_bOutsideA CompareContainsOperation = Some False"
  by (simp_all add: CompareIntersectsOperation_def CompareContainsOperation_def)

text \<open>
  A statement on all common rows is one on the rows of the current spans, if these
  overlap, and one on what is left after a step of the loop.
\<close>

lemma span_step:
  fixes Q :: "int list \<Rightarrow> int list \<Rightarrow> bool"
  assumes a: "valid_from ca ((aY, as) # (aM, as') # ar)" and b: "valid_from cb ((bY, bs) # (bM, bs') # br)"
  defines "A \<equiv> (aY, as) # (aM, as') # ar" and "B \<equiv> (bY, bs) # (bM, bs') # br"
  defines "A' \<equiv> (if aM \<le> bM then (aM, as') # ar else A)" and "B' \<equiv> (if bM \<le> aM then (bM, bs') # br else B)"
  shows "(\<forall>y. aY \<le> y \<and> bY \<le> y \<longrightarrow> Q (row_at A [] y) (row_at B [] y)) \<longleftrightarrow>
    (bM > aY \<and> bY < aM \<longrightarrow> Q as bs) \<and>
    (\<forall>y. fst (hd A') \<le> y \<and> fst (hd B') \<le> y \<longrightarrow> Q (row_at A' [] y) (row_at B' [] y))"
proof -
  have o: "aY < aM" "bY < bM" using row_at_second(1) [OF a] row_at_second(1) [OF b] by auto
  have ra: "aY \<le> y \<Longrightarrow> y < aM \<Longrightarrow> row_at A [] y = as" "aM \<le> y \<Longrightarrow> row_at A [] y = row_at ((aM, as') # ar) [] y" for y
    unfolding A_def by (rule row_at_second [OF a]; assumption)+
  have rb: "bY \<le> y \<Longrightarrow> y < bM \<Longrightarrow> row_at B [] y = bs" "bM \<le> y \<Longrightarrow> row_at B [] y = row_at ((bM, bs') # br) [] y" for y
    unfolding B_def by (rule row_at_second [OF b]; assumption)+
  have hd: "fst (hd A') = (if aM \<le> bM then aM else aY)" "fst (hd B') = (if bM \<le> aM then bM else bY)"
    by (simp_all add: A'_def B'_def A_def B_def)
  have ra': "fst (hd A') \<le> y \<Longrightarrow> row_at A' [] y = row_at A [] y" for y using ra(2) [of y] by (simp add: hd A'_def split: if_splits)
  have rb': "fst (hd B') \<le> y \<Longrightarrow> row_at B' [] y = row_at B [] y" for y using rb(2) [of y] by (simp add: hd B'_def split: if_splits)
  show ?thesis (is "?L \<longleftrightarrow> ?O \<and> ?R")
  proof
    assume l: ?L
    have ?O
    proof
      assume "bM > aY \<and> bY < aM"
      then show "Q as bs" using l [rule_format, of "max aY bY"] ra(1) [of "max aY bY"] rb(1) [of "max aY bY"] o by simp
    qed
    moreover have ?R
    proof (intro allI impI)
      fix y assume y: "fst (hd A') \<le> y \<and> fst (hd B') \<le> y"
      then have "aY \<le> y \<and> bY \<le> y" using o by (auto simp: hd split: if_splits)
      then show "Q (row_at A' [] y) (row_at B' [] y)" using l y ra' rb' by simp
    qed
    ultimately show "?O \<and> ?R" ..
  next
    assume r: "?O \<and> ?R"
    show ?L
    proof (intro allI impI)
      fix y assume y: "aY \<le> y \<and> bY \<le> y"
      show "Q (row_at A [] y) (row_at B [] y)"
      proof (cases "y < aM \<and> y < bM")
        case True
        then show ?thesis using r y ra(1) rb(1) by auto
      next
        case False
        then have "fst (hd A') \<le> y \<and> fst (hd B') \<le> y" using y by (auto simp: hd)
        then show ?thesis using r ra' rb' by auto
      qed
    qed
  qed
qed

lemma row_at_last: "valid_from c [r] \<Longrightarrow> row_at [r] c' y = (if fst r \<le> y then [] else c')"
  by (cases r) (auto simp: valid_from_def)

lemma row_at_valid_nil: "valid_from c rs \<Longrightarrow> valid_segments (row_at rs [] y)"
  by (cases rs) (auto simp: valid_from_Cons row_at_valid)

lemma compare_spans_intersects:
  "valid_from ca (a # ar) \<Longrightarrow> valid_from cb (b # br) \<Longrightarrow>
     compare_spans CompareIntersectsOperation (a # ar) (b # br) aHad bHad = None \<longleftrightarrow>
     (\<forall>y. fst a \<le> y \<and> fst b \<le> y \<longrightarrow> seg_set (row_at (a # ar) [] y) \<inter> seg_set (row_at (b # br) [] y) = {})"
proof (induction CompareIntersectsOperation "a # ar" "b # br" aHad bHad arbitrary: a ar b br ca cb rule: compare_spans.induct)
  case (1 aY as aMaxY as' ar bY bs bMaxY bs' br aHad bHad)
  have v: "valid_from as ((aMaxY, as') # ar)" "valid_from bs ((bMaxY, bs') # br)"
    using "1.prems" by (simp_all add: valid_from_Cons)
  let ?s = "if bMaxY > aY \<and> bY < aMaxY then compare_segments CompareIntersectsOperation as bs else None"
  have seg: "?s = None \<longleftrightarrow> (bMaxY > aY \<and> bY < aMaxY \<longrightarrow> seg_set as \<inter> seg_set bs = {})"
    using v by (auto simp: compare_segments_intersects valid_from_segments)
  note step = span_step [OF "1.prems", of "\<lambda>s t. seg_set s \<inter> seg_set t = {}", unfolded seg [symmetric]]
  show ?case
  proof (cases ?s)
    case None
    note ih = "1.hyps"(1) [OF None _ v(1) "1.prems"(2)] "1.hyps"(2) [OF None _ _ "1.prems"(1) v(2)] "1.hyps"(3) [OF None _ _ v]
    show ?thesis
      unfolding compare_spans.simps(1) stop_if_None None option.case compare_fields
      using None step ih by (cases aMaxY bMaxY rule: linorder_cases) (simp_all del: row_at.simps)
  next
    case (Some r)
    show ?thesis unfolding compare_spans.simps(1) stop_if_None Some option.case compare_fields
      using step Some by (simp del: row_at.simps)
  qed
next
  case (3 a br aHad bHad)
  then show ?case by (auto simp: row_at_last stop_if_None CompareIntersectsOperation_def)
next
  case (5 a a' ar b aHad bHad)
  then show ?case by (auto simp: row_at_last stop_if_None CompareIntersectsOperation_def)
qed

definition reached :: "row \<Rightarrow> row list \<Rightarrow> row \<Rightarrow> bool \<Rightarrow> bool" where
  "reached b br a aHad \<longleftrightarrow> (fst b < fst a \<longrightarrow> (\<not> aHad \<and> snd b \<noteq> []) \<or> (br \<noteq> [] \<and> fst a < fst (hd br)))"

lemma compare_spans_contains:
  "valid_from ca (a # ar) \<Longrightarrow> valid_from cb (b # br) \<Longrightarrow> reached b br a aHad \<Longrightarrow>
     compare_spans CompareContainsOperation (a # ar) (b # br) aHad bHad = None \<longleftrightarrow>
     (fst b < fst a \<and> \<not> aHad \<longrightarrow> snd b = []) \<and>
     (\<forall>y. fst a \<le> y \<and> fst b \<le> y \<longrightarrow> seg_set (row_at (b # br) [] y) \<subseteq> seg_set (row_at (a # ar) [] y))"
proof (induction CompareContainsOperation "a # ar" "b # br" aHad bHad arbitrary: a ar b br ca cb rule: compare_spans.induct)
  case (1 aY as aMaxY as' ar bY bs bMaxY bs' br aHad bHad)
  note pa = "1.prems"(1) and pb = "1.prems"(2)
  have v: "valid_from as ((aMaxY, as') # ar)" "valid_from bs ((bMaxY, bs') # br)"
    using pa pb by (simp_all add: valid_from_Cons)
  have o: "aY < aMaxY" "bY < bMaxY" using row_at_second(1) [OF pa] row_at_second(1) [OF pb] by auto
  show ?case
  proof (cases "bY < aY \<and> \<not> aHad \<and> bs \<noteq> []")
    case True
    then show ?thesis by (simp add: stop_if_None CompareContainsOperation_def)
  next
    case False
    then have "aY < bMaxY" using "1.prems"(3) o by (auto simp: reached_def)
    let ?s = "if bMaxY > aY \<and> bY < aMaxY then compare_segments CompareContainsOperation as bs else None"
    have seg: "?s = None \<longleftrightarrow> (bMaxY > aY \<and> bY < aMaxY \<longrightarrow> seg_set bs \<subseteq> seg_set as)"
      using v by (auto simp: compare_segments_contains valid_from_segments)
    note step = span_step [OF pa pb, of "\<lambda>s t. seg_set t \<subseteq> seg_set s", unfolded seg [symmetric]]
    show ?thesis
    proof (cases ?s)
      case None
      have emp: "bs = []" if "bY < aMaxY" "as = []"
        using None that seg \<open>aY < bMaxY\<close> seg_set_empty [of bs] v(2) by (auto simp: valid_from_segments)
      consider "aMaxY < bMaxY" | "bMaxY < aMaxY" | "aMaxY = bMaxY" by linarith
      then show ?thesis
      proof cases
        case 1
        have "reached (bY, bs) ((bMaxY, bs') # br) (aMaxY, as') (as \<noteq> [])" using 1 by (simp add: reached_def)
        from "1.hyps"(1) [OF None 1 v(1) pb this] show ?thesis
          unfolding compare_spans.simps(1) stop_if_None None option.case compare_fields
          using None step 1 False emp by (simp del: row_at.simps) blast
      next
        case 2
        have "reached (bMaxY, bs') br (aY, as) (as \<noteq> [])" using \<open>aY < bMaxY\<close> by (simp add: reached_def)
        from "1.hyps"(2) [OF None _ 2 pa v(2) this] show ?thesis
          unfolding compare_spans.simps(1) stop_if_None None option.case compare_fields
          using None step 2 False \<open>aY < bMaxY\<close> by (simp del: row_at.simps) blast
      next
        case 3
        have "reached (bMaxY, bs') br (aMaxY, as') (as \<noteq> [])" using 3 by (simp add: reached_def)
        from "1.hyps"(3) [OF None _ _ v this] show ?thesis
          unfolding compare_spans.simps(1) stop_if_None None option.case compare_fields
          using None step 3 False by (simp del: row_at.simps) blast
      qed
    next
      case (Some r)
      show ?thesis unfolding compare_spans.simps(1) stop_if_None Some option.case compare_fields
        using step Some by (simp del: row_at.simps)
    qed
  qed
next
  case (3 a aHad bHad)
  show ?case
  proof (cases br)
    case Nil
    have "snd b = []" using 3(2) by (cases b) (simp add: Nil valid_from_def)
    moreover have "row_at [b] [] y = []" for y using 3(2) by (simp add: Nil row_at_last)
    ultimately show ?thesis by (simp add: Nil stop_if_None del: row_at.simps)
  next
    case (Cons b2 br2)
    obtain bY bs bMaxY bs' where b: "b = (bY, bs)" "b2 = (bMaxY, bs')" by fastforce
    have pb: "valid_from cb ((bY, bs) # (bMaxY, bs') # br2)" using 3(2) by (simp add: Cons b)
    have o: "bY < bMaxY" by (rule row_at_second(1) [OF pb])
    have rest: "bs' \<noteq> bs" using pb by (simp add: valid_from_Cons)
    have A: "fst a \<le> y \<Longrightarrow> row_at [a] [] y = []" for y using 3 by (simp add: row_at_last)
    have "\<not> ((bY < fst a \<and> \<not> aHad \<longrightarrow> bs = []) \<and>
      (\<forall>y. fst a \<le> y \<and> bY \<le> y \<longrightarrow> seg_set (row_at (b # br) [] y) \<subseteq> seg_set (row_at [a] [] y)))"
    proof
      assume h: "(bY < fst a \<and> \<not> aHad \<longrightarrow> bs = []) \<and>
        (\<forall>y. fst a \<le> y \<and> bY \<le> y \<longrightarrow> seg_set (row_at (b # br) [] y) \<subseteq> seg_set (row_at [a] [] y))"
      then have lt: "fst a < bMaxY" using 3 o by (auto simp: reached_def b Cons)
      have B: "row_at (b # br) [] y = []" if "fst a \<le> y" "bY \<le> y" for y
        using h that A [OF that(1)] seg_set_empty [OF row_at_valid_nil [OF 3(2), of y]] by (auto simp del: row_at.simps)
      have "\<not> bMaxY \<le> max (fst a) bY" using lt o by simp
      then have "bs = []" using B [of "max (fst a) bY"] by (simp add: b Cons)
      moreover have "row_at br2 bs' bMaxY = bs'"
        using 3(2) by (intro row_at_before) (simp add: b Cons valid_from_Cons)
      then have "bs' = []" using B [of bMaxY] lt o by (simp add: b Cons)
      ultimately show False using rest by simp
    qed
    then show ?thesis using Cons by (simp add: stop_if_None b)
  qed
next
  case (5 a a' ar b aHad bHad)
  then have "snd b = []" by (cases b) (simp add: valid_from_def)
  with 5 show ?case by (auto simp: row_at_last stop_if_None)
qed

text \<open>A comparison stops only with a result of one of its tests.\<close>

definition stops :: "compare_operation \<Rightarrow> bool option \<Rightarrow> bool" where
  "stops op r \<longleftrightarrow> r \<in> {None, co_aOutsideB op, co_bOutsideA op, co_aOverlapsB op}"

lemma stops_stop_if:
  "stops op r \<Longrightarrow> stops op (stop_if c (co_aOutsideB op) r)" "stops op r \<Longrightarrow> stops op (stop_if c (co_bOutsideA op) r)"
  "stops op r \<Longrightarrow> stops op (stop_if c (co_aOverlapsB op) r)" "stops op None"
  by (auto simp: stops_def stop_if_def split: option.splits)

lemma stops_compare_segments: "stops op (compare_segments op as bs)"
  by (induction op as bs rule: compare_segments.induct) (auto intro!: stops_stop_if)

lemma stops_compare_spans: "stops op (compare_spans op ar br aHad bHad)"
proof (induction op ar br aHad bHad rule: compare_spans.induct)
  case (1 op aY as aMaxY as' ar bY bs bMaxY bs' br aHad bHad)
  show ?case
  proof (cases "if bMaxY > aY \<and> bY < aMaxY then compare_segments op as bs else None")
    case None
    note ih = "1.IH"(1) [OF None] "1.IH"(2) [OF None] "1.IH"(3) [OF None]
    show ?thesis unfolding compare_spans.simps(1) None option.case
      using ih by (intro stops_stop_if) simp
  next
    case (Some r)
    moreover have "stops op (if bMaxY > aY \<and> bY < aMaxY then compare_segments op as bs else None)"
      by (simp add: stops_compare_segments stops_stop_if)
    ultimately show ?thesis unfolding compare_spans.simps(1) Some option.case
      by (intro stops_stop_if) simp
  qed
qed (auto intro!: stops_stop_if)

lemma compareShapes_None:
  "compareShapes CompareContainsOperation A B \<longleftrightarrow> compare_spans CompareContainsOperation (rows A) (rows B) False False = None"
  "\<not> compareShapes CompareIntersectsOperation A B \<longleftrightarrow> compare_spans CompareIntersectsOperation (rows A) (rows B) False False = None"
  using stops_compare_spans [of CompareContainsOperation "rows A" "rows B" False False]
    stops_compare_spans [of CompareIntersectsOperation "rows A" "rows B" False False]
  by (auto simp: compareShapes_def stops_def CompareContainsOperation_def CompareIntersectsOperation_def split: option.splits)

lemma row_at_outside: "valid_from c (r # rs) \<Longrightarrow> y < fst r \<Longrightarrow> row_at (r # rs) c' y = c'"
  by (cases r) simp

lemma points_seg: "points sh = {(x, y). x \<in> seg_set (row_at (rows sh) [] y)}"
  by (simp add: points_def seg_set_def)

lemma compareShapes_contains:
  assumes "shape_wf A" "shape_wf B" "\<not> shape_isEmpty A" "\<not> shape_isEmpty B"
  shows "compareShapes CompareContainsOperation A B \<longleftrightarrow> points B \<subseteq> points A"
proof -
  obtain a ar b br where r: "rows A = a # ar" "rows B = b # br"
    using assms(3,4) by (metis list.exhaust rows_empty(2) shape_isEmpty_def)
  have v: "valid_from [] (a # ar)" "valid_from [] (b # br)"
    using assms(1,2) r by (simp_all add: shape_wf_def valid_rows_from)
  have nb: "snd b \<noteq> []" using v(2) by (cases b) (simp add: valid_from_Cons)
  have vb: "valid_segments (row_at (b # br) [] y)" for y using v(2) by (rule row_at_valid)
  have "reached b br a False" using nb by (simp add: reached_def)
  from compare_spans_contains [OF v this] nb
  have c: "compareShapes CompareContainsOperation A B \<longleftrightarrow> \<not> fst b < fst a \<and>
     (\<forall>y. fst a \<le> y \<and> fst b \<le> y \<longrightarrow> seg_set (row_at (b # br) [] y) \<subseteq> seg_set (row_at (a # ar) [] y))"
    unfolding compareShapes_None r by simp
  have at_b: "row_at (b # br) [] (fst b) = snd b"
    using v(2) row_at_before [of br "fst b" "snd b"] by (cases b) (simp add: valid_from_Cons)
  have "points B \<subseteq> points A \<longleftrightarrow> (\<forall>y. seg_set (row_at (b # br) [] y) \<subseteq> seg_set (row_at (a # ar) [] y))"
    by (auto simp: points_seg r)
  also have "\<dots> \<longleftrightarrow> \<not> fst b < fst a \<and>
     (\<forall>y. fst a \<le> y \<and> fst b \<le> y \<longrightarrow> seg_set (row_at (b # br) [] y) \<subseteq> seg_set (row_at (a # ar) [] y))" (is "?L \<longleftrightarrow> ?R")
  proof
    assume l: ?L
    have "\<not> fst b < fst a"
      using l [rule_format, of "fst b"] at_b nb row_at_outside [OF v(1), of "fst b" "[]"] seg_set_empty [OF vb [of "fst b"]]
      by (auto simp del: row_at.simps)
    with l show ?R by blast
  next
    assume r: ?R
    show ?L
    proof
      fix y
      show "seg_set (row_at (b # br) [] y) \<subseteq> seg_set (row_at (a # ar) [] y)"
        using r row_at_outside [OF v(2), of y "[]"] by (cases "y < fst b") (simp_all del: row_at.simps)
    qed
  qed
  finally show ?thesis using c by simp
qed

lemma compareShapes_intersects:
  assumes "shape_wf A" "shape_wf B" "\<not> shape_isEmpty A" "\<not> shape_isEmpty B"
  shows "compareShapes CompareIntersectsOperation A B \<longleftrightarrow> points A \<inter> points B \<noteq> {}"
proof -
  obtain a ar b br where r: "rows A = a # ar" "rows B = b # br"
    using assms(3,4) by (metis list.exhaust rows_empty(2) shape_isEmpty_def)
  have v: "valid_from [] (a # ar)" "valid_from [] (b # br)"
    using assms(1,2) r by (simp_all add: shape_wf_def valid_rows_from)
  have "\<not> compareShapes CompareIntersectsOperation A B \<longleftrightarrow>
     (\<forall>y. fst a \<le> y \<and> fst b \<le> y \<longrightarrow> seg_set (row_at (a # ar) [] y) \<inter> seg_set (row_at (b # br) [] y) = {})"
    unfolding compareShapes_None r by (rule compare_spans_intersects [OF v])
  also have "\<dots> \<longleftrightarrow> (\<forall>y. seg_set (row_at (a # ar) [] y) \<inter> seg_set (row_at (b # br) [] y) = {})"
    using row_at_outside [OF v(1), of _ "[]"] row_at_outside [OF v(2), of _ "[]"]
    by (metis Int_empty_left Int_empty_right not_le_imp_less seg_set_Nil)
  also have "\<dots> \<longleftrightarrow> points A \<inter> points B = {}" by (auto simp: points_seg r)
  finally show ?thesis by blast
qed

section \<open>Tight bounds\<close>

definition rect_points :: "int_rect \<Rightarrow> (int \<times> int) set" where
  "rect_points r = {r_x r..<maxX r} \<times> {r_y r..<maxY r}"

definition tight :: "int_rect \<Rightarrow> (int \<times> int) set \<Rightarrow> bool" where
  "tight r P \<longleftrightarrow> P \<subseteq> rect_points r \<and> (\<exists>y. (r_x r, y) \<in> P) \<and> (\<exists>y. (maxX r - 1, y) \<in> P)
     \<and> (\<exists>x. (x, r_y r) \<in> P) \<and> (\<exists>x. (x, maxY r - 1) \<in> P)"

lemma rect_points_empty: "rect_points r = {} \<longleftrightarrow> rect_isEmpty r"
  by (auto simp: rect_points_def rect_isEmpty_def maxX_def maxY_def)

lemma tight_nonempty: "tight r P \<Longrightarrow> \<not> rect_isEmpty r"
  using rect_points_empty by (auto simp: tight_def)

lemma tight_unite:
  assumes "tight r P" "tight s Q"
  shows "tight (rect_unite r s) (P \<union> Q)"
proof -
  have ne: "\<not> rect_isEmpty r" "\<not> rect_isEmpty s" using assms tight_nonempty by auto
  let ?u = "rect_unite r s"
  have u: "r_x ?u = min (r_x r) (r_x s)" "maxX ?u = max (maxX r) (maxX s)" "r_y ?u = min (r_y r) (r_y s)" "maxY ?u = max (maxY r) (maxY s)"
    using ne by (simp_all add: rect_unite_def Let_def maxX_def maxY_def)
  have sub: "P \<union> Q \<subseteq> rect_points ?u"
    using assms by (fastforce simp: tight_def rect_points_def u)
  moreover have "\<exists>y. (r_x ?u, y) \<in> P \<union> Q" using assms by (auto simp: tight_def u min_def)
  moreover have "\<exists>y. (maxX ?u - 1, y) \<in> P \<union> Q" using assms by (auto simp: tight_def u max_def)
  moreover have "\<exists>x. (x, r_y ?u) \<in> P \<union> Q" using assms by (auto simp: tight_def u min_def)
  moreover have "\<exists>x. (x, maxY ?u - 1) \<in> P \<union> Q" using assms by (auto simp: tight_def u max_def)
  ultimately show ?thesis by (simp add: tight_def)
qed

lemma tight_disjoint:
  assumes "tight r P" "tight s Q" "\<not> rect_intersects r s"
  shows "P \<inter> Q = {}"
proof -
  have "rect_points r \<inter> rect_points s = {}"
    using assms(3) tight_nonempty [OF assms(1)] tight_nonempty [OF assms(2)]
    by (fastforce simp: rect_points_def rect_intersects_def)
  then show ?thesis using assms(1,2) by (auto simp: tight_def)
qed

lemma tight_contains:
  assumes "tight r P" "tight s Q"
  shows "rect_contains r s \<longleftrightarrow> Q \<subseteq> rect_points r"
proof
  assume "rect_contains r s"
  then show "Q \<subseteq> rect_points r" using assms(2) by (fastforce simp: tight_def rect_points_def rect_contains_def)
next
  assume q: "Q \<subseteq> rect_points r"
  obtain y1 y2 x1 x2 where "(r_x s, y1) \<in> Q" "(maxX s - 1, y2) \<in> Q" "(x1, r_y s) \<in> Q" "(x2, maxY s - 1) \<in> Q"
    using assms(2) by (auto simp: tight_def)
  with q have "(r_x s, y1) \<in> rect_points r" "(maxX s - 1, y2) \<in> rect_points r" "(x1, r_y s) \<in> rect_points r"
    "(x2, maxY s - 1) \<in> rect_points r" by auto
  then show "rect_contains r s" by (simp add: rect_points_def rect_contains_def)
qed

lemma tight_box:
  assumes "tight r ({a..<b} \<times> {c..<d})"
  shows "rect_points r = {a..<b} \<times> {c..<d}"
  using assms by (auto simp: tight_def rect_points_def)

section \<open>Segments of a shape\<close>

lemma rows_nth: "i < length (m_spans sh) \<Longrightarrow> rows sh ! i = (span_y (m_spans sh ! i), segments_of sh i)"
  by (simp add: rows_def)

lemma segment_end_le: "well_indexed sh \<Longrightarrow> segment_end sh i \<le> length (m_segments sh)"
  by (auto simp: segment_end_def well_indexed_def)

lemma concat_rows:
  assumes "well_indexed sh"
  shows "concat (map snd (rows sh)) = m_segments sh"
proof -
  let ?n = "length (m_spans sh)" and ?idx = "\<lambda>i. segmentIndex (m_spans sh ! i)"
  have pre: "concat (map (\<lambda>i. segments_of sh i) [0..<k]) = take (if k = 0 then 0 else segment_end sh (k - 1)) (m_segments sh)"
    if "k \<le> ?n" for k using that
  proof (induction k)
    case (Suc k)
    have eq: "(if k = 0 then 0 else segment_end sh (k - 1)) = ?idx k"
      using assms Suc.prems by (auto simp: well_indexed_def segment_end_def hd_conv_nth)
    have le: "?idx k \<le> segment_end sh k"
      using assms Suc.prems sorted_nth_mono [of "map segmentIndex (m_spans sh)" k "Suc k"]
      by (auto simp: well_indexed_def segment_end_def)
    show ?case using Suc eq le by (simp add: segments_of_between between_def take_add [symmetric])
  qed simp
  show ?thesis
  proof (cases "?n = 0")
    case True
    then show ?thesis using assms by (simp add: rows_def well_indexed_def)
  next
    case False
    then have "segment_end sh (?n - 1) = length (m_segments sh)" by (simp add: segment_end_def)
    then show ?thesis using pre [of ?n] False by (simp add: rows_def comp_def)
  qed
qed

lemma segments_of_ends:
  assumes "well_indexed sh" "segments_of sh i \<noteq> []"
  shows "segmentIndex (m_spans sh ! i) < segment_end sh i" "hd (segments_of sh i) = m_segments sh ! segmentIndex (m_spans sh ! i)"
    "last (segments_of sh i) = m_segments sh ! (segment_end sh i - 1)" "segmentIndex (m_spans sh ! i) \<noteq> length (m_segments sh)"
proof -
  let ?b = "segmentIndex (m_spans sh ! i)" and ?e = "segment_end sh i"
  have e: "?e \<le> length (m_segments sh)" by (rule segment_end_le [OF assms(1)])
  show b: "?b < ?e" using assms(2) by (cases "?b < ?e") (simp_all add: segments_of_between between_def)
  then show "?b \<noteq> length (m_segments sh)" using e by simp
  show "hd (segments_of sh i) = m_segments sh ! ?b"
    using b e by (simp add: segments_of_between between_def hd_drop_conv_nth)
  have "last (segments_of sh i) = drop ?b (m_segments sh) ! (?e - ?b - 1)"
    using b e by (simp add: segments_of_between between_def last_conv_nth)
  then show "last (segments_of sh i) = m_segments sh ! (?e - 1)" using b e by simp
qed

lemma bounds_loop_bounds:
  assumes "well_indexed sh"
  shows "bounds_loop sh is lo0 hi0 = (lo, hi) \<Longrightarrow> \<forall>i\<in>set is. i < length (m_spans sh) \<Longrightarrow> lo \<le> lo0 \<and> hi0 \<le> hi \<and>
    (lo = lo0 \<or> lo \<in> set (m_segments sh)) \<and> (hi = hi0 \<or> hi \<in> set (m_segments sh))
    \<and> (\<forall>i\<in>set is. segments_of sh i \<noteq> [] \<longrightarrow> lo \<le> hd (segments_of sh i) \<and> last (segments_of sh i) \<le> hi)"
proof (induction "is" arbitrary: lo0 hi0)
  case (Cons i "is")
  let ?b = "segmentIndex (m_spans sh ! i)" and ?e = "segment_end sh i"
  show ?case
  proof (cases "?b = length (m_segments sh)")
    case True
    then have "segments_of sh i = []" using segments_of_ends(4) [OF assms, of i] by auto
    with True Cons show ?thesis by simp
  next
    case False
    define f where "f = m_segments sh ! ?b"
    define l where "l = m_segments sh ! (?e - 1)"
    have "?b \<le> length (m_segments sh)" using Cons.prems(2) assms by (simp add: well_indexed_def)
    then have "?b < length (m_segments sh)" using False by simp
    then have mem: "f \<in> set (m_segments sh)" "l \<in> set (m_segments sh)"
      using segment_end_le [OF assms, of i] by (auto simp: f_def l_def)
    have "bounds_loop sh is (min f lo0) (max l hi0) = (lo, hi)"
      using Cons.prems(1) False by (simp add: Let_def f_def l_def min_def max_def not_less split: if_splits)
    note ih = Cons.IH [OF this] Cons.prems(2)
    have "segments_of sh i \<noteq> [] \<longrightarrow> hd (segments_of sh i) = f \<and> last (segments_of sh i) = l"
      using segments_of_ends [OF assms, of i] by (simp add: f_def l_def)
    with ih mem show ?thesis by (auto simp: min_def max_def split: if_splits)
  qed
qed simp

lemma valid_segments_range: "valid_segments s \<Longrightarrow> x \<in> seg_set s \<Longrightarrow> hd s \<le> x \<and> x < last s"
proof (induction s rule: segment_pairs.induct)
  case (1 a b s)
  then have v: "a < b" "\<forall>v\<in>set s. b < v" "valid_segments s" by (simp_all add: valid_segments_Cons2)
  show ?case
  proof (cases "x \<in> seg_set s")
    case True
    then have "s \<noteq> []" by auto
    with True 1 v seg_set_above [OF v(2) True] show ?thesis by auto
  next
    case False
    then have "a \<le> x" "x < b" using 1 by (auto simp: seg_set_Cons2)
    moreover have "b \<le> last (a # b # s)" using v(2) last_in_set [of s] by (cases "s = []") (simp_all add: less_imp_le)
    ultimately show ?thesis by simp
  qed
qed simp_all

lemma valid_segments_ends:
  assumes "valid_segments s" "s \<noteq> []"
  shows "v \<in> set s \<Longrightarrow> hd s \<le> v \<and> v \<le> last s" "hd s \<in> seg_set s" "last s - 1 \<in> seg_set s"
proof -
  show "hd s \<in> seg_set s" using assms by (rule seg_set_hd)
  have "sorted s" using assms by (simp add: valid_segments_def strict_sorted_imp_sorted)
  then show "v \<in> set s \<Longrightarrow> hd s \<le> v \<and> v \<le> last s"
    using assms(2) by (auto simp: in_set_conv_nth hd_conv_nth last_conv_nth intro!: sorted_nth_mono)
  show "last s - 1 \<in> seg_set s" using assms
  proof (induction s rule: segment_pairs.induct)
    case (1 a b s)
    then have v: "a < b" "valid_segments s" by (simp_all add: valid_segments_Cons2)
    show ?case using 1 v by (cases "s = []") (auto simp: seg_set_Cons2)
  qed simp_all
qed

section \<open>The bounds of a shape\<close>

lemma row_at_key: "valid_from c rs \<Longrightarrow> (y, g) \<in> set rs \<Longrightarrow> row_at rs c' y = g"
proof (induction rs arbitrary: c c')
  case (Cons r rs)
  obtain y' g' where r: "r = (y', g')" by fastforce
  show ?case
  proof (cases "(y, g) = r")
    case True
    then show ?thesis using Cons.prems row_at_before [of rs y g] by (simp add: r valid_from_Cons)
  next
    case False
    then have "(y, g) \<in> set rs" "y' < y" "valid_from g' rs" using Cons.prems by (auto simp: r valid_from_Cons)
    with Cons.IH [of g' g'] show ?thesis by (simp add: r)
  qed
qed simp

lemma row_at_member: "row_at rs c y = c \<or> row_at rs c y \<in> snd ` set rs"
  by (induction rs c y rule: row_at.induct) auto

lemma row_at_after: "valid_from c rs \<Longrightarrow> rs \<noteq> [] \<Longrightarrow> fst (last rs) \<le> y \<Longrightarrow> row_at rs c' y = []"
proof (induction rs arbitrary: c c')
  case (Cons r rs)
  obtain y' g' where r: "r = (y', g')" by fastforce
  show ?case
  proof (cases "rs = []")
    case True
    then show ?thesis using Cons.prems by (simp add: r valid_from_def)
  next
    case False
    then have "y' < fst (last rs)" using Cons.prems(1) last_in_set [of rs] by (simp add: r valid_from_Cons)
    then have "y' \<le> y" using Cons.prems(3) False by simp
    moreover have "valid_from g' rs" using Cons.prems(1) by (simp add: r valid_from_Cons)
    ultimately show ?thesis using Cons.IH [of g' g'] Cons.prems(3) False by (simp add: r)
  qed
qed simp

lemma row_at_before_last:
  "valid_from c rs \<Longrightarrow> 2 \<le> length rs \<Longrightarrow> row_at rs c' (fst (last rs) - 1) = snd (rs ! (length rs - 2))"
proof (induction rs arbitrary: c c')
  case (Cons r rs)
  obtain y' g' where r: "r = (y', g')" by fastforce
  have v: "valid_from g' rs" and gt: "\<forall>q\<in>set rs. y' < fst q" using Cons.prems by (simp_all add: r valid_from_Cons)
  show ?case
  proof (cases "length rs = 1")
    case True
    then obtain q where "rs = [q]" by (auto simp: length_Suc_conv)
    then show ?thesis using gt by (cases q) (simp add: r)
  next
    case False
    then have l: "2 \<le> length rs" "rs \<noteq> []" using Cons.prems(2) by (cases rs; cases "tl rs"; simp)+
    then have "y' \<le> fst (last rs) - 1" using gt last_in_set [of rs] by fastforce
    moreover have "(r # rs) ! (length (r # rs) - 2) = rs ! (length rs - 2)"
      using l by (simp add: nth_Cons' numeral_2_eq_2)
    ultimately show ?thesis using Cons.IH [OF v l(1)] l by (simp add: r)
  qed
qed simp

lemma chain_before_last:
  "chain c rs \<Longrightarrow> closed c rs \<Longrightarrow> 2 \<le> length rs \<Longrightarrow> snd (rs ! (length rs - 2)) \<noteq> []"
proof (induction c rs rule: chain.induct)
  case (2 c y g r)
  then show ?case
  proof (cases r)
    case (Cons q r')
    then show ?thesis using 2 by (cases q; cases r') auto
  qed simp
qed simp

lemma valid_rows_two: "valid_from [] rs \<Longrightarrow> rs \<noteq> [] \<Longrightarrow> 2 \<le> length rs"
  by (cases rs; cases "tl rs") (auto simp: valid_from_def)

definition in_range :: "shape \<Rightarrow> bool" where
  "in_range sh \<longleftrightarrow> (\<forall>x\<in>set (m_segments sh). INT_MIN \<le> x \<and> x \<le> INT_MAX)"

lemma shape_bounds_tight:
  assumes wf: "shape_wf sh" and ne: "\<not> shape_isEmpty sh" and ra: "in_range sh"
  shows "tight (shape_bounds sh) (points sh)"
proof -
  let ?rs = "rows sh" and ?n = "length (m_spans sh)"
  have wi: "well_indexed sh" and v: "valid_from [] ?rs" using wf by (simp_all add: shape_wf_def valid_rows_from)
  have n: "2 \<le> ?n" using valid_rows_two [OF v] ne by (simp add: shape_isEmpty_def)
  have rne: "m_spans sh \<noteq> []" using ne by (simp add: shape_isEmpty_def)
  obtain lo hi where bl: "bounds_loop sh [0..<?n - 1] INT_MAX INT_MIN = (lo, hi)" by fastforce
  have "\<forall>i\<in>set [0..<?n - 1]. i < ?n" by auto
  note bd = bounds_loop_bounds [OF wi bl this]
  have keys: "fst (hd ?rs) = span_y (hd (m_spans sh))" "fst (last ?rs) = span_y (last (m_spans sh))"
    using n ne by (simp_all add: hd_conv_nth last_conv_nth rows_nth shape_isEmpty_def)
  have b: "r_x (shape_bounds sh) = lo" "maxX (shape_bounds sh) = hi" "r_y (shape_bounds sh) = fst (hd ?rs)"
    "maxY (shape_bounds sh) = fst (last ?rs)"
    using ne bl by (simp_all add: shape_bounds_def Let_def maxX_def maxY_def keys)
  have rowb: "lo \<le> hd g \<and> last g \<le> hi" if mem: "(y, g) \<in> set ?rs" and g: "g \<noteq> []" for y g
  proof -
    obtain i where i: "i < ?n" "?rs ! i = (y, g)" using mem by (auto simp: in_set_conv_nth)
    have "i \<noteq> ?n - 1" 
    proof
      assume "i = ?n - 1"
      then have "g = snd (last ?rs)" using i rne by (simp add: last_conv_nth)
      moreover have "snd (last ?rs) = []" using row_at_after [OF v, of "fst (last ?rs)" "[]"] row_at_key [OF v, of "fst (last ?rs)" "snd (last ?rs)" "[]"] rne
        by simp
      ultimately show False using g by simp
    qed
    then have "i \<in> set [0..<?n - 1]" using i(1) by simp
    moreover have "segments_of sh i = g" using i by (simp add: rows_nth)
    ultimately show ?thesis using bd g by blast
  qed
  have "set (concat (map snd ?rs)) = (\<Union>r\<in>set ?rs. set (snd r))" by simp
  then have all_segs: "set (m_segments sh) = (\<Union>r\<in>set ?rs. set (snd r))" unfolding concat_rows [OF wi] .
  have segs: "\<exists>y g. (y, g) \<in> set ?rs \<and> x \<in> set g" if "x \<in> set (m_segments sh)" for x
    using that unfolding all_segs by force
  have in_segs: "x \<in> set (m_segments sh)" if "(y, g) \<in> set ?rs" "x \<in> set g" for x y g
    using that unfolding all_segs by force
  have pt: "(x, y) \<in> points sh" if "(y, g) \<in> set ?rs" "x \<in> seg_set g" for x y g
    using that row_at_key [OF v that(1), of "[]"] by (simp add: points_seg)
  have vs: "valid_segments g" if "(y, g) \<in> set ?rs" for y g using v that by (auto simp: valid_from_def list_all_iff)
  obtain y0 g0 where h0: "hd ?rs = (y0, g0)" "(y0, g0) \<in> set ?rs" "g0 \<noteq> []"
    using v n by (cases ?rs; cases "hd ?rs") (auto simp: valid_from_Cons)
  have lo: "\<exists>y g. (y, g) \<in> set ?rs \<and> g \<noteq> [] \<and> lo = hd g"
  proof -
    have "lo \<in> set (m_segments sh)"
      using bd rowb [OF h0(2,3)] in_segs [OF h0(2) hd_in_set [OF h0(3)]] ra by (force simp: in_range_def)
    then obtain y g where "(y, g) \<in> set ?rs" "lo \<in> set g" using segs by blast
    then show ?thesis using rowb [of y g] valid_segments_ends(1) [OF vs, of y g lo] by force
  qed
  have hi: "\<exists>y g. (y, g) \<in> set ?rs \<and> g \<noteq> [] \<and> hi = last g"
  proof -
    have "hi \<in> set (m_segments sh)"
      using bd rowb [OF h0(2,3)] in_segs [OF h0(2) last_in_set [OF h0(3)]] ra by (force simp: in_range_def)
    then obtain y g where "(y, g) \<in> set ?rs" "hi \<in> set g" using segs by blast
    then show ?thesis using rowb [of y g] valid_segments_ends(1) [OF vs, of y g hi] by force
  qed
  have sub: "points sh \<subseteq> rect_points (shape_bounds sh)"
  proof
    fix p assume p: "p \<in> points sh"
    obtain x y where xy: "p = (x, y)" by fastforce
    let ?g = "row_at ?rs [] y"
    have x: "x \<in> seg_set ?g" using p by (simp add: xy points_seg)
    then have "?g \<noteq> []" by auto
    then obtain y' where mem: "(y', ?g) \<in> set ?rs" using row_at_member [of ?rs "[]" y] by force
    have "lo \<le> x \<and> x < hi"
      using valid_segments_range [OF vs [OF mem] x] rowb [OF mem \<open>?g \<noteq> []\<close>] by linarith
    moreover have "fst (hd ?rs) \<le> y"
    proof (rule ccontr)
      assume "\<not> fst (hd ?rs) \<le> y"
      moreover have "?rs = hd ?rs # tl ?rs" using rne by simp
      ultimately have "?g = []" using v row_at_outside [of "[]" "hd ?rs" "tl ?rs" y "[]"] by (metis not_le)
      with \<open>?g \<noteq> []\<close> show False ..
    qed
    moreover have "y < fst (last ?rs)"
      using \<open>?g \<noteq> []\<close> row_at_after [OF v, of y "[]"] rne by force
    ultimately show "p \<in> rect_points (shape_bounds sh)" by (simp add: xy rect_points_def b)
  qed
  have last2: "(x, fst (last ?rs) - 1) \<in> points sh" if "x \<in> seg_set (snd (?rs ! (?n - 2)))" for x
    using that row_at_before_last [OF v, of "[]"] n by (simp add: points_seg)
  have "snd (?rs ! (?n - 2)) \<noteq> []" using chain_before_last [of "[]" ?rs] v n by (simp add: valid_from_def)
  moreover have "valid_segments (snd (?rs ! (?n - 2)))" using vs [of "fst (?rs ! (?n - 2))"] n by simp
  ultimately have "hd (snd (?rs ! (?n - 2))) \<in> seg_set (snd (?rs ! (?n - 2)))" by (intro valid_segments_ends)
  then have "\<exists>x. (x, maxY (shape_bounds sh) - 1) \<in> points sh" using last2 b by auto
  moreover have "\<exists>x. (x, r_y (shape_bounds sh)) \<in> points sh"
    using pt [OF h0(2) valid_segments_ends(2) [OF vs [OF h0(2)] h0(3)]] h0(1) b by auto
  moreover have "\<exists>y. (r_x (shape_bounds sh), y) \<in> points sh"
    using lo pt valid_segments_ends(2) vs b(1) by metis
  moreover have "\<exists>y. (maxX (shape_bounds sh) - 1, y) \<in> points sh"
    using hi pt valid_segments_ends(3) vs b(2) by metis
  ultimately show ?thesis using sub by (simp add: tight_def)
qed

section \<open>The region invariant\<close>

lemma in_range_rows: "well_indexed sh \<Longrightarrow> in_range sh \<longleftrightarrow> (\<forall>r\<in>set (rows sh). \<forall>x\<in>set (snd r). INT_MIN \<le> x \<and> x \<le> INT_MAX)"
  unfolding in_range_def by (subst concat_rows [symmetric]) auto

lemma new_row_segments: "r \<in> set (new_row y g c) \<Longrightarrow> snd r = g"
  by (simp add: new_row_def split: if_splits)

lemma merge_rows_segments:
  "q \<in> set (merge_rows op r1 r2 c1 c2) \<Longrightarrow> set c1 \<subseteq> S \<Longrightarrow> set c2 \<subseteq> S \<Longrightarrow> \<forall>r\<in>set r1 \<union> set r2. set (snd r) \<subseteq> S \<Longrightarrow>
     set (snd q) \<subseteq> S"
proof (induction r1 r2 arbitrary: c1 c2 rule: merge_induct [where key = fst])
  case (first r r1 r' r2)
  obtain y1 g1 y2 g2 where r: "r = (y1, g1)" "r' = (y2, g2)" by fastforce
  have g: "set g1 \<subseteq> S" "set g2 \<subseteq> S" using first.prems(4) by (simp_all add: r)
  have ih: "set (snd q) \<subseteq> S" if "q \<in> set (merge_rows op r1 (r' # r2) g1 c2)"
    using first.prems(2-4) g that by (intro first.IH [OF that]) auto
  have "set (merge_segments op g1 c2 0) \<subseteq> S"
    using merge_segments_subset [of op g1 c2 0] g first.prems(2,3) by blast
  then show ?case using first.prems(1) first.hyps ih new_row_segments [of q] by (auto simp: r merge_rows_step)
next
  case (both r r1 r' r2)
  obtain y1 g1 y2 g2 where r: "r = (y1, g1)" "r' = (y2, g2)" by fastforce
  have g: "set g1 \<subseteq> S" "set g2 \<subseteq> S" using both.prems(4) by (simp_all add: r)
  have ih: "set (snd q) \<subseteq> S" if "q \<in> set (merge_rows op r1 r2 g1 g2)"
    using both.prems(2-4) g that by (intro both.IH [OF that]) auto
  have "set (merge_segments op g1 g2 0) \<subseteq> S"
    using merge_segments_subset [of op g1 g2 0] g both.prems(2,3) by blast
  then show ?case using both.prems(1) both.hyps ih new_row_segments [of q] by (auto simp: r merge_rows_step)
next
  case (second r r1 r' r2)
  obtain y1 g1 y2 g2 where r: "r = (y1, g1)" "r' = (y2, g2)" by fastforce
  have g: "set g1 \<subseteq> S" "set g2 \<subseteq> S" using second.prems(4) by (simp_all add: r)
  have ih: "set (snd q) \<subseteq> S" if "q \<in> set (merge_rows op (r # r1) r2 c1 g2)"
    using second.prems(2-4) g that by (intro second.IH [OF that]) auto
  have "set (merge_segments op c1 g2 0) \<subseteq> S"
    using merge_segments_subset [of op c1 g2 0] g second.prems(2,3) by blast
  then show ?case using second.prems(1) second.hyps ih new_row_segments [of q] by (auto simp: r merge_rows_step)
qed (auto split: if_splits)

lemma shapeOperation_range:
  assumes op: "good_operation op" and sh: "shape_wf sh1" "shape_wf sh2" "in_range sh1" "in_range sh2"
    and simple: "so_trySimple op \<Longrightarrow> combines op False True"
  shows "in_range (shapeOperation op sh1 sh2)"
proof (cases "so_trySimple op \<and> shape_isEmpty sh1")
  case True
  then show ?thesis using sh by (simp add: shapeOperation_def)
next
  case False
  have v: "valid_from [] (rows sh1)" "valid_from [] (rows sh2)"
    using sh by (simp_all add: shape_wf_def valid_rows_from)
  have loop: "rows (span_loop op (rows sh1) (rows sh2) [] [] empty_shape) = merge_rows op (rows sh1) (rows sh2) [] []"
    "well_indexed (span_loop op (rows sh1) (rows sh2) [] [] empty_shape)"
    using rows_span_loop [OF op, of empty_shape "[]" "[]" "rows sh1" "rows sh2"] v
    by (simp_all add: valid_from_def)
  have "set (snd q) \<subseteq> {INT_MIN..INT_MAX}" if "q \<in> set (merge_rows op (rows sh1) (rows sh2) [] [])" for q
    using sh by (intro merge_rows_segments [OF that]) (auto simp: in_range_rows shape_wf_def)
  then have "in_range (span_loop op (rows sh1) (rows sh2) [] [] empty_shape)"
    unfolding in_range_rows [OF loop(2)] loop(1) by fastforce
  with False show ?thesis by (auto simp: shapeOperation_def)
qed

text \<open>
  A region is well formed when its shape is, when its coordinates are \<open>int\<close>s, and when its
  bounds are the smallest rectangle around its points; without points the bounds are empty.
\<close>

definition region_points :: "region \<Rightarrow> (int \<times> int) set" where
  "region_points R = points (m_shape R)"

definition region_wf :: "region \<Rightarrow> bool" where
  "region_wf R \<longleftrightarrow> shape_wf (m_shape R) \<and> in_range (m_shape R) \<and>
     (if shape_isEmpty (m_shape R) then rect_isEmpty (m_bounds R) else tight (m_bounds R) (region_points R))"

lemma empty_shape_facts [simp]: "shape_wf empty_shape" "in_range empty_shape" "shape_isEmpty empty_shape" "points empty_shape = {}"
  by (simp_all add: shape_wf_def valid_rows_def in_range_def empty_shape_def shape_isEmpty_def points_def rows_def well_indexed_def)

lemma points_empty: "shape_isEmpty sh \<Longrightarrow> points sh = {}"
  by (simp add: points_def rows_def shape_isEmpty_def)

lemma empty_rect_isEmpty [simp]: "rect_isEmpty empty_rect"
  by (simp add: rect_isEmpty_def empty_rect_def)

lemma region_wf_empty: "region_wf region_empty"
  by (simp add: region_wf_def region_empty_def)

lemma region_isEmpty_iff: "region_wf R \<Longrightarrow> region_isEmpty R \<longleftrightarrow> region_points R = {}"
  using tight_nonempty [of "m_bounds R" "region_points R"]
  by (auto simp: region_wf_def region_isEmpty_def region_points_def points_empty tight_def split: if_splits)

lemma region_wf_bounds: "shape_wf sh \<Longrightarrow> in_range sh \<Longrightarrow> region_wf \<lparr>m_bounds = shape_bounds sh, m_shape = sh\<rparr>"
  using shape_bounds_tight [of sh] by (simp add: region_wf_def region_points_def shape_bounds_def)

lemma region_tight: "region_wf R \<Longrightarrow> \<not> region_isEmpty R \<Longrightarrow> tight (m_bounds R) (region_points R)"
  by (auto simp: region_wf_def region_isEmpty_def split: if_splits)

lemma shape_isRect_points:
  assumes "shape_wf sh" "shape_isRect sh" "\<not> shape_isEmpty sh"
  shows "\<exists>a b c d. points sh = {a..<b} \<times> {c..<d}"
proof -
  have wi: "well_indexed sh" and v: "valid_from [] (rows sh)" using assms by (simp_all add: shape_wf_def valid_rows_from)
  have "length (rows sh) = 2"
    using valid_rows_two [OF v] assms(2,3) by (simp add: shape_isRect_def shape_isEmpty_def)
  then obtain c g d g' where r: "rows sh = [(c, g), (d, g')]"
    by (metis (no_types, opaque_lifting) One_nat_def Suc_1 length_0_conv length_Suc_conv surj_pair)
  have g: "g' = []" "g \<noteq> []" "valid_segments g" "c < d" using v by (auto simp: r valid_from_def valid_segments_def)
  have "length g \<le> 2" using concat_rows [OF wi] assms(2) by (simp add: r g shape_isRect_def)
  with g(2,3) obtain a b where ab: "g = [a, b]" by (erule_tac valid_segments_cases) (auto simp: length_Suc_conv)
  have "points sh = {a..<b} \<times> {c..<d}"
    using g by (auto simp: points_seg r ab seg_set_Cons2 split: if_splits)
  then show ?thesis by blast
qed

lemma region_isRect_points:
  assumes "region_wf R" "region_isRect R" "\<not> region_isEmpty R"
  shows "region_points R = rect_points (m_bounds R)"
proof -
  have t: "tight (m_bounds R) (region_points R)" using assms by (intro region_tight)
  have "\<not> shape_isEmpty (m_shape R)" using assms by (auto simp: region_wf_def region_isEmpty_def)
  then obtain a b c d where "region_points R = {a..<b} \<times> {c..<d}"
    using shape_isRect_points [of "m_shape R"] assms by (auto simp: region_wf_def region_isRect_def region_points_def)
  with t tight_box show ?thesis by simp
qed

section \<open>Operations on regions as set operations\<close>

lemma rect_contains_nonempty: "rect_contains r s \<Longrightarrow> \<not> rect_isEmpty s \<Longrightarrow> \<not> rect_isEmpty r"
  by (auto simp: rect_contains_def rect_isEmpty_def maxX_def maxY_def)

lemma region_nonempty_shape: "region_wf R \<Longrightarrow> \<not> region_isEmpty R \<longleftrightarrow> \<not> shape_isEmpty (m_shape R)"
  using tight_nonempty by (auto simp: region_wf_def region_isEmpty_def split: if_splits)

lemma region_wf_shape: "region_wf R \<Longrightarrow> shape_wf (m_shape R)"
  by (simp add: region_wf_def)

lemma region_contains_points:
  assumes R: "region_wf R" and S: "region_wf S" "\<not> region_isEmpty S"
  shows "region_contains R S \<longleftrightarrow> region_points S \<subseteq> region_points R"
proof (cases "region_isEmpty R")
  case True
  then have "\<not> rect_contains (m_bounds R) (m_bounds S)"
    using rect_contains_nonempty S(2) by (auto simp: region_isEmpty_def)
  then show ?thesis using True R S by (auto simp: region_contains_def region_isEmpty_iff)
next
  case False
  note t = region_tight [OF R False] region_tight [OF S]
  have sub: "region_points R \<subseteq> rect_points (m_bounds R)" using t(1) by (simp add: tight_def)
  have cmp: "compareShapes CompareContainsOperation (m_shape R) (m_shape S) \<longleftrightarrow> region_points S \<subseteq> region_points R"
    using R S False unfolding region_points_def
    by (intro compareShapes_contains) (simp_all add: region_wf_shape flip: region_nonempty_shape)
  show ?thesis using tight_contains [OF t] sub cmp by (auto simp: region_contains_def)
qed

lemma region_intersects_points:
  assumes R: "region_wf R" and S: "region_wf S"
  shows "region_intersects R S \<longleftrightarrow> region_points R \<inter> region_points S \<noteq> {}"
proof (cases "region_isEmpty R \<or> region_isEmpty S")
  case True
  then have "\<not> rect_intersects (m_bounds R) (m_bounds S)" by (auto simp: rect_intersects_def region_isEmpty_def)
  then show ?thesis using True R S by (auto simp: region_intersects_def region_isEmpty_iff)
next
  case False
  then have ne: "\<not> region_isEmpty R" "\<not> region_isEmpty S" by auto
  note t = region_tight [OF R ne(1)] region_tight [OF S ne(2)]
  have "compareShapes CompareIntersectsOperation (m_shape R) (m_shape S) \<longleftrightarrow> region_points R \<inter> region_points S \<noteq> {}"
    using R S ne unfolding region_points_def
    by (intro compareShapes_intersects) (simp_all add: region_wf_shape flip: region_nonempty_shape)
  then show ?thesis using tight_disjoint [OF t] by (auto simp: region_intersects_def)
qed

lemma region_intersect_points:
  assumes R: "region_wf R" and S: "region_wf S"
  shows "region_wf (region_intersect R S) \<and> region_points (region_intersect R S) = region_points R \<inter> region_points S"
proof -
  have dis: "region_points R \<inter> region_points S = {}" if "\<not> rect_intersects (m_bounds R) (m_bounds S)"
    using region_intersects_points [OF R S] that by (simp add: region_intersects_def)
  have sh: "shape_wf (m_shape R)" "shape_wf (m_shape S)" "in_range (m_shape R)" "in_range (m_shape S)"
    using R S by (simp_all add: region_wf_def)
  have ra: "in_range (intersectShapes (m_shape R) (m_shape S))"
    unfolding intersectShapes_def by (intro shapeOperation_range sh) (simp_all add: combines_operations)
  show ?thesis
    using R dis shapes_points(3,4) [OF sh(1,2)] region_wf_bounds [OF shapes_points(3) [OF sh(1,2)] ra] region_isEmpty_iff [OF R] region_wf_empty
    by (auto simp: region_intersect_def region_isEmpty_def region_points_def region_empty_def Let_def)
qed

lemma region_subtract_points:
  assumes R: "region_wf R" and S: "region_wf S"
  shows "region_wf (region_subtract R S) \<and> region_points (region_subtract R S) = region_points R - region_points S"
proof -
  have dis: "region_points R \<inter> region_points S = {}" if "\<not> rect_intersects (m_bounds R) (m_bounds S)"
    using region_intersects_points [OF R S] that by (simp add: region_intersects_def)
  have sh: "shape_wf (m_shape R)" "shape_wf (m_shape S)" "in_range (m_shape R)" "in_range (m_shape S)"
    using R S by (simp_all add: region_wf_def)
  have ra: "in_range (subtractShapes (m_shape R) (m_shape S))"
    unfolding subtractShapes_def by (intro shapeOperation_range sh) (simp_all add: combines_operations)
  show ?thesis
    using R dis shapes_points(5,6) [OF sh(1,2)] region_wf_bounds [OF shapes_points(5) [OF sh(1,2)] ra]
      region_isEmpty_iff [OF R] region_isEmpty_iff [OF S]
    by (auto simp: region_subtract_def region_isEmpty_def region_points_def Let_def)
qed

lemma region_unite_points:
  assumes R: "region_wf R" and S: "region_wf S"
  shows "region_wf (region_unite R S) \<and> region_points (region_unite R S) = region_points R \<union> region_points S"
proof -
  consider (none) "region_isEmpty S"
    | (inR) "\<not> region_isEmpty S" "region_isRect R" "rect_contains (m_bounds R) (m_bounds S)"
    | (inS) "\<not> region_isEmpty S" "\<not> (region_isRect R \<and> rect_contains (m_bounds R) (m_bounds S))"
        "region_isRect S" "rect_contains (m_bounds S) (m_bounds R)"
    | (sub) "\<not> region_isEmpty S" "\<not> region_isRect R" "region_contains R S"
        "\<not> (region_isRect S \<and> rect_contains (m_bounds S) (m_bounds R))"
    | (merge) "\<not> region_isEmpty S" "\<not> (region_isRect R \<and> rect_contains (m_bounds R) (m_bounds S))"
        "\<not> (region_isRect S \<and> rect_contains (m_bounds S) (m_bounds R))" "\<not> (\<not> region_isRect R \<and> region_contains R S)"
    by blast
  then show ?thesis
  proof cases
    case none
    then show ?thesis using R S region_isEmpty_iff by (simp add: region_unite_def)
  next
    case inR
    then have ne: "\<not> region_isEmpty R" using rect_contains_nonempty by (auto simp: region_isEmpty_def)
    then have "region_points S \<subseteq> region_points R"
      using tight_contains [OF region_tight [OF R ne] region_tight [OF S inR(1)]] inR region_isRect_points [OF R inR(2) ne] by simp
    then show ?thesis using inR R by (auto simp: region_unite_def)
  next
    case inS
    have "region_points R \<subseteq> region_points S"
    proof (cases "region_isEmpty R")
      case True
      then show ?thesis using region_isEmpty_iff [OF R] by simp
    next
      case False
      then show ?thesis
        using tight_contains [OF region_tight [OF S inS(1)] region_tight [OF R False]] inS region_isRect_points [OF S inS(3,1)] by simp
    qed
    then show ?thesis using inS S by (auto simp: region_unite_def)
  next
    case sub
    then have "region_points S \<subseteq> region_points R" using region_contains_points [OF R S] by simp
    then show ?thesis using sub R by (auto simp: region_unite_def)
  next
    case merge
    have sh: "shape_wf (m_shape R)" "shape_wf (m_shape S)" "in_range (m_shape R)" "in_range (m_shape S)"
      using R S by (simp_all add: region_wf_def)
    have ra: "in_range (unionShapes (m_shape R) (m_shape S))"
      unfolding unionShapes_def by (intro shapeOperation_range sh) (simp_all add: combines_operations)
    have t: "tight (rect_unite (m_bounds R) (m_bounds S)) (region_points R \<union> region_points S)"
    proof (cases "region_isEmpty R")
      case True
      then show ?thesis using region_tight [OF S merge(1)] merge(1) region_isEmpty_iff [OF R]
        by (simp add: rect_unite_def region_isEmpty_def)
    next
      case False
      then show ?thesis using tight_unite region_tight R S merge(1) by blast
    qed
    let ?U = "\<lparr>m_bounds = rect_unite (m_bounds R) (m_bounds S), m_shape = unionShapes (m_shape R) (m_shape S)\<rparr>"
    have U: "region_unite R S = ?U" using merge by (auto simp: region_unite_def)
    have p: "region_points ?U = region_points R \<union> region_points S" using shapes_points(2) [OF sh(1,2)] by (simp add: region_points_def)
    have "\<not> shape_isEmpty (unionShapes (m_shape R) (m_shape S))"
      using p t points_empty by (fastforce simp: tight_def region_points_def)
    then show ?thesis using U p t ra shapes_points(1) [OF sh(1,2)] by (simp add: region_wf_def)
  qed
qed

section \<open>Points and areas\<close>

lemma point_in_spans_iff:
  "valid_from c rs \<Longrightarrow> point_in_spans px py rs \<longleftrightarrow> rs \<noteq> [] \<and> fst (hd rs) \<le> py \<and> px \<in> seg_set (row_at rs [] py)"
proof (induction px py rs arbitrary: c rule: point_in_spans.induct)
  case (1 px py y g y' g' r)
  have v: "valid_from g ((y', g') # r)" "valid_segments g"
    using 1 by (auto simp: valid_from_Cons valid_from_segments)
  note ih = 1(1) [OF _ _ v(1)] 1(2) [OF _ _ _ v(1)]
  have "y < y'" by (rule row_at_second(1) [OF 1(3)])
  then show ?case
    using ih row_at_second(2) [OF 1(3), of py "[]"] row_at_second(3) [OF 1(3), of py "[]" "[]"] point_in_segments_iff [OF v(2), of px]
    by (cases "py < y'") (simp_all del: row_at.simps)
next
  case "2_2"
  then show ?case by (simp add: row_at_last del: row_at.simps)
qed simp

definition rect_area :: "int_rect \<Rightarrow> int" where
  "rect_area r = r_width r * r_height r"

lemma area_rows:
  "valid_from c (r # rs) \<Longrightarrow>
    finite {(x, y). fst r \<le> y \<and> x \<in> seg_set (row_at (r # rs) [] y)} \<and>
    int (card {(x, y). fst r \<le> y \<and> x \<in> seg_set (row_at (r # rs) [] y)}) = sum_list (map rect_area (rects_loop (r # rs)))"
proof (induction "r # rs" arbitrary: c r rs rule: rects_loop.induct)
  case (1 y g y' g' rs)
  have v: "valid_from g ((y', g') # rs)" "valid_segments g"
    using "1.prems" by (auto simp: valid_from_Cons valid_from_segments)
  note rs = row_at_second [OF "1.prems"]
  let ?A = "seg_set g \<times> {y..<y'}" and ?B = "{(x, v). y' \<le> v \<and> x \<in> seg_set (row_at ((y', g') # rs) [] v)}"
  have "(y \<le> v \<and> x \<in> seg_set (row_at ((y, g) # (y', g') # rs) [] v)) \<longleftrightarrow> (x, v) \<in> ?A \<union> ?B" for x v
    using rs(1) rs(2) [of v "[]"] rs(3) [of v "[]" "[]"] by (cases "v < y'") (auto simp del: row_at.simps)
  then have split: "{(x, v). y \<le> v \<and> x \<in> seg_set (row_at ((y, g) # (y', g') # rs) [] v)} = ?A \<union> ?B" by auto
  have dis: "?A \<inter> ?B = {}" by auto
  have fin: "finite ?A" "finite ?B" "int (card ?B) = sum_list (map rect_area (rects_loop ((y', g') # rs)))"
    using "1.hyps" [OF v(1)] finite_seg_set [OF v(2)] by simp_all
  have "int (card ?A) = (\<Sum>(x, x')\<leftarrow>segment_pairs g. x' - x) * (y' - y)"
    using card_seg_set [OF v(2)] rs(1) by (simp add: card_cartesian_product)
  also have "\<dots> = sum_list (map rect_area (map (\<lambda>(x, x'). \<lparr>r_x = x, r_y = y, r_width = x' - x, r_height = y' - y\<rparr>) (segment_pairs g)))"
    by (simp add: sum_list_mult_const [symmetric] rect_area_def case_prod_beta comp_def)
  finally show ?case using split fin card_Un_disjoint [OF fin(1,2) dis] by simp
next
  case "2_2"
  then show ?case by (simp add: row_at_last del: row_at.simps)
qed

lemma foldl_area: "foldl (\<lambda>total rect. total + of_int (r_width rect * r_height rect)) t rs = (t + of_int (sum_list (map rect_area rs)) :: 32 word)"
  by (induction rs arbitrary: t) (simp_all add: rect_area_def algebra_simps)

lemma rows_shape_of_rect: "rows (shape_of_rect r) = [(r_y r, [r_x r, maxX r]), (maxY r, [])]"
  by (simp add: shape_of_rect_def appendSpan_def appendSegment_def empty_shape_def rows_def segments_of_def
      segment_end_def between_def)

lemma region_of_rect_wf:
  assumes "\<not> rect_isEmpty r" "INT_MIN \<le> r_x r" "maxX r \<le> INT_MAX"
  shows "region_wf (region_of_rect r) \<and> region_points (region_of_rect r) = rect_points r"
proof -
  have lt: "r_x r < maxX r" "r_y r < maxY r" using assms(1) by (simp_all add: rect_isEmpty_def maxX_def maxY_def)
  have v: "valid_segments [r_x r, maxX r]" using lt by (simp add: valid_segments_def)
  have p: "region_points (region_of_rect r) = rect_points r"
  proof -
    have "row_at (rows (shape_of_rect r)) [] y = (if r_y r \<le> y \<and> y < maxY r then [r_x r, maxX r] else [])" for y
      using lt by (simp add: rows_shape_of_rect)
    moreover have "seg_set [r_x r, maxX r] = {r_x r..<maxX r}" using seg_set_Cons2 [OF v] by simp
    ultimately show ?thesis
      by (auto simp: region_points_def region_of_rect_def points_seg rect_points_def split: if_splits)
  qed
  have "tight r (rect_points r)" using lt by (auto simp: tight_def rect_points_def)
  moreover have "shape_wf (shape_of_rect r)"
    using lt v by (simp add: shape_wf_def valid_rows_def rows_shape_of_rect)
      (simp add: well_indexed_def shape_of_rect_def appendSpan_def appendSegment_def empty_shape_def)
  moreover have "in_range (shape_of_rect r)" "\<not> shape_isEmpty (shape_of_rect r)"
    using assms lt by (auto simp: in_range_def shape_of_rect_def appendSpan_def appendSegment_def empty_shape_def shape_isEmpty_def)
  ultimately show ?thesis using p by (simp add: region_wf_def region_of_rect_def)
qed

section \<open>Validity\<close>

text \<open>\<open>isValid()\<close>, the test a decoded shape has to pass.\<close>

fun segments_valid :: "int list \<Rightarrow> bool" where
  "segments_valid (x # x' # s) = (if x' - x < 0 then False else segments_valid s)"
| "segments_valid s = True"

fun rows_valid :: "row list \<Rightarrow> bool" where
  "rows_valid ((y, g) # (y', g') # r) =
     (if y' - y < 0 then False else if \<not> segments_valid g then False else rows_valid ((y', g') # r))"
| "rows_valid r = True"

definition shape_isValid :: "shape \<Rightarrow> bool" where
  "shape_isValid sh = rows_valid (rows sh)"

lemma segments_valid_sorted: "valid_segments s \<Longrightarrow> segments_valid s"
  by (induction s rule: segments_valid.induct) (auto simp: valid_segments_Cons2)

lemma rows_valid_sorted: "valid_from c rs \<Longrightarrow> rows_valid rs"
proof (induction rs arbitrary: c rule: rows_valid.induct)
  case (1 y g y' g' r)
  have v: "valid_from g ((y', g') # r)" "y < y'" "valid_segments g"
    using "1.prems" by (auto simp: valid_from_Cons valid_from_segments)
  then show ?case using "1.IH" [OF _ _ v(1)] segments_valid_sorted by simp
qed simp_all

lemma shape_wf_isValid: "shape_wf sh \<Longrightarrow> shape_isValid sh"
  using rows_valid_sorted [of "[]" "rows sh"] by (simp add: shape_isValid_def shape_wf_def valid_rows_from)

section \<open>Translation\<close>

definition shift_row :: "int \<Rightarrow> int \<Rightarrow> row \<Rightarrow> row" where
  "shift_row dx dy r = (fst r + dy, map (\<lambda>x. x + dx) (snd r))"

lemma rows_translate: "rows (shape_translate dx dy sh) = map (shift_row dx dy) (rows sh)"
proof (rule nth_equalityI)
  fix i assume "i < length (rows (shape_translate dx dy sh))"
  then have i: "i < length (m_spans sh)" by (simp add: shape_translate_def)
  have "segment_end (shape_translate dx dy sh) i = segment_end sh i"
    using i by (simp add: segment_end_def shape_translate_def)
  with i show "rows (shape_translate dx dy sh) ! i = map (shift_row dx dy) (rows sh) ! i"
    by (simp add: rows_def segments_of_between shift_row_def shape_translate_def between_def drop_map take_map)
qed (simp add: shape_translate_def)

lemma row_at_shift:
  "row_at (map (shift_row dx dy) rs) (map (\<lambda>x. x + dx) c) y = map (\<lambda>x. x + dx) (row_at rs c (y - dy))"
  by (induction rs arbitrary: c) (auto simp: shift_row_def)

lemma inside_shift: "inside x (map (\<lambda>x. x + dx) s) = inside (x - dx) s"
  by (induction s) (auto simp: inside_Cons)

lemma points_translate: "points (shape_translate dx dy sh) = (\<lambda>(x, y). (x + dx, y + dy)) ` points sh"
proof -
  have "(x, y) \<in> points (shape_translate dx dy sh) \<longleftrightarrow> (x - dx, y - dy) \<in> points sh" for x y
    using row_at_shift [of dx dy "rows sh" "[]" y] by (simp add: points_def rows_translate inside_shift)
  then show ?thesis by (force simp: image_iff)
qed

lemma valid_segments_shift: "valid_segments (map (\<lambda>x. x + dx) s) = valid_segments s"
  by (simp add: valid_segments_def sorted_wrt_map)

lemma map_shift_inject: "map (\<lambda>x. x + dx) s = map (\<lambda>x. x + dx) t \<longleftrightarrow> s = (t :: int list)"
  by (rule inj_map_eq_map) (simp add: inj_def)

lemma valid_from_shift: "valid_from c rs \<Longrightarrow> valid_from (map (\<lambda>x. x + dx) c) (map (shift_row dx dy) rs)"
proof (induction rs arbitrary: c)
  case Nil
  then show ?case by (simp add: valid_from_def)
next
  case (Cons r rs)
  obtain y g where r: "r = (y, g)" by fastforce
  show ?case using Cons by (auto simp: r shift_row_def valid_from_Cons valid_segments_shift map_shift_inject)
qed

lemma shape_wf_translate: "shape_wf sh \<Longrightarrow> shape_wf (shape_translate dx dy sh)"
proof -
  assume wf: "shape_wf sh"
  then have "well_indexed (shape_translate dx dy sh)"
    by (simp add: shape_wf_def well_indexed_def shape_translate_def comp_def hd_map)
  then show ?thesis using wf valid_from_shift [of "[]" "rows sh" dx dy]
    by (simp add: shape_wf_def valid_rows_from rows_translate)
qed

lemma tight_translate:
  assumes "tight r P"
  shows "tight (rect_move dx dy r) ((\<lambda>(x, y). (x + dx, y + dy)) ` P)"
proof -
  let ?f = "\<lambda>(x, y). (x + dx, y + dy)"
  have mem: "(x, y) \<in> P \<Longrightarrow> x + dx = x' \<Longrightarrow> y + dy = y' \<Longrightarrow> (x', y') \<in> ?f ` P" for x y x' y' by force
  from assms obtain y1 y2 x1 x2 where P: "(r_x r, y1) \<in> P" "(maxX r - 1, y2) \<in> P" "(x1, r_y r) \<in> P" "(x2, maxY r - 1) \<in> P"
    by (auto simp: tight_def)
  have "(r_x r + dx, y1 + dy) \<in> ?f ` P" "(maxX r + dx - 1, y2 + dy) \<in> ?f ` P"
    "(x1 + dx, r_y r + dy) \<in> ?f ` P" "(x2 + dx, maxY r + dy - 1) \<in> ?f ` P"
    using P mem by force+
  moreover have "P \<subseteq> rect_points r" using assms by (simp add: tight_def)
  then have "?f ` P \<subseteq> rect_points (rect_move dx dy r)"
    by (auto simp: rect_points_def rect_move_def maxX_def maxY_def)
  moreover have eqs: "r_x (rect_move dx dy r) = r_x r + dx" "r_y (rect_move dx dy r) = r_y r + dy"
    "maxX (rect_move dx dy r) = maxX r + dx" "maxY (rect_move dx dy r) = maxY r + dy"
    by (simp_all add: rect_move_def maxX_def maxY_def)
  ultimately show ?thesis unfolding tight_def eqs by blast
qed

lemma region_translate_points:
  assumes "region_wf R" "\<forall>x\<in>set (m_segments (m_shape R)). INT_MIN \<le> x + dx \<and> x + dx \<le> INT_MAX"
  shows "region_wf (region_translate dx dy R) \<and>
    region_points (region_translate dx dy R) = (\<lambda>(x, y). (x + dx, y + dy)) ` region_points R"
proof -
  have e: "shape_isEmpty (shape_translate dx dy (m_shape R)) = shape_isEmpty (m_shape R)"
    by (simp add: shape_isEmpty_def shape_translate_def)
  have p: "points (shape_translate dx dy (m_shape R)) = (\<lambda>(x, y). (x + dx, y + dy)) ` region_points R"
    by (simp add: region_points_def points_translate)
  have "in_range (shape_translate dx dy (m_shape R))" using assms(2) by (simp add: in_range_def shape_translate_def)
  moreover have "rect_isEmpty (rect_move dx dy (m_bounds R)) = rect_isEmpty (m_bounds R)" by (simp add: rect_isEmpty_def rect_move_def)
  moreover have "shape_wf (shape_translate dx dy (m_shape R))" using assms(1) shape_wf_translate by (simp add: region_wf_def)
  moreover have "tight (rect_move dx dy (m_bounds R)) ((\<lambda>(x, y). (x + dx, y + dy)) ` region_points R)"
    if "\<not> shape_isEmpty (m_shape R)" using that assms(1) tight_translate by (simp add: region_wf_def)
  ultimately show ?thesis using assms(1) unfolding region_wf_def region_points_def [of "region_translate dx dy R"]
    by (simp add: region_translate_def p e del: case_prod_conv)
qed

section \<open>The algebra of regions\<close>

text \<open>
  What the users of a region rely on: a representation of sets with union, intersection and
  difference.
\<close>

locale set_algebra =
  fixes wf :: "'a \<Rightarrow> bool" and pts :: "'a \<Rightarrow> 'p set"
    and unite :: "'a \<Rightarrow> 'a \<Rightarrow> 'a" and intersect :: "'a \<Rightarrow> 'a \<Rightarrow> 'a" and subtract :: "'a \<Rightarrow> 'a \<Rightarrow> 'a"
  assumes unite: "wf a \<Longrightarrow> wf b \<Longrightarrow> wf (unite a b) \<and> pts (unite a b) = pts a \<union> pts b"
    and intersect: "wf a \<Longrightarrow> wf b \<Longrightarrow> wf (intersect a b) \<and> pts (intersect a b) = pts a \<inter> pts b"
    and subtract: "wf a \<Longrightarrow> wf b \<Longrightarrow> wf (subtract a b) \<and> pts (subtract a b) = pts a - pts b"
begin

lemma fold_unite:
  "wf e \<Longrightarrow> \<forall>a\<in>set as. wf a \<Longrightarrow> wf (foldl unite e as) \<and> pts (foldl unite e as) = pts e \<union> (\<Union>a\<in>set as. pts a)"
proof (induction as arbitrary: e)
  case (Cons a as)
  then have "wf (unite e a)" "pts (unite e a) = pts e \<union> pts a" using unite by auto
  with Cons show ?case by auto
qed simp

lemma fold_subtract:
  "wf e \<Longrightarrow> \<forall>a\<in>set as. wf a \<Longrightarrow> wf (foldl subtract e as) \<and> pts (foldl subtract e as) = pts e - (\<Union>a\<in>set as. pts a)"
proof (induction as arbitrary: e)
  case (Cons a as)
  then have "wf (subtract e a)" "pts (subtract e a) = pts e - pts a" using subtract by auto
  with Cons show ?case by auto
qed simp

lemma partition: "wf a \<Longrightarrow> wf b \<Longrightarrow> pts (unite (subtract a b) (intersect a b)) = pts a"
  using unite [of "subtract a b" "intersect a b"] intersect [of a b] subtract [of a b] by blast

end

interpretation region_algebra: set_algebra region_wf region_points region_unite region_intersect region_subtract
  by unfold_locales (simp_all add: region_unite_points region_intersect_points region_subtract_points)

section \<open>Properties\<close>


definition sample_rect :: "int \<Rightarrow> int \<Rightarrow> int \<Rightarrow> int \<Rightarrow> int_rect" where
  "sample_rect x y w h = \<lparr>r_x = x, r_y = y, r_width = w, r_height = h\<rparr>"

lemma sample_region:
  assumes "0 < w" "0 < h" "- 1000 \<le> x" "x + w \<le> 1000"
  shows "region_wf (region_of_rect (sample_rect x y w h))"
    "region_points (region_of_rect (sample_rect x y w h)) = {x..<x + w} \<times> {y..<y + h}"
  using region_of_rect_wf [of "sample_rect x y w h"] assms
  by (simp_all add: sample_rect_def rect_isEmpty_def maxX_def maxY_def INT_MIN_def INT_MAX_def rect_points_def)




text \<open>
  C36: The area of a region is the number of its points, in 32-bit arithmetic; in particular
  the rectangles whose areas are added do not overlap.
\<close>

theorem totalArea_card:
  assumes "region_wf R"
  shows "finite (region_points R) \<and> totalArea R = of_nat (card (region_points R))"
proof (cases "rows (m_shape R)")
  case Nil
  show ?thesis unfolding totalArea_def rects_def region_points_def points_seg Nil by simp
next
  case (Cons r rs)
  have v: "valid_from [] (r # rs)" using assms Cons by (simp add: region_wf_def shape_wf_def valid_rows_from)
  have "region_points R = {(x, y). fst r \<le> y \<and> x \<in> seg_set (row_at (r # rs) [] y)}"
  proof -
    have "x \<in> seg_set (row_at (r # rs) [] y) \<longleftrightarrow> fst r \<le> y \<and> x \<in> seg_set (row_at (r # rs) [] y)" for x y
      using row_at_outside [OF v, of y "[]"] by (cases "y < fst r") (simp_all del: row_at.simps)
    then show ?thesis unfolding region_points_def points_seg Cons by blast
  qed
  with area_rows [OF v] have "finite (region_points R)" "int (card (region_points R)) = sum_list (map rect_area (rects R))"
    by (simp_all add: rects_def Cons)
  then show ?thesis unfolding totalArea_def foldl_area by (metis add_0 of_int_of_nat_eq)
qed

theorem totalArea_card_witness: "totalArea (region_of_rect (sample_rect 1 2 3 4)) = 12"
  using totalArea_card [OF sample_region(1), of 3 4 1 2] by (simp add: sample_region card_cartesian_product)



text \<open>
  A region does not contain the empty region unless its bounds contain the origin: the
  bounds are compared first, and those of the empty region are a point.
\<close>

lemma region_contains_empty:
  "\<not> region_contains (region_of_rect (sample_rect 10 10 5 5)) region_empty"
  by (simp add: region_contains_def region_of_rect_def region_empty_def rect_contains_def sample_rect_def empty_rect_def maxX_def)

end
