(* ===== verification/Storage_Map.thy ===== *)
theory Storage_Map imports Prelude "HOL-Library.Multiset" begin

text \<open>
  The contents of a DOM storage area (\<open>WebCore/storage/StorageMap.cpp\<close>): a hash map of
  strings with a quota in bytes, whose current length is tracked in 32-bit arithmetic, a
  cached iterator for the enumeration of the keys by index, and copy on write when the
  object is shared. The map is the list of its entries in iteration order; that order is
  the hash table's and a parameter (\<open>rehash\<close>), known only to be a permutation.
\<close>

lemma unat_Suc_less: "(w :: 'a :: len word) < v \<Longrightarrow> unat (w + 1) = Suc (unat w)"
proof -
  assume "w < v"
  then have "unat w < unat v" by (simp add: word_less_nat_alt)
  also have "unat v < 2 ^ LENGTH('a)" by (rule unsigned_less)
  finally have "unat w + 1 < 2 ^ LENGTH('a) \<or> unat w + 1 = 2 ^ LENGTH('a)" by linarith
  moreover have "unat w + 1 \<le> unat v" using \<open>unat w < unat v\<close> by simp
  moreover have "unat v < 2 ^ LENGTH('a)" by (rule unsigned_less)
  ultimately have "unat w + 1 < 2 ^ LENGTH('a)" by linarith
  then show ?thesis by (simp add: unat_word_ariths)
qed

section \<open>State\<close>

type_synonym entry = "wtf_string \<times> wtf_string"

text \<open>
  The hash map is the list of its entries in the order an iterator visits them, and an
  iterator is a position in it. The order after an insertion or a removal is that of the
  hash table: the parameter \<open>rehash\<close> reorders the entries.
\<close>

record storage_map =
  sm_map :: "entry list"
  sm_iterator :: nat
  sm_iteratorIndex :: "32 word"
  sm_quotaSize :: "32 word"
  sm_currentLength :: "32 word"

definition UINT_MAX :: "32 word" where "UINT_MAX = - 1"
definition noQuota :: "32 word" where "noQuota = UINT_MAX"

text \<open>\<open>String::length()\<close>, where a null string has length 0.\<close>

definition length_of :: "wtf_string \<Rightarrow> 32 word" where
  "length_of s = of_nat (length s)"

definition length_of_opt :: "wtf_string option \<Rightarrow> 32 word" where
  "length_of_opt v = (case v of None \<Rightarrow> 0 | Some s \<Rightarrow> length_of s)"

section \<open>The hash map\<close>

definition map_get :: "entry list \<Rightarrow> wtf_string \<Rightarrow> wtf_string option" where
  "map_get m key = map_of m key"

fun map_replace :: "wtf_string \<Rightarrow> wtf_string \<Rightarrow> entry list \<Rightarrow> entry list" where
  "map_replace key value [] = []"
| "map_replace key value ((k, v) # m) = (if k = key then (k, value) # m else (k, v) # map_replace key value m)"

text \<open>\<open>add\<close>, followed by the assignment of the value when the entry is not new.\<close>

definition map_set :: "(entry list \<Rightarrow> entry list) \<Rightarrow> wtf_string \<Rightarrow> wtf_string \<Rightarrow> entry list \<Rightarrow> entry list" where
  "map_set rehash key value m =
     (if map_get m key = None then rehash (m @ [(key, value)]) else map_replace key value m)"

definition map_take :: "(entry list \<Rightarrow> entry list) \<Rightarrow> wtf_string \<Rightarrow> entry list \<Rightarrow> entry list" where
  "map_take rehash key m =
     (if map_get m key = None then m else rehash (filter (\<lambda>e. fst e \<noteq> key) m))"

section \<open>Operations\<close>

definition createStorageMap :: "32 word \<Rightarrow> storage_map" where
  "createStorageMap quota =
     \<lparr>sm_map = [], sm_iterator = 0, sm_iteratorIndex = UINT_MAX, sm_quotaSize = quota, sm_currentLength = 0\<rparr>"

definition copyStorageMap :: "storage_map \<Rightarrow> storage_map" where
  "copyStorageMap m = (createStorageMap (sm_quotaSize m))\<lparr>sm_map := sm_map m, sm_currentLength := sm_currentLength m\<rparr>"

definition invalidateIterator :: "storage_map \<Rightarrow> storage_map" where
  "invalidateIterator m = m\<lparr>sm_iterator := length (sm_map m), sm_iteratorIndex := UINT_MAX\<rparr>"

function advance_iterator :: "32 word \<Rightarrow> storage_map \<Rightarrow> storage_map" where
  "advance_iterator index m =
     (if sm_iteratorIndex m < index
      then advance_iterator index (m\<lparr>sm_iteratorIndex := sm_iteratorIndex m + 1, sm_iterator := sm_iterator m + 1\<rparr>)
      else m)"
  by pat_completeness auto
termination
proof (relation "measure (\<lambda>(index, m). unat index - unat (sm_iteratorIndex m))")
  fix index :: "32 word" and m :: storage_map
  assume "sm_iteratorIndex m < index"
  then show "((index, m\<lparr>sm_iteratorIndex := sm_iteratorIndex m + 1, sm_iterator := sm_iterator m + 1\<rparr>), index, m)
      \<in> measure (\<lambda>(index, m). unat index - unat (sm_iteratorIndex m))"
    using unat_Suc_less [of "sm_iteratorIndex m" index] by (simp add: word_less_nat_alt diff_less_mono2)
qed simp

declare advance_iterator.simps [simp del]

definition setIteratorToIndex :: "32 word \<Rightarrow> storage_map \<Rightarrow> storage_map" where
  "setIteratorToIndex index m =
     (if sm_iteratorIndex m = index then m
      else advance_iterator index
        (if index < sm_iteratorIndex m then m\<lparr>sm_iteratorIndex := 0, sm_iterator := 0\<rparr> else m))"

definition storage_length :: "storage_map \<Rightarrow> 32 word" where
  "storage_length m = of_nat (length (sm_map m))"

definition storage_key :: "32 word \<Rightarrow> storage_map \<Rightarrow> wtf_string option \<times> storage_map" where
  "storage_key index m =
     (if index \<ge> storage_length m then (None, m)
      else let m' = setIteratorToIndex index m in (Some (fst (sm_map m' ! sm_iterator m')), m'))"

definition getItem :: "storage_map \<Rightarrow> wtf_string \<Rightarrow> wtf_string option" where
  "getItem m key = map_get (sm_map m) key"

text \<open>
  A setter leaves the object in a new state and may return another object: the copy it
  made because the object was shared.
\<close>

record set_result =
  sr_this :: storage_map
  sr_new :: "storage_map option"
  sr_oldValue :: "wtf_string option"
  sr_quotaException :: bool

text \<open>The lengths and the overflow flag computed before the quota test.\<close>

definition quota_tracking :: "storage_map \<Rightarrow> wtf_string \<Rightarrow> wtf_string \<Rightarrow> 32 word \<times> bool" where
  "quota_tracking m key value =
     (let newLength = sm_currentLength m;
          overflow = newLength + length_of value < newLength;
          newLength1 = newLength + length_of value;
          oldValue = map_get (sm_map m) key;
          overflow1 = (overflow \<or> newLength1 - length_of_opt oldValue > newLength1);
          newLength2 = newLength1 - length_of_opt oldValue;
          adjustedKeyLength = (if oldValue = None then length_of key else 0);
          overflow2 = (overflow1 \<or> newLength2 + adjustedKeyLength < newLength2) in
      (newLength2 + adjustedKeyLength, overflow2))"

definition setItem_here :: "(entry list \<Rightarrow> entry list) \<Rightarrow> storage_map \<Rightarrow> wtf_string \<Rightarrow> wtf_string \<Rightarrow> set_result" where
  "setItem_here rehash m key value =
     (let (newLength, overflow) = quota_tracking m key value;
          oldValue = map_get (sm_map m) key;
          overQuota = newLength > sm_quotaSize m div 2 in
      if sm_quotaSize m \<noteq> noQuota \<and> (overflow \<or> overQuota)
      then \<lparr>sr_this = m, sr_new = None, sr_oldValue = oldValue, sr_quotaException = True\<rparr>
      else \<lparr>sr_this = invalidateIterator (m\<lparr>sm_currentLength := newLength, sm_map := map_set rehash key value (sm_map m)\<rparr>),
            sr_new = None, sr_oldValue = oldValue, sr_quotaException = False\<rparr>)"

definition setItem :: "(entry list \<Rightarrow> entry list) \<Rightarrow> bool \<Rightarrow> storage_map \<Rightarrow> wtf_string \<Rightarrow> wtf_string \<Rightarrow> set_result" where
  "setItem rehash shared m key value =
     (if shared then let r = setItem_here rehash (copyStorageMap m) key value in
        r\<lparr>sr_this := m, sr_new := Some (sr_this r)\<rparr>
      else setItem_here rehash m key value)"

text \<open>\<open>TemporaryChange\<close> restores the quota of this object when the call is over.\<close>

definition setItemIgnoringQuota ::
    "(entry list \<Rightarrow> entry list) \<Rightarrow> bool \<Rightarrow> storage_map \<Rightarrow> wtf_string \<Rightarrow> wtf_string \<Rightarrow> storage_map \<times> storage_map option" where
  "setItemIgnoringQuota rehash shared m key value =
     (let r = setItem rehash shared (m\<lparr>sm_quotaSize := noQuota\<rparr>) key value in
      ((sr_this r)\<lparr>sm_quotaSize := sm_quotaSize m\<rparr>, sr_new r))"

definition removeItem_here :: "(entry list \<Rightarrow> entry list) \<Rightarrow> storage_map \<Rightarrow> wtf_string \<Rightarrow> set_result" where
  "removeItem_here rehash m key =
     (let oldValue = map_get (sm_map m) key;
          m1 = m\<lparr>sm_map := map_take rehash key (sm_map m)\<rparr>;
          m2 = (if oldValue \<noteq> None
                then (invalidateIterator m1)\<lparr>sm_currentLength := sm_currentLength m1 - length_of key\<rparr> else m1);
          m3 = m2\<lparr>sm_currentLength := sm_currentLength m2 - length_of_opt oldValue\<rparr> in
      \<lparr>sr_this = m3, sr_new = None, sr_oldValue = oldValue, sr_quotaException = False\<rparr>)"

definition removeItem :: "(entry list \<Rightarrow> entry list) \<Rightarrow> bool \<Rightarrow> storage_map \<Rightarrow> wtf_string \<Rightarrow> set_result" where
  "removeItem rehash shared m key =
     (if shared then let r = removeItem_here rehash (copyStorageMap m) key in
        r\<lparr>sr_this := m, sr_new := Some (sr_this r)\<rparr>
      else removeItem_here rehash m key)"

definition storage_contains :: "storage_map \<Rightarrow> wtf_string \<Rightarrow> bool" where
  "storage_contains m key \<longleftrightarrow> map_get (sm_map m) key \<noteq> None"

text \<open>\<open>add\<close> without an assignment: an existing key keeps its value, the lengths are added anyway.\<close>

fun importItems :: "(entry list \<Rightarrow> entry list) \<Rightarrow> entry list \<Rightarrow> storage_map \<Rightarrow> storage_map" where
  "importItems rehash [] m = m"
| "importItems rehash ((key, value) # it) m =
     importItems rehash it
       (m\<lparr>sm_map := (if map_get (sm_map m) key = None then rehash (sm_map m @ [(key, value)]) else sm_map m),
          sm_currentLength := sm_currentLength m + length_of key + length_of value\<rparr>)"

section \<open>Accounting\<close>

definition total :: "entry list \<Rightarrow> nat" where
  "total m = sum_list (map (\<lambda>(k, v). length k + length v) m)"

definition reorders :: "('a list \<Rightarrow> 'a list) \<Rightarrow> bool" where
  "reorders f \<longleftrightarrow> (\<forall>xs. mset (f xs) = mset xs)"

definition storage_wf :: "storage_map \<Rightarrow> bool" where
  "storage_wf m \<longleftrightarrow> distinct (map fst (sm_map m)) \<and> sm_currentLength m = of_nat (total (sm_map m))
     \<and> (sm_iteratorIndex m \<noteq> UINT_MAX \<longrightarrow> sm_iterator m = unat (sm_iteratorIndex m))
     \<and> (sm_quotaSize m \<noteq> noQuota \<longrightarrow> total (sm_map m) \<le> unat (sm_quotaSize m) div 2)"

lemma total_simps [simp]: "total [] = 0" "total ((k, v) # m) = length k + length v + total m" "total (a @ b) = total a + total b"
  by (simp_all add: total_def)

lemma total_mset: "mset a = mset b \<Longrightarrow> total a = total b"
proof -
  assume "mset a = mset b"
  then have "mset (map (\<lambda>(k, v). length k + length v) a) = mset (map (\<lambda>(k, v). length k + length v) b)" by (simp only: mset_map)
  then show ?thesis unfolding total_def by (simp only: sum_mset_sum_list [symmetric])
qed

lemma distinct_mset: "mset a = mset b \<Longrightarrow> distinct (map fst a) \<longleftrightarrow> distinct (map fst b)"
proof -
  assume "mset a = mset b"
  then have "mset (map fst a) = mset (map fst b)" by (simp only: mset_map)
  then show ?thesis by (rule mset_eq_imp_distinct_iff)
qed

lemma map_of_mset: "mset a = mset b \<Longrightarrow> distinct (map fst a) \<Longrightarrow> map_of a = map_of b"
  using map_of_inject_set [of a b] distinct_mset [of a b] mset_eq_setD [of a b] by simp

lemma map_replace_facts:
  "map fst (map_replace k v m) = map fst m"
  "map_of m k = Some old \<Longrightarrow> total (map_replace k v m) + length old = total m + length v"
  "map_of m k = Some old \<Longrightarrow> map_of (map_replace k v m) = (map_of m)(k \<mapsto> v)"
  by (induction k v m rule: map_replace.induct) (auto simp: fun_eq_iff)

lemma total_remove:
  "distinct (map fst m) \<Longrightarrow> map_of m k = Some old \<Longrightarrow>
     total (filter (\<lambda>e. fst e \<noteq> k) m) + length k + length old = total m"
proof (induction m)
  case (Cons e m)
  obtain k' v' where e: "e = (k', v')" by fastforce
  show ?case
  proof (cases "k' = k")
    case True
    then have "filter (\<lambda>e. fst e \<noteq> k) m = m" using Cons.prems(1) by (auto simp: e filter_id_conv)
    with True Cons.prems show ?thesis by (simp add: e)
  next
    case False
    with Cons show ?thesis by (simp add: e)
  qed
qed simp

lemma map_of_remove: "map_of (filter (\<lambda>e. fst e \<noteq> k) m) = (map_of m)(k := None)"
  by (induction m) (auto simp: fun_eq_iff)

lemma map_set_facts:
  assumes "reorders rehash" "distinct (map fst m)"
  shows "distinct (map fst (map_set rehash k v m))" "map_of (map_set rehash k v m) = (map_of m)(k \<mapsto> v)"
    "total (map_set rehash k v m) + (case map_of m k of None \<Rightarrow> 0 | Some old \<Rightarrow> length old)
      = total m + length v + (if map_of m k = None then length k else 0)"
proof -
  have ms: "mset (rehash (m @ [(k, v)])) = mset (m @ [(k, v)])" using assms(1) by (simp add: reorders_def)
  have new: "distinct (map fst (m @ [(k, v)]))" "map_of (m @ [(k, v)]) = (map_of m)(k \<mapsto> v)" if "map_of m k = None"
  proof -
    have k: "k \<notin> fst ` set m" using that by (simp add: map_of_eq_None_iff)
    then show "distinct (map fst (m @ [(k, v)]))" using assms(2) by simp
    show "map_of (m @ [(k, v)]) = (map_of m)(k \<mapsto> v)"
      using that by (intro ext) (simp add: map_add_def split: option.splits)
  qed
  show "distinct (map fst (map_set rehash k v m))"
    using new distinct_mset [OF ms] assms(2) by (simp add: map_set_def map_get_def map_replace_facts)
  show "map_of (map_set rehash k v m) = (map_of m)(k \<mapsto> v)"
    using new map_of_mset [OF ms] distinct_mset [OF ms] map_replace_facts(3) by (auto simp: map_set_def map_get_def)
  show "total (map_set rehash k v m) + (case map_of m k of None \<Rightarrow> 0 | Some old \<Rightarrow> length old)
      = total m + length v + (if map_of m k = None then length k else 0)"
    using total_mset [OF ms] map_replace_facts(2) [of m k _ v]
    by (auto simp: map_set_def map_get_def split: option.splits)
qed

lemma map_take_facts:
  assumes "reorders rehash" "distinct (map fst m)"
  shows "distinct (map fst (map_take rehash k m))" "map_of (map_take rehash k m) = (map_of m)(k := None)"
    "total (map_take rehash k m) + (case map_of m k of None \<Rightarrow> 0 | Some old \<Rightarrow> length k + length old) = total m"
proof -
  have ms: "mset (rehash (filter (\<lambda>e. fst e \<noteq> k) m)) = mset (filter (\<lambda>e. fst e \<noteq> k) m)" using assms(1) by (simp add: reorders_def)
  have d: "distinct (map fst (filter (\<lambda>e. fst e \<noteq> k) m))" using assms(2) by (simp add: distinct_map_filter)
  show "distinct (map fst (map_take rehash k m))"
    using d distinct_mset [OF ms] assms(2) by (simp add: map_take_def)
  show "map_of (map_take rehash k m) = (map_of m)(k := None)"
    using d map_of_mset [OF ms] distinct_mset [OF ms] by (auto simp: map_take_def map_get_def map_of_remove)
  show "total (map_take rehash k m) + (case map_of m k of None \<Rightarrow> 0 | Some old \<Rightarrow> length k + length old) = total m"
    using total_mset [OF ms] total_remove [OF assms(2), of k]
    by (auto simp: map_take_def map_get_def split: option.splits)
qed

lemma unat_add_32: "unat (x + y :: 32 word) = (if unat x + unat y < 2 ^ 32 then unat x + unat y else unat x + unat y - 2 ^ 32)"
proof -
  have "unat x < 2 ^ 32" "unat y < 2 ^ 32" using unsigned_less [of x, where ?'a = nat] unsigned_less [of y, where ?'a = nat] by simp_all
  then show ?thesis by (simp add: unat_word_ariths mod_if)
qed

lemma quota_arithmetic:
  fixes a v old k q :: "32 word"
  assumes "unat old \<le> unat a" "unat a < 2 ^ 31" "unat q < 2 ^ 31"
  defines "n \<equiv> a + v - old + k"
  shows "(a + v < a \<or> a + v - old > a + v \<or> n < a + v - old) \<or> n > q \<longleftrightarrow> unat a + unat v - unat old + unat k > unat q"
    and "\<not> (a + v < a \<or> a + v - old > a + v \<or> n < a + v - old) \<Longrightarrow> unat n = unat a + unat v - unat old + unat k"
proof -
  have b: "unat v < 2 ^ 32" "unat k < 2 ^ 32" using unsigned_less [of v, where ?'a = nat] unsigned_less [of k, where ?'a = nat] by simp_all
  have "((a + v < a \<or> a + v - old > a + v \<or> n < a + v - old) \<or> n > q \<longleftrightarrow> unat a + unat v - unat old + unat k > unat q)
    \<and> (\<not> (a + v < a \<or> a + v - old > a + v \<or> n < a + v - old) \<longrightarrow> unat n = unat a + unat v - unat old + unat k)"
  proof (cases "unat a + unat v < 2 ^ 32")
    case True
    then have n1: "unat (a + v) = unat a + unat v" by (simp add: unat_add_32)
    then have "old \<le> a + v" using assms(1) by (simp add: word_le_nat_alt)
    then have n2: "unat (a + v - old) = unat a + unat v - unat old" using n1 by (simp add: unat_sub)
    have n3: "unat n = (if unat a + unat v - unat old + unat k < 2 ^ 32 then unat a + unat v - unat old + unat k
        else unat a + unat v - unat old + unat k - 2 ^ 32)"
      unfolding n_def unat_add_32 n2 ..
    show ?thesis using n1 n2 n3 b assms(1-3) unfolding word_less_nat_alt by (auto split: if_splits)
  next
    case False
    then have "unat (a + v) = unat a + unat v - 2 ^ 32" by (simp add: unat_add_32)
    then have "a + v < a" using b False by (simp add: word_less_nat_alt)
    then show ?thesis using False assms(1-3) by auto
  qed
  then show "(a + v < a \<or> a + v - old > a + v \<or> n < a + v - old) \<or> n > q \<longleftrightarrow> unat a + unat v - unat old + unat k > unat q"
    "\<not> (a + v < a \<or> a + v - old > a + v \<or> n < a + v - old) \<Longrightarrow> unat n = unat a + unat v - unat old + unat k" by blast+
qed

text \<open>The length after an assignment, and whether it is allowed.\<close>

definition new_total :: "entry list \<Rightarrow> wtf_string \<Rightarrow> wtf_string \<Rightarrow> nat" where
  "new_total m k v = total m + length v - (case map_of m k of None \<Rightarrow> 0 | Some old \<Rightarrow> length old)
     + (if map_of m k = None then length k else 0)"

definition over_quota :: "storage_map \<Rightarrow> wtf_string \<Rightarrow> wtf_string \<Rightarrow> bool" where
  "over_quota m k v \<longleftrightarrow> sm_quotaSize m \<noteq> noQuota \<and> new_total (sm_map m) k v > unat (sm_quotaSize m) div 2"

lemma old_le_total: "map_of m k = Some old \<Longrightarrow> length old \<le> total m"
  by (induction m) (auto split: if_splits)

lemma total_map_set:
  assumes "reorders rehash" "distinct (map fst m)"
  shows "total (map_set rehash k v m) = new_total m k v"
  using map_set_facts(3) [OF assms, of k v] old_le_total [of m k] by (auto simp: new_total_def split: option.splits)

lemma quota_tracking_word:
  assumes "sm_currentLength m = of_nat (total (sm_map m))"
  shows "fst (quota_tracking m k v) = of_nat (new_total (sm_map m) k v)"
proof (cases "map_of (sm_map m) k")
  case None
  then show ?thesis using assms
    by (simp add: quota_tracking_def Let_def map_get_def length_of_def length_of_opt_def new_total_def)
next
  case (Some old)
  then have "length old \<le> total (sm_map m) + length v" using old_le_total by fastforce
  with Some assms show ?thesis
    by (simp add: quota_tracking_def Let_def map_get_def length_of_def length_of_opt_def new_total_def of_nat_diff)
qed

lemma unat_div_2: "unat (w div 2 :: 32 word) = unat w div 2"
  by (simp add: unat_div)

lemma quota_tracking_exact:
  assumes cur: "sm_currentLength m = of_nat (total (sm_map m))" and q: "total (sm_map m) \<le> unat (sm_quotaSize m) div 2"
    and len: "length k < 2 ^ 32" "length v < 2 ^ 32"
  defines "r \<equiv> quota_tracking m k v"
  shows "snd r \<or> fst r > sm_quotaSize m div 2 \<longleftrightarrow> new_total (sm_map m) k v > unat (sm_quotaSize m) div 2"
proof -
  let ?old = "map_get (sm_map m) k" and ?q = "sm_quotaSize m div 2"
  let ?k = "if ?old = None then length_of k else 0"
  have "unat (sm_quotaSize m) < 2 ^ 32" using unsigned_less [of "sm_quotaSize m", where ?'a = nat] by simp
  then have q31: "unat ?q < 2 ^ 31" by (simp add: unat_div_2)
  then have t: "unat (sm_currentLength m) = total (sm_map m)" "unat (sm_currentLength m) < 2 ^ 31"
    using q cur by (simp_all add: unat_div_2 unat_of_nat)
  have o: "unat (length_of_opt ?old) = (case map_of (sm_map m) k of None \<Rightarrow> 0 | Some old \<Rightarrow> length old)"
    using old_le_total [of "sm_map m" k] t by (auto simp: length_of_opt_def map_get_def length_of_def unat_of_nat split: option.splits)
  then have ole: "unat (length_of_opt ?old) \<le> unat (sm_currentLength m)"
    using old_le_total [of "sm_map m" k] t by (auto split: option.splits)
  have kv: "unat (length_of v) = length v" "unat ?k = (if map_of (sm_map m) k = None then length k else 0)"
    using len by (simp_all add: length_of_def unat_of_nat map_get_def)
  have "new_total (sm_map m) k v = unat (sm_currentLength m) + unat (length_of v) - unat (length_of_opt ?old) + unat ?k"
    by (simp add: new_total_def t o kv)
  then show ?thesis using quota_arithmetic(1) [OF ole t(2) q31, of "length_of v" ?k]
    by (simp add: r_def quota_tracking_def Let_def unat_div_2)
qed

lemma invalidateIterator_fields [simp]:
  "sm_map (invalidateIterator m) = sm_map m" "sm_currentLength (invalidateIterator m) = sm_currentLength m"
  "sm_quotaSize (invalidateIterator m) = sm_quotaSize m" "sm_iteratorIndex (invalidateIterator m) = UINT_MAX"
  by (simp_all add: invalidateIterator_def)

lemma setItem_here_correct:
  assumes re: "reorders rehash" and wf: "storage_wf m" and len: "length k < 2 ^ 32" "length v < 2 ^ 32"
  defines "r \<equiv> setItem_here rehash m k v"
  shows "sr_quotaException r = over_quota m k v \<and> sr_oldValue r = getItem m k \<and> storage_wf (sr_this r) \<and>
    sm_quotaSize (sr_this r) = sm_quotaSize m \<and>
    map_of (sm_map (sr_this r)) = (if over_quota m k v then map_of (sm_map m) else (map_of (sm_map m))(k \<mapsto> v))"
proof -
  obtain nl ov where qt: "quota_tracking m k v = (nl, ov)" by fastforce
  have wfs: "distinct (map fst (sm_map m))" "sm_currentLength m = of_nat (total (sm_map m))" using wf by (simp_all add: storage_wf_def)
  have nl: "nl = of_nat (new_total (sm_map m) k v)" using quota_tracking_word [OF wfs(2), of k v] qt by simp
  have ov: "sm_quotaSize m \<noteq> noQuota \<and> (ov \<or> nl > sm_quotaSize m div 2) \<longleftrightarrow> over_quota m k v"
    using quota_tracking_exact [OF wfs(2) _ len] wf qt by (auto simp: over_quota_def storage_wf_def)
  note ms = map_set_facts(1,2) [OF re wfs(1), of k v] total_map_set [OF re wfs(1), of k v]
  show ?thesis
  proof (cases "over_quota m k v")
    case True
    then show ?thesis using ov wf by (simp add: r_def setItem_here_def qt getItem_def)
  next
    case False
    then have r: "r = \<lparr>sr_this = invalidateIterator (m\<lparr>sm_currentLength := nl, sm_map := map_set rehash k v (sm_map m)\<rparr>),
            sr_new = None, sr_oldValue = map_get (sm_map m) k, sr_quotaException = False\<rparr>"
      using ov by (auto simp: r_def setItem_here_def qt)
    show ?thesis using False ms nl by (auto simp: r getItem_def storage_wf_def over_quota_def)
  qed
qed

lemma removeItem_here_correct:
  fixes k :: wtf_string
  assumes re: "reorders rehash" and wf: "storage_wf m"
  defines "r \<equiv> removeItem_here rehash m k"
  shows "sr_oldValue r = getItem m k \<and> storage_wf (sr_this r) \<and> sm_quotaSize (sr_this r) = sm_quotaSize m \<and>
    map_of (sm_map (sr_this r)) = (map_of (sm_map m))(k := None)"
proof -
  have wfs: "distinct (map fst (sm_map m))" "sm_currentLength m = of_nat (total (sm_map m))"
    "sm_quotaSize m \<noteq> noQuota \<Longrightarrow> total (sm_map m) \<le> unat (sm_quotaSize m) div 2" using wf by (simp_all add: storage_wf_def)
  note mt = map_take_facts [OF re wfs(1), of k]
  have le: "total (map_take rehash k (sm_map m)) \<le> total (sm_map m)" using mt(3) by linarith
  show ?thesis
  proof (cases "map_of (sm_map m) k")
    case None
    then have "map_take rehash k (sm_map m) = sm_map m" "(map_of (sm_map m))(k := None) = map_of (sm_map m)"
      by (auto simp: map_take_def map_get_def)
    with None wf show ?thesis by (simp add: r_def removeItem_here_def Let_def map_get_def length_of_opt_def getItem_def)
  next
    case (Some old)
    have "(of_nat (total (sm_map m)) :: 32 word) = of_nat (total (map_take rehash k (sm_map m)) + (length k + length old))"
      using mt(3) Some by simp
    then have "of_nat (total (sm_map m)) - length_of k - length_of old = (of_nat (total (map_take rehash k (sm_map m))) :: 32 word)"
      by (simp add: length_of_def)
    with Some mt(1,2) wfs(2,3) le show ?thesis
      by (auto simp: r_def removeItem_here_def Let_def map_get_def length_of_opt_def getItem_def storage_wf_def)
  qed
qed

lemma advance_iterator_index:
  "sm_iteratorIndex m \<le> index \<Longrightarrow> advance_iterator index m =
     m\<lparr>sm_iteratorIndex := index, sm_iterator := sm_iterator m + (unat index - unat (sm_iteratorIndex m))\<rparr>"
proof (induction index m rule: advance_iterator.induct)
  case (1 index m)
  show ?case
  proof (cases "sm_iteratorIndex m < index")
    case True
    then have s: "unat (sm_iteratorIndex m + 1) = Suc (unat (sm_iteratorIndex m))" by (rule unat_Suc_less)
    then have "sm_iteratorIndex m + 1 \<le> index" using True by (simp add: word_le_nat_alt word_less_nat_alt)
    moreover have "unat (sm_iteratorIndex m) < unat index" using True by (simp add: word_less_nat_alt)
    ultimately show ?thesis using 1 True s by (subst advance_iterator.simps) simp
  next
    case False
    then have "sm_iteratorIndex m = index" using 1(2) by simp
    then show ?thesis by (subst advance_iterator.simps) simp
  qed
qed

lemma setIteratorToIndex_eq:
  assumes "storage_wf m" "index \<noteq> UINT_MAX"
  shows "setIteratorToIndex index m = m\<lparr>sm_iteratorIndex := index, sm_iterator := unat index\<rparr>"
proof -
  consider (same) "sm_iteratorIndex m = index" | (down) "index < sm_iteratorIndex m" | (up) "sm_iteratorIndex m < index" by fastforce
  then show ?thesis
  proof cases
    case same
    with assms show ?thesis by (auto simp: setIteratorToIndex_def storage_wf_def)
  next
    case down
    then show ?thesis by (auto simp: setIteratorToIndex_def advance_iterator_index)
  next
    case up
    then have "sm_iteratorIndex m \<noteq> UINT_MAX" by (auto simp: UINT_MAX_def)
    with up assms have "sm_iterator m = unat (sm_iteratorIndex m)" by (simp add: storage_wf_def)
    then have it: "sm_iterator m + (unat index - unat (sm_iteratorIndex m)) = unat index" using up by (simp add: word_less_nat_alt)
    have "sm_iteratorIndex m \<noteq> index" "\<not> index < sm_iteratorIndex m" "sm_iteratorIndex m \<le> index" using up by auto
    then show ?thesis unfolding setIteratorToIndex_def by (simp add: advance_iterator_index it)
  qed
qed

lemma storage_key_correct:
  assumes wf: "storage_wf m"
  shows "storage_wf (snd (storage_key index m))" "sm_map (snd (storage_key index m)) = sm_map m"
    "sm_quotaSize (snd (storage_key index m)) = sm_quotaSize m"
    "length (sm_map m) < 2 ^ 32 \<Longrightarrow>
      fst (storage_key index m) = (if unat index < length (sm_map m) then Some (fst (sm_map m ! unat index)) else None)"
proof -
  have "index \<noteq> UINT_MAX" if "index < storage_length m" using that by (auto simp: UINT_MAX_def)
  note set = setIteratorToIndex_eq [OF wf this]
  show "sm_map (snd (storage_key index m)) = sm_map m" "sm_quotaSize (snd (storage_key index m)) = sm_quotaSize m"
    using set by (auto simp: storage_key_def Let_def not_le)
  show "storage_wf (snd (storage_key index m))"
    using set wf by (auto simp: storage_key_def Let_def not_le storage_wf_def)
  assume "length (sm_map m) < 2 ^ 32"
  then have "unat (storage_length m) = length (sm_map m)" by (simp add: storage_length_def unat_of_nat)
  then show "fst (storage_key index m) = (if unat index < length (sm_map m) then Some (fst (sm_map m ! unat index)) else None)"
    using set by (auto simp: storage_key_def Let_def word_le_nat_alt word_less_nat_alt)
qed

section \<open>Storage as a map with a quota\<close>

text \<open>The number of characters a map holds.\<close>

definition map_total :: "(wtf_string \<rightharpoonup> wtf_string) \<Rightarrow> nat" where
  "map_total f = (\<Sum>k\<in>dom f. length k + length (the (f k)))"

lemma total_map_of: "distinct (map fst m) \<Longrightarrow> total m = map_total (map_of m)"
proof (induction m)
  case (Cons e m)
  obtain k v where e: "e = (k, v)" by fastforce
  have k: "k \<notin> dom (map_of m)" using Cons.prems by (simp add: e dom_map_of_conv_image_fst)
  have "(\<Sum>x\<in>dom (map_of m). length x + length (the (if x = k then Some v else map_of m x)))
      = (\<Sum>x\<in>dom (map_of m). length x + length (the (map_of m x)))"
    using k by (intro sum.cong) auto
  moreover have "dom (\<lambda>x. if x = k then Some v else map_of m x) = insert k (dom (map_of m))" by (auto simp: dom_def)
  ultimately show ?case using Cons k by (simp add: e map_total_def finite_dom_map_of fun_upd_def)
qed (simp add: map_total_def)

lemma reorders_id: "reorders (\<lambda>xs. xs)"
  by (simp add: reorders_def)

lemma new_total_map: "distinct (map fst m) \<Longrightarrow> new_total m k v = map_total ((map_of m)(k \<mapsto> v))"
  using total_map_set [OF reorders_id, of m k v] map_set_facts(1,2) [OF reorders_id, of m k v] total_map_of by metis

datatype storage_op = SetItem wtf_string wtf_string | RemoveItem wtf_string | Key "32 word"

text \<open>A storage object that is not shared, with the order of its hash table.\<close>

type_synonym storage = "(entry list \<Rightarrow> entry list) \<times> storage_map"

fun storage_step :: "storage_op \<Rightarrow> storage \<Rightarrow> storage" where
  "storage_step (SetItem k v) (rehash, m) = (rehash, sr_this (setItem rehash False m k v))"
| "storage_step (RemoveItem k) (rehash, m) = (rehash, sr_this (removeItem rehash False m k))"
| "storage_step (Key i) (rehash, m) = (rehash, snd (storage_key i m))"

fun storage_spec :: "storage_op \<Rightarrow> (wtf_string \<rightharpoonup> wtf_string) \<times> 32 word \<Rightarrow> (wtf_string \<rightharpoonup> wtf_string) \<times> 32 word" where
  "storage_spec (SetItem k v) (f, q) =
     (if q \<noteq> noQuota \<and> map_total (f(k \<mapsto> v)) > unat q div 2 then (f, q) else (f(k \<mapsto> v), q))"
| "storage_spec (RemoveItem k) (f, q) = (f(k := None), q)"
| "storage_spec (Key i) (f, q) = (f, q)"

fun storage_op_ok :: "storage_op \<Rightarrow> bool" where
  "storage_op_ok (SetItem k v) = (length k < 2 ^ 32 \<and> length v < 2 ^ 32)"
| "storage_op_ok (RemoveItem k) = (length k < 2 ^ 32)"
| "storage_op_ok (Key i) = True"

fun storage_ok :: "storage \<Rightarrow> bool" where
  "storage_ok (rehash, m) = (reorders rehash \<and> storage_wf m)"

fun storage_abs :: "storage \<Rightarrow> (wtf_string \<rightharpoonup> wtf_string) \<times> 32 word" where
  "storage_abs (rehash, m) = (map_of (sm_map m), sm_quotaSize m)"

lemma storage_step_simulates:
  assumes "storage_ok s" "storage_op_ok x"
  shows "storage_ok (storage_step x s) \<and> storage_abs (storage_step x s) = storage_spec x (storage_abs s)"
proof -
  obtain rehash m where s: "s = (rehash, m)" by fastforce
  have re: "reorders rehash" and wf: "storage_wf m" using assms(1) by (simp_all add: s)
  have d: "distinct (map fst (sm_map m))" using wf by (simp add: storage_wf_def)
  show ?thesis
  proof (cases x)
    case (SetItem k v)
    then have "length k < 2 ^ 32" "length v < 2 ^ 32" using assms(2) by simp_all
    from setItem_here_correct [OF re wf this] SetItem re show ?thesis
      by (auto simp: s setItem_def over_quota_def new_total_map [OF d])
  next
    case (RemoveItem k)
    with removeItem_here_correct [OF re wf, of k] re show ?thesis by (simp add: s removeItem_def)
  next
    case (Key i)
    with storage_key_correct(1-3) [OF wf, of i] re show ?thesis by (simp add: s)
  qed
qed

interpretation storage_sim: simulation storage_ok storage_op_ok storage_abs storage_step storage_spec
  by unfold_locales (rule storage_step_simulates)

section \<open>Properties\<close>

text \<open>
  C20: A storage map behaves as a finite map with a quota: after any sequence of
  \<open>setItem\<close>, \<open>removeItem\<close> and \<open>key\<close> calls it holds what the specification holds, where an
  assignment is refused exactly when the characters of all keys and values would exceed
  half of the quota in bytes. This holds for every order of the hash table.
\<close>

theorem storage_run:
  assumes "reorders rehash" "storage_wf m" "list_all storage_op_ok ops"
  shows "storage_abs (fold storage_step ops (rehash, m)) = fold storage_spec ops (map_of (sm_map m), sm_quotaSize m) \<and>
    storage_ok (fold storage_step ops (rehash, m))"
  using storage_sim.run [of "(rehash, m)" ops] assms by simp

lemma storage_wf_create: "storage_wf (createStorageMap q)"
  by (simp add: storage_wf_def createStorageMap_def)

theorem storage_run_witness:
  "storage_abs (fold storage_step [SetItem (lit ''a'') (lit ''xyz''), Key 0, SetItem (lit ''b'') (lit ''long'')]
      (\<lambda>xs. xs, createStorageMap 12)) = ([lit ''a'' \<mapsto> lit ''xyz''], 12)"
  using storage_run [OF reorders_id storage_wf_create [of 12],
      of "[SetItem (lit ''a'') (lit ''xyz''), Key 0, SetItem (lit ''b'') (lit ''long'')]"]
  by (simp add: createStorageMap_def lit_def map_total_def noQuota_def UINT_MAX_def)

text \<open>
  C21: The accounting is exact: \<open>setItem\<close> raises the quota exception exactly when the new
  contents would exceed the quota, also when the 32-bit sums overflow on the way, and then
  changes nothing; otherwise the key has the new value, every other key its old one, and the
  recorded length is that of the contents.
\<close>

theorem setItem_quota:
  assumes "reorders rehash" "storage_wf m" "length k < 2 ^ 32" "length v < 2 ^ 32" "sm_quotaSize m \<noteq> noQuota"
  shows "let r = setItem rehash False m k v; over = (map_total ((map_of (sm_map m))(k \<mapsto> v)) > unat (sm_quotaSize m) div 2) in
    sr_quotaException r = over \<and> sr_oldValue r = getItem m k \<and> (over \<longrightarrow> sr_this r = m) \<and>
    (\<not> over \<longrightarrow> getItem (sr_this r) = (getItem m)(k \<mapsto> v) \<and> unat (sm_currentLength (sr_this r)) = total (sm_map (sr_this r)))"
proof -
  have d: "distinct (map fst (sm_map m))" using assms(2) by (simp add: storage_wf_def)
  note c = setItem_here_correct [OF assms(1-4)]
  have over: "over_quota m k v \<longleftrightarrow> map_total ((map_of (sm_map m))(k \<mapsto> v)) > unat (sm_quotaSize m) div 2"
    using assms(5) by (simp add: over_quota_def new_total_map [OF d])
  have get: "getItem = (\<lambda>m. map_of (sm_map m))" by (simp add: getItem_def map_get_def fun_eq_iff)
  have same: "sr_this (setItem_here rehash m k v) = m" if "over_quota m k v"
    using that c by (auto simp: setItem_here_def Let_def split: prod.splits if_splits)
  have "unat (sm_currentLength s) = total (sm_map s)" if "storage_wf s" "sm_quotaSize s \<noteq> noQuota" for s
  proof -
    have "unat (sm_quotaSize s) < 2 ^ 32" using unsigned_less [of "sm_quotaSize s", where ?'a = nat] by simp
    then have "total (sm_map s) < 2 ^ 32" using that unfolding storage_wf_def by linarith
    then show ?thesis using that by (simp add: storage_wf_def unat_of_nat)
  qed
  then show ?thesis using c same assms(5) by (simp add: setItem_def Let_def over [symmetric] get)
qed

theorem setItem_quota_witness:
  "sr_quotaException (setItem (\<lambda>xs. xs) False (createStorageMap 8) (lit ''k'') (lit ''long'')) \<and>
   \<not> sr_quotaException (setItem (\<lambda>xs. xs) False (createStorageMap 8) (lit ''k'') (lit ''abc''))"
  using setItem_quota [OF reorders_id storage_wf_create [of 8], of "lit ''k''" "lit ''long''"]
    setItem_quota [OF reorders_id storage_wf_create [of 8], of "lit ''k''" "lit ''abc''"]
  by (simp add: Let_def createStorageMap_def lit_def map_total_def noQuota_def UINT_MAX_def)

text \<open>
  C38: Enumerating a storage map by index visits every key exactly once: the cached
  iterator always gives the key at that position, whatever was asked before.
\<close>

theorem storage_key_enumerates:
  assumes "storage_wf m" "length (sm_map m) < 2 ^ 32"
  shows "map (\<lambda>i. fst (storage_key (of_nat i) m)) [0..<length (sm_map m)] = map (Some \<circ> fst) (sm_map m) \<and>
    distinct (map fst (sm_map m)) \<and> storage_wf (snd (storage_key i m)) \<and> sm_map (snd (storage_key i m)) = sm_map m"
proof -
  have "fst (storage_key (of_nat i) m) = Some (fst (sm_map m ! i))" if "i < length (sm_map m)" for i
    using storage_key_correct(4) [OF assms, of "of_nat i"] that assms(2) by (simp add: unat_of_nat)
  then have "map (\<lambda>i. fst (storage_key (of_nat i) m)) [0..<length (sm_map m)] = map (Some \<circ> fst) (sm_map m)"
    by (intro nth_equalityI) simp_all
  then show ?thesis using assms(1) storage_key_correct(1,2) [OF assms(1)] by (simp add: storage_wf_def)
qed

theorem storage_key_enumerates_witness:
  "fst (storage_key 0 (sr_this (setItem (\<lambda>xs. xs) False (createStorageMap 8) (lit ''k'') (lit ''v'')))) = Some (lit ''k'')"
proof -
  let ?m = "sr_this (setItem (\<lambda>xs. xs) False (createStorageMap 8) (lit ''k'') (lit ''v''))"
  have m: "sm_map ?m = [(lit ''k'', lit ''v'')]" by code_simp
  have "storage_wf ?m"
    using setItem_here_correct [OF reorders_id storage_wf_create [of 8], of "lit ''k''" "lit ''v''"] by (simp add: setItem_def lit_def)
  from storage_key_enumerates [OF this, of 0] show ?thesis by (simp add: m)
qed

text \<open>
  C39: Copy on write: a shared storage map is never changed by \<open>setItem\<close> or \<open>removeItem\<close>; the
  change is made in a new map, which is returned.
\<close>

theorem shared_map_unchanged:
  assumes "reorders rehash" "storage_wf m" "length k < 2 ^ 32" "length v < 2 ^ 32"
  shows "sr_this (setItem rehash True m k v) = m \<and> sr_this (removeItem rehash True m k) = m \<and>
    (\<exists>m'. sr_new (setItem rehash True m k v) = Some m' \<and> storage_wf m' \<and>
       map_of (sm_map m') = map_of (sm_map (sr_this (setItem rehash False m k v)))) \<and>
    (\<exists>m'. sr_new (removeItem rehash True m k) = Some m' \<and> storage_wf m' \<and> getItem m' = (getItem m)(k := None))"
proof -
  have wf: "storage_wf (copyStorageMap m)"
    using assms(2) by (simp add: storage_wf_def copyStorageMap_def createStorageMap_def)
  have eq: "sm_map (copyStorageMap m) = sm_map m" "over_quota (copyStorageMap m) = over_quota m"
    by (simp_all add: copyStorageMap_def createStorageMap_def over_quota_def fun_eq_iff)
  have get: "getItem = (\<lambda>m. map_of (sm_map m))" by (simp add: getItem_def map_get_def fun_eq_iff)
  show ?thesis
    using setItem_here_correct [OF assms(1) wf assms(3,4)] setItem_here_correct [OF assms]
      removeItem_here_correct [OF assms(1) wf, of k]
    by (simp add: setItem_def removeItem_def Let_def eq get)
qed

theorem shared_map_unchanged_witness:
  "sr_this (setItem (\<lambda>xs. xs) True (createStorageMap 8) (lit ''k'') (lit ''v'')) = createStorageMap 8"
  using shared_map_unchanged [OF reorders_id storage_wf_create [of 8], of "lit ''k''" "lit ''v''"] by (simp add: lit_def)

text \<open>
  The copy that \<open>setItemIgnoringQuota\<close> makes of a shared map is made while the quota is
  switched off, and keeps it switched off.
\<close>

lemma setItemIgnoringQuota_loses_quota:
  "map_option sm_quotaSize (snd (setItemIgnoringQuota rehash True m k v)) = Some noQuota"
  by (simp add: setItemIgnoringQuota_def setItem_def setItem_here_def Let_def copyStorageMap_def createStorageMap_def
      split: prod.splits)

end
