(* ===== verification/Back_Forward_List.thy ===== *)
theory Back_Forward_List
  imports Prelude "HOL-Library.Monad_Syntax" "HOL-Library.Multiset"
begin

text \<open>
  The back/forward list of a page in the UI process (\<open>UIProcess/WebBackForwardList.cpp\<close>):
  a vector of items with a current index and a capacity. Its operations may ask the client
  whether to keep the current item, report to the page, and stop the program when they read
  outside of the vector; the lemmas relate the list to a history with a cursor, through the
  simulation of every operation.
\<close>

section \<open>Items\<close>

record 'p item_state =
  item_identifier :: "64 word"
  pageState :: 'p

text \<open>An item is an object: two items are the same when their addresses are.\<close>

record 'p item =
  address :: nat
  itemState :: "'p item_state"
  itemPageID :: "64 word"

definition itemID :: "'p item \<Rightarrow> 64 word" where
  "itemID i = item_identifier (itemState i)"

text \<open>The two counters of the process: the last identifier given, and the highest one seen.\<close>

record item_ids =
  uniqueHistoryItemID :: "64 word"
  highestUsedItemID :: "64 word"

definition generateWebBackForwardItemID :: "item_ids \<Rightarrow> 64 word \<times> item_ids" where
  "generateWebBackForwardItemID ids =
     (let u = uniqueHistoryItemID ids + 2 in (u, ids\<lparr>uniqueHistoryItemID := u\<rparr>))"

definition createItem :: "nat \<Rightarrow> 'p item_state \<Rightarrow> 64 word \<Rightarrow> item_ids \<Rightarrow> 'p item \<times> item_ids" where
  "createItem addr state pageID ids =
     (\<lparr>address = addr, itemState = state, itemPageID = pageID\<rparr>,
      if item_identifier state > highestUsedItemID ids then ids\<lparr>highestUsedItemID := item_identifier state\<rparr> else ids)"

section \<open>The list\<close>

text \<open>The messages a list sends to its page.\<close>

datatype 'p page_event =
    BackForwardRemovedItem "64 word"
  | DidChangeBackForwardList "'p item option" "'p item list"

record 'p bf_list =
  bl_page :: "64 word option"
  bl_entries :: "'p item list"
  bl_hasCurrentIndex :: bool
  bl_currentIndex :: "32 word"
  bl_capacity :: "32 word"

text \<open>
  Reading a vector outside of its range stops the program, as does a call through the null
  page: the result of an operation that may do so is an option, and \<^const>\<open>None\<close> is a crash.
\<close>

definition vector_at :: "'a list \<Rightarrow> nat \<Rightarrow> 'a option" where
  "vector_at xs i = (if i < length xs then Some (xs ! i) else None)"

definition removed_event :: "'p item \<Rightarrow> 'p page_event" where
  "removed_event i = BackForwardRemovedItem (itemID i)"

definition DefaultCapacity :: "32 word" where "DefaultCapacity = 100"

definition createBackForwardList :: "64 word \<Rightarrow> 'p bf_list" where
  "createBackForwardList page =
     \<lparr>bl_page = Some page, bl_entries = [], bl_hasCurrentIndex = False, bl_currentIndex = 0, bl_capacity = DefaultCapacity\<rparr>"

definition pageClosed :: "'p bf_list \<Rightarrow> 'p bf_list \<times> 'p page_event list" where
  "pageClosed l =
     (l\<lparr>bl_page := None, bl_entries := [], bl_hasCurrentIndex := False\<rparr>,
      if bl_page l \<noteq> None then map removed_event (bl_entries l) else [])"

text \<open>The loop that drops the last entry while there are more than \<open>targetSize\<close>.\<close>

function toss_forward :: "nat \<Rightarrow> 'p item list \<Rightarrow> 'p item list \<times> 'p page_event list \<times> 'p item list" where
  "toss_forward targetSize es =
     (if length es > targetSize
      then let (es', ev, removed) = toss_forward targetSize (butlast es) in
        (es', removed_event (last es) # ev, last es # removed)
      else (es, [], []))"
  by pat_completeness auto
termination
  by (relation "measure (\<lambda>(t, es). length es)") auto

declare toss_forward.simps [simp del]

text \<open>The first part of \<open>addItem\<close>: the forward list is dropped, and the first entry of a full list.\<close>

definition make_room :: "'p bf_list \<Rightarrow> ('p bf_list \<times> 'p page_event list \<times> 'p item list) option" where
  "make_room l =
     (if bl_hasCurrentIndex l then
        let targetSize = unat (bl_currentIndex l + 1) in
        if length (bl_entries l) < targetSize then None
        else
          let (es, ev, removed) = toss_forward targetSize (bl_entries l) in
          if length es = unat (bl_capacity l) \<and> (bl_currentIndex l \<noteq> 0 \<or> bl_capacity l = 1) then
            do {
              e0 \<leftarrow> vector_at es 0;
              Some (if tl es = [] then l\<lparr>bl_entries := [], bl_hasCurrentIndex := False\<rparr>
                    else l\<lparr>bl_entries := tl es, bl_currentIndex := bl_currentIndex l - 1\<rparr>,
                    ev @ [removed_event e0], removed @ [e0])
            }
          else Some (l\<lparr>bl_entries := es\<rparr>, ev, removed)
      else Some (l\<lparr>bl_entries := []\<rparr>, map removed_event (bl_entries l), bl_entries l))"

text \<open>The new current index, and whether the client keeps the item that was current.\<close>

definition next_index :: "('p item \<Rightarrow> bool) \<Rightarrow> 'p bf_list \<Rightarrow> ('p bf_list \<times> bool) option" where
  "next_index keep l =
     (if \<not> bl_hasCurrentIndex l then Some (l\<lparr>bl_currentIndex := 0, bl_hasCurrentIndex := True\<rparr>, True)
      else do {
        c \<leftarrow> vector_at (bl_entries l) (unat (bl_currentIndex l));
        Some (if keep c then (l\<lparr>bl_currentIndex := bl_currentIndex l + 1\<rparr>, True) else (l, False))
      })"

definition insert_at :: "nat \<Rightarrow> 'a \<Rightarrow> 'a list \<Rightarrow> 'a list" where
  "insert_at i x xs = take i xs @ x # drop i xs"

definition remove_at :: "nat \<Rightarrow> 'a list \<Rightarrow> 'a list" where
  "remove_at i xs = take i xs @ drop (Suc i) xs"

definition addItem :: "('p item \<Rightarrow> bool) \<Rightarrow> 'p item option \<Rightarrow> 'p bf_list \<Rightarrow> ('p bf_list \<times> 'p page_event list) option" where
  "addItem keep newItem l =
     (if bl_capacity l = 0 \<or> newItem = None \<or> bl_page l = None then Some (l, [])
      else do {
        let new = the newItem;
        (l1, ev, removed) \<leftarrow> make_room l;
        (l2, shouldKeepCurrentItem) \<leftarrow> next_index keep l1;
        let i = unat (bl_currentIndex l2);
        if \<not> shouldKeepCurrentItem then do {
          c \<leftarrow> vector_at (bl_entries l2) i;
          Some (l2\<lparr>bl_entries := (bl_entries l2)[i := new]\<rparr>, ev @ [DidChangeBackForwardList newItem (removed @ [c])])
        } else
          Some (if i \<le> length (bl_entries l2) then l2\<lparr>bl_entries := insert_at i new (bl_entries l2)\<rparr> else l2,
                ev @ [DidChangeBackForwardList newItem removed])
      })"

fun find_item :: "'p item list \<Rightarrow> 'p item \<Rightarrow> nat option" where
  "find_item [] i = None"
| "find_item (e # es) i = (if address e = address i then Some 0 else map_option Suc (find_item es i))"

text \<open>\<open>notFound\<close> assigned to an \<open>unsigned\<close>.\<close>

definition index_word :: "nat option \<Rightarrow> 32 word" where
  "index_word i = (case i of None \<Rightarrow> - 1 | Some n \<Rightarrow> of_nat n)"

definition goToItem :: "('p item \<Rightarrow> bool) \<Rightarrow> 'p item option \<Rightarrow> 'p bf_list \<Rightarrow> ('p bf_list \<times> 'p page_event list) option" where
  "goToItem keep item l =
     (if bl_entries l = [] \<or> item = None \<or> bl_page l = None \<or> \<not> bl_hasCurrentIndex l then Some (l, [])
      else if find_item (bl_entries l) (the item) = None then Some (l, [])
      else do {
        currentItem \<leftarrow> vector_at (bl_entries l) (unat (bl_currentIndex l));
        let shouldKeepCurrentItem = (if address currentItem \<noteq> address (the item) then keep currentItem else True);
        if \<not> shouldKeepCurrentItem then
          let es = remove_at (unat (bl_currentIndex l)) (bl_entries l) in
          Some (l\<lparr>bl_entries := es, bl_currentIndex := index_word (find_item es (the item))\<rparr>,
                [DidChangeBackForwardList None [currentItem]])
        else
          Some (l\<lparr>bl_currentIndex := index_word (find_item (bl_entries l) (the item))\<rparr>, [DidChangeBackForwardList None []])
      })"

definition currentItem :: "'p bf_list \<Rightarrow> 'p item option option" where
  "currentItem l =
     (if bl_page l \<noteq> None \<and> bl_hasCurrentIndex l
      then map_option Some (vector_at (bl_entries l) (unat (bl_currentIndex l))) else Some None)"

definition backItem :: "'p bf_list \<Rightarrow> 'p item option option" where
  "backItem l =
     (if bl_page l \<noteq> None \<and> bl_hasCurrentIndex l \<and> bl_currentIndex l \<noteq> 0
      then map_option Some (vector_at (bl_entries l) (unat (bl_currentIndex l - 1))) else Some None)"

definition forwardItem :: "'p bf_list \<Rightarrow> 'p item option option" where
  "forwardItem l =
     (if bl_page l \<noteq> None \<and> bl_hasCurrentIndex l \<and> bl_entries l \<noteq> [] \<and> unat (bl_currentIndex l) < length (bl_entries l) - 1
      then map_option Some (vector_at (bl_entries l) (unat (bl_currentIndex l + 1))) else Some None)"

definition backListCount :: "'p bf_list \<Rightarrow> int" where
  "backListCount l = (if bl_page l \<noteq> None \<and> bl_hasCurrentIndex l then sint (bl_currentIndex l) else 0)"

definition forwardListCount :: "'p bf_list \<Rightarrow> int" where
  "forwardListCount l =
     (if bl_page l \<noteq> None \<and> bl_hasCurrentIndex l
      then sint (of_nat (length (bl_entries l)) - (bl_currentIndex l + 1)) else 0)"

definition itemAtIndex :: "int \<Rightarrow> 'p bf_list \<Rightarrow> 'p item option option" where
  "itemAtIndex index l =
     (if \<not> bl_hasCurrentIndex l \<or> bl_page l = None then Some None
      else if index < - backListCount l then Some None
      else if index > forwardListCount l then Some None
      else map_option Some (vector_at (bl_entries l) (unat (of_int index + bl_currentIndex l))))"

definition backListAsAPIArrayWithLimit :: "32 word \<Rightarrow> 'p bf_list \<Rightarrow> 'p item list option" where
  "backListAsAPIArrayWithLimit limit l =
     (if bl_page l = None \<or> \<not> bl_hasCurrentIndex l then Some []
      else let backListSize = of_int (backListCount l) :: 32 word; n = min backListSize limit in
        if n = 0 then Some []
        else those (map (vector_at (bl_entries l)) [unat (backListSize - n)..<unat backListSize]))"

definition forwardListAsAPIArrayWithLimit :: "32 word \<Rightarrow> 'p bf_list \<Rightarrow> 'p item list option" where
  "forwardListAsAPIArrayWithLimit limit l =
     (if bl_page l = None \<or> \<not> bl_hasCurrentIndex l then Some []
      else let n = min (of_int (forwardListCount l) :: 32 word) limit in
        if n = 0 then Some []
        else let last = bl_currentIndex l + n in
          those (map (vector_at (bl_entries l)) [unat (bl_currentIndex l + 1)..<Suc (unat last)]))"

definition backList :: "'p bf_list \<Rightarrow> 'p item list option" where
  "backList l = backListAsAPIArrayWithLimit (of_int (backListCount l)) l"

definition forwardList :: "'p bf_list \<Rightarrow> 'p item list option" where
  "forwardList l = forwardListAsAPIArrayWithLimit (of_int (forwardListCount l)) l"

definition removeAllItems :: "'p bf_list \<Rightarrow> ('p bf_list \<times> 'p page_event list) option" where
  "removeAllItems l =
     (if bl_page l = None then None
      else Some (l\<lparr>bl_entries := [], bl_hasCurrentIndex := False\<rparr>,
                 map removed_event (bl_entries l) @ [DidChangeBackForwardList None (bl_entries l)]))"

definition clear :: "'p bf_list \<Rightarrow> ('p bf_list \<times> 'p page_event list) option" where
  "clear l =
     (if bl_page l = None \<or> length (bl_entries l) \<le> 1 then Some (l, [])
      else do {
        current \<leftarrow> currentItem l;
        case current of
          None \<Rightarrow> Some (l\<lparr>bl_entries := [], bl_hasCurrentIndex := False\<rparr>,
                        map removed_event (bl_entries l) @ [DidChangeBackForwardList None (bl_entries l)])
        | Some c \<Rightarrow>
            Some (l\<lparr>bl_currentIndex := 0, bl_entries := [c]\<rparr>,
                  map removed_event (filter (\<lambda>e. address e \<noteq> address c) (bl_entries l))
                  @ [DidChangeBackForwardList None (remove_at (unat (bl_currentIndex l)) (bl_entries l))])
      })"

section \<open>Saving and restoring\<close>

record 'p bf_state =
  st_items :: "'p item_state list"
  st_currentIndex :: "32 word option"

fun state_loop :: "('p item \<Rightarrow> bool) option \<Rightarrow> nat \<Rightarrow> 'p item list \<Rightarrow> 'p bf_state \<Rightarrow> 'p bf_state" where
  "state_loop flt i [] st = st"
| "state_loop flt i (entry # es) st =
     state_loop flt (Suc i) es
       (case flt of
          Some f \<Rightarrow>
            if \<not> f entry
            then (case st_currentIndex st of
                    Some c \<Rightarrow> if i \<le> unat c then st\<lparr>st_currentIndex := Some (c - 1)\<rparr> else st
                  | None \<Rightarrow> st)
            else st\<lparr>st_items := st_items st @ [itemState entry]\<rparr>
        | None \<Rightarrow> st\<lparr>st_items := st_items st @ [itemState entry]\<rparr>)"

definition backForwardListState :: "('p item \<Rightarrow> bool) option \<Rightarrow> 'p bf_list \<Rightarrow> 'p bf_state" where
  "backForwardListState flt l =
     state_loop flt 0 (bl_entries l)
       \<lparr>st_items = [], st_currentIndex = (if bl_hasCurrentIndex l then Some (bl_currentIndex l) else None)\<rparr>"

text \<open>The addresses of the new items are those the allocator gives: \<open>new\<close> numbers them.\<close>

fun restore_items :: "(nat \<Rightarrow> nat) \<Rightarrow> nat \<Rightarrow> 64 word \<Rightarrow> 'p item_state list \<Rightarrow> item_ids \<Rightarrow> 'p item list \<times> item_ids" where
  "restore_items new i pageID [] ids = ([], ids)"
| "restore_items new i pageID (s # ss) ids =
     (let (u, ids1) = generateWebBackForwardItemID ids;
          (item, ids2) = createItem (new i) (s\<lparr>item_identifier := u\<rparr>) pageID ids1;
          (its, ids3) = restore_items new (Suc i) pageID ss ids2 in
      (item # its, ids3))"

definition restoreFromState :: "(nat \<Rightarrow> nat) \<Rightarrow> item_ids \<Rightarrow> 'p bf_state \<Rightarrow> 'p bf_list \<Rightarrow> ('p bf_list \<times> item_ids) option" where
  "restoreFromState new ids st l =
     (if bl_page l = None \<and> st_items st \<noteq> [] then None
      else let (its, ids') = restore_items new 0 (the (bl_page l)) (st_items st) ids in
        Some (l\<lparr>bl_hasCurrentIndex := st_currentIndex st \<noteq> None,
                bl_currentIndex := (case st_currentIndex st of None \<Rightarrow> 0 | Some c \<Rightarrow> c),
                bl_entries := its\<rparr>, ids'))"

definition itemStates :: "'p bf_list \<Rightarrow> 'p item_state list" where
  "itemStates l = map itemState (bl_entries l)"

section \<open>The list as a history\<close>

text \<open>
  What a list stands for: a closed page has none, otherwise there is a current item with
  the items before and behind it, or nothing.
\<close>

datatype 'p history = Closed | NoHistory | History "'p item list" "'p item" "'p item list"

definition zip_at :: "'p item list \<Rightarrow> nat \<Rightarrow> 'p history" where
  "zip_at es i = History (take i es) (es ! i) (drop (Suc i) es)"

definition bl_abs :: "'p bf_list \<Rightarrow> 'p history" where
  "bl_abs l =
     (if bl_page l = None then Closed
      else if \<not> bl_hasCurrentIndex l then NoHistory
      else zip_at (bl_entries l) (unat (bl_currentIndex l)))"

definition bl_wf :: "'p bf_list \<Rightarrow> bool" where
  "bl_wf l \<longleftrightarrow> (bl_page l = None \<longrightarrow> \<not> bl_hasCurrentIndex l) \<and>
     (if bl_hasCurrentIndex l then unat (bl_currentIndex l) < length (bl_entries l) else bl_entries l = []) \<and>
     0 < bl_capacity l \<and> unat (bl_capacity l) < 2 ^ 31 \<and> length (bl_entries l) \<le> unat (bl_capacity l)"

lemma zip_at_append [simp]: "zip_at (b @ c # f) (length b) = History b c f"
  by (simp add: zip_at_def)

lemma bl_wf_split:
  assumes "bl_wf l" "bl_hasCurrentIndex l"
  obtains p b c f where "bl_page l = Some p" "bl_entries l = b @ c # f" "bl_currentIndex l = of_nat (length b)"
    "unat (bl_currentIndex l) = length b" "length b + length f + 1 \<le> unat (bl_capacity l)" "unat (bl_capacity l) < 2 ^ 31"
proof -
  let ?i = "unat (bl_currentIndex l)"
  have i: "?i < length (bl_entries l)" using assms by (simp add: bl_wf_def)
  then have "bl_entries l = take ?i (bl_entries l) @ bl_entries l ! ?i # drop (Suc ?i) (bl_entries l)" by (rule id_take_nth_drop)
  moreover have "length (take ?i (bl_entries l)) = ?i" using i by simp
  moreover obtain p where "bl_page l = Some p" using assms by (auto simp: bl_wf_def)
  ultimately show thesis using assms i
    by (intro that [of p "take ?i (bl_entries l)" "bl_entries l ! ?i" "drop (Suc ?i) (bl_entries l)"]) (auto simp: bl_wf_def)
qed

text \<open>The same the other way round.\<close>

lemma bl_at:
  assumes "bl_page l = Some p" "bl_hasCurrentIndex l" "bl_entries l = b @ c # f" "bl_currentIndex l = of_nat (length b)"
    "length b + length f + 1 \<le> unat (bl_capacity l)" "unat (bl_capacity l) < 2 ^ 31"
  shows "bl_wf l \<and> bl_abs l = History b c f"
proof -
  have "unat (bl_currentIndex l) = length b" using assms(4-6) by (simp add: unat_of_nat)
  moreover have "0 < bl_capacity l" using assms(5) by (simp add: word_less_nat_alt)
  ultimately show ?thesis using assms by (simp add: bl_wf_def bl_abs_def)
qed

section \<open>The operations on histories\<close>

lemma toss_forward_eq: "toss_forward t es = (take t es, map removed_event (rev (drop t es)), rev (drop t es))"
proof (induction t es rule: toss_forward.induct)
  case (1 t es)
  show ?case
  proof (cases "length es > t")
    case True
    then have "es \<noteq> []" by auto
    then have es: "es = butlast es @ [last es]" by simp
    have t: "t \<le> length (butlast es)" using True by simp
    have "take t es = take t (butlast es)" using t by (subst es) (simp only: take_append, simp)
    moreover have "drop t es = drop t (butlast es) @ [last es]" using t by (subst es) (simp only: drop_append, simp)
    ultimately show ?thesis using 1 True by (subst toss_forward.simps) simp
  next
    case False
    then show ?thesis by (subst toss_forward.simps) simp
  qed
qed

definition dropped :: "nat \<Rightarrow> 'p history \<Rightarrow> 'p item list" where
  "dropped cap h = (case h of History b c f \<Rightarrow>
     rev f @ (if length b + 1 = cap then if cap = 1 then [c] else [hd b] else []) | _ \<Rightarrow> [])"

lemma make_room_eq:
  assumes wf: "bl_wf l" "bl_hasCurrentIndex l" and e: "bl_entries l = b @ c # f" "unat (bl_currentIndex l) = length b"
  shows "make_room l = Some (
    if length b + 1 = unat (bl_capacity l) then
      if unat (bl_capacity l) = 1 then l\<lparr>bl_entries := [], bl_hasCurrentIndex := False\<rparr>
      else l\<lparr>bl_entries := tl b @ [c], bl_currentIndex := of_nat (length b - 1)\<rparr>
    else l\<lparr>bl_entries := b @ [c]\<rparr>,
    map removed_event (dropped (unat (bl_capacity l)) (History b c f)), dropped (unat (bl_capacity l)) (History b c f))"
proof -
  have cap: "length b + length f + 1 \<le> unat (bl_capacity l)" "unat (bl_capacity l) < 2 ^ 31" using wf e by (simp_all add: bl_wf_def)
  have ci: "bl_currentIndex l = of_nat (length b)" using arg_cong [OF e(2), of "of_nat :: nat \<Rightarrow> 32 word"] by simp
  have t: "unat (bl_currentIndex l + 1) = length b + 1" using cap by (simp add: unat_word_ariths e(2))
  have c1: "bl_capacity l = 1 \<longleftrightarrow> unat (bl_capacity l) = 1" by (simp add: word_eq_iff_unsigned [where ?'a = nat])
  have c0: "bl_currentIndex l \<noteq> 0 \<longleftrightarrow> b \<noteq> []" using e(2) by (simp add: word_eq_iff_unsigned [where ?'a = nat])
  have tk: "take (Suc (length b)) (b @ c # f) = b @ [c]" "drop (Suc (length b)) (b @ c # f) = f" by simp_all
  show ?thesis
  proof (cases b)
    case Nil
    have n: "bl_currentIndex l = 0" "unat (bl_currentIndex l + 1) = 1" using c0 t Nil by simp_all
    show ?thesis unfolding make_room_def Let_def n e(1) Nil append_Nil toss_forward_eq using wf(2)
      by (cases "unat (bl_capacity l) = 1") (simp_all add: c1 vector_at_def dropped_def)
  next
    case (Cons b0 bs)
    have "bl_currentIndex l - 1 = of_nat (length bs)" using ci Cons by simp
    moreover have "toss_forward (length b + 1) (b @ c # f) = (b @ [c], map removed_event (rev f), rev f)"
      by (simp add: toss_forward_eq tk)
    ultimately show ?thesis unfolding make_room_def Let_def t e(1) using wf(2) c0 Cons
      by (cases "length b + 1 = unat (bl_capacity l)") (simp_all add: vector_at_def dropped_def)
  qed
qed

fun hist_add :: "nat \<Rightarrow> ('p item \<Rightarrow> bool) \<Rightarrow> 'p item \<Rightarrow> 'p history \<Rightarrow> 'p history" where
  "hist_add cap keep n Closed = Closed"
| "hist_add cap keep n NoHistory = History [] n []"
| "hist_add cap keep n (History b c f) =
     (if cap = 1 then History [] n []
      else let b' = (if length b + 1 = cap then tl b else b) in
        if keep c then History (b' @ [c]) n [] else History b' n [])"

definition rejected :: "nat \<Rightarrow> ('p item \<Rightarrow> bool) \<Rightarrow> 'p history \<Rightarrow> 'p item list" where
  "rejected cap keep h = (case h of History b c f \<Rightarrow> if cap \<noteq> 1 \<and> \<not> keep c then [c] else [] | _ \<Rightarrow> [])"


definition add_room :: "nat \<Rightarrow> 'p history \<Rightarrow> 'p history" where
  "add_room cap h = (case h of History b c f \<Rightarrow>
     if length b + 1 = cap then if cap = 1 then NoHistory else History (tl b) c [] else History b c [] | _ \<Rightarrow> h)"

lemma make_room_refines:
  assumes wf: "bl_wf l" and p: "bl_page l = Some p"
  obtains l1 where "make_room l = Some (l1, map removed_event (dropped (unat (bl_capacity l)) (bl_abs l)), dropped (unat (bl_capacity l)) (bl_abs l))"
    "bl_wf l1" "bl_abs l1 = add_room (unat (bl_capacity l)) (bl_abs l)"
    "bl_hasCurrentIndex l1 \<Longrightarrow> length (bl_entries l1) < unat (bl_capacity l)"
    "bl_page l1 = bl_page l" "bl_capacity l1 = bl_capacity l"
proof (cases "bl_hasCurrentIndex l")
  case True
  from bl_wf_split [OF wf True] obtain b c f where e: "bl_entries l = b @ c # f" "unat (bl_currentIndex l) = length b"
    "bl_currentIndex l = of_nat (length b)" and cap: "length b + length f + 1 \<le> unat (bl_capacity l)" "unat (bl_capacity l) < 2 ^ 31"
    by metis
  have h: "bl_abs l = History b c f" using bl_at [OF p True e(1,3) cap] by simp
  note mr = make_room_eq [OF wf True e(1,2)]
  consider (one) "length b + 1 = unat (bl_capacity l)" "unat (bl_capacity l) = 1"
    | (full) "length b + 1 = unat (bl_capacity l)" "unat (bl_capacity l) \<noteq> 1" | (room) "length b + 1 \<noteq> unat (bl_capacity l)" by blast
  then show thesis
  proof cases
    case one
    let ?l = "l\<lparr>bl_entries := [], bl_hasCurrentIndex := False\<rparr>"
    have "bl_wf ?l" "bl_abs ?l = NoHistory" using wf p by (simp_all add: bl_wf_def bl_abs_def)
    then show thesis using that mr one p by (simp add: h add_room_def)
  next
    case full
    let ?l = "l\<lparr>bl_entries := tl b @ [c], bl_currentIndex := of_nat (length b - 1)\<rparr>"
    have "bl_wf ?l \<and> bl_abs ?l = History (tl b) c []"
      by (rule bl_at) (use p True cap full in simp_all)
    then show thesis using that mr full p by (simp add: h add_room_def)
  next
    case room
    let ?l = "l\<lparr>bl_entries := b @ [c]\<rparr>"
    have "bl_wf ?l \<and> bl_abs ?l = History b c []"
      by (rule bl_at) (use p True cap e in simp_all)
    then show thesis using that mr room p cap by (simp add: h add_room_def)
  qed
next
  case False
  then have "bl_entries l = []" "bl_abs l = NoHistory" using wf p by (simp_all add: bl_wf_def bl_abs_def)
  then show thesis using that [of l] wf False by (simp add: make_room_def dropped_def add_room_def)
qed

lemma addItem_refines:
  assumes wf: "bl_wf l" and p: "bl_page l = Some p"
  obtains l' where "addItem keep (Some n) l = Some (l', map removed_event (dropped (unat (bl_capacity l)) (bl_abs l)) @
      [DidChangeBackForwardList (Some n) (dropped (unat (bl_capacity l)) (bl_abs l) @ rejected (unat (bl_capacity l)) keep (bl_abs l))])"
    "bl_wf l'" "bl_abs l' = hist_add (unat (bl_capacity l)) keep n (bl_abs l)" "bl_page l' = bl_page l" "bl_capacity l' = bl_capacity l"
proof -
  let ?h = "bl_abs l" and ?cap = "unat (bl_capacity l)"
  have cap: "bl_capacity l \<noteq> 0" "?cap < 2 ^ 31" "0 < ?cap" using wf by (auto simp: bl_wf_def word_less_nat_alt)
  from make_room_refines [OF wf p] obtain l1 where mr: "make_room l = Some (l1, map removed_event (dropped ?cap ?h), dropped ?cap ?h)"
    and l1: "bl_wf l1" "bl_abs l1 = add_room ?cap ?h" "bl_hasCurrentIndex l1 \<Longrightarrow> length (bl_entries l1) < ?cap"
      "bl_page l1 = bl_page l" "bl_capacity l1 = bl_capacity l" by metis
  show thesis
  proof (cases "bl_hasCurrentIndex l1")
    case False
    then have e: "bl_entries l1 = []" and h: "add_room ?cap ?h = NoHistory" using l1 p by (simp_all add: bl_wf_def bl_abs_def)
    let ?l = "l1\<lparr>bl_currentIndex := 0, bl_hasCurrentIndex := True, bl_entries := [n]\<rparr>"
    have "bl_wf ?l \<and> bl_abs ?l = History [] n []"
      by (rule bl_at) (use p l1 cap in simp_all)
    moreover have "hist_add ?cap keep n ?h = History [] n []" "rejected ?cap keep ?h = []"
      using h by (auto simp: add_room_def rejected_def split: history.splits if_splits)
    ultimately show thesis using that False p l1 cap e
      by (simp add: addItem_def mr next_index_def insert_at_def)
  next
    case True
    from bl_wf_split [OF l1(1) True] obtain b c f where e: "bl_entries l1 = b @ c # f" "unat (bl_currentIndex l1) = length b"
      "bl_currentIndex l1 = of_nat (length b)" and le: "length b + length f + 1 \<le> unat (bl_capacity l1)" by metis
    have h1: "bl_abs l1 = History b c f" using bl_at [OF _ True e(1,3) le] p l1 cap by simp
    then have f: "f = []" and hh: "hist_add ?cap keep n ?h = (if keep c then History (b @ [c]) n [] else History b n [])"
        "rejected ?cap keep ?h = (if keep c then [] else [c])"
      using l1(2) l1(3) [OF True] e(1) by (auto simp: add_room_def rejected_def Let_def split: history.splits if_splits)
    have lt: "length b + 1 < ?cap" using l1(3) [OF True] e(1) f by simp
    then have u: "unat (bl_currentIndex l1 + 1) = length b + 1" using cap(2) by (simp add: unat_word_ariths e(2))
    show thesis
    proof (cases "keep c")
      case True
      let ?l = "l1\<lparr>bl_currentIndex := bl_currentIndex l1 + 1, bl_entries := b @ [c, n]\<rparr>"
      have "bl_wf ?l \<and> bl_abs ?l = History (b @ [c]) n []"
        by (rule bl_at) (use p l1 cap lt \<open>bl_hasCurrentIndex l1\<close> in \<open>simp_all add: e(3)\<close>)
      moreover have ni: "next_index keep l1 = Some (l1\<lparr>bl_currentIndex := bl_currentIndex l1 + 1\<rparr>, True)"
        using True \<open>bl_hasCurrentIndex l1\<close> by (simp add: next_index_def e(1,2) vector_at_def)
      have "insert_at (length b + 1) n (b @ [c]) = b @ [c, n]" by (simp add: insert_at_def)
      then have "addItem keep (Some n) l = Some (?l, map removed_event (dropped ?cap ?h) @ [DidChangeBackForwardList (Some n) (dropped ?cap ?h)])"
        using p cap u f by (simp add: addItem_def mr ni e(1))
      ultimately show thesis using that True p l1 by (simp add: hh)
    next
      case False
      let ?l = "l1\<lparr>bl_entries := b @ [n]\<rparr>"
      have "bl_wf ?l \<and> bl_abs ?l = History b n []"
        by (rule bl_at) (use p l1 cap lt e \<open>bl_hasCurrentIndex l1\<close> in simp_all)
      moreover have ni: "next_index keep l1 = Some (l1, False)"
        using False \<open>bl_hasCurrentIndex l1\<close> by (simp add: next_index_def e(1,2) vector_at_def)
      have "addItem keep (Some n) l = Some (?l, map removed_event (dropped ?cap ?h) @ [DidChangeBackForwardList (Some n) (dropped ?cap ?h @ [c])])"
        using p cap f by (simp add: addItem_def mr ni e(1,2) vector_at_def)
      ultimately show thesis using that False p l1 by (simp add: hh)
    qed
  qed
qed

lemma takeWhile_shorter: "\<exists>x\<in>set xs. \<not> P x \<Longrightarrow> length (takeWhile P xs) < length xs"
  by (induction xs) auto

lemma find_item_eq:
  "find_item es i = (if \<exists>e\<in>set es. address e = address i
     then Some (length (takeWhile (\<lambda>e. address e \<noteq> address i) es)) else None)"
  by (induction es) auto

lemma index_word_of_nat [simp]: "index_word (Some n) = of_nat n"
  by (simp add: index_word_def)

definition item_in :: "'p item \<Rightarrow> 'p item list \<Rightarrow> bool" where
  "item_in i es \<longleftrightarrow> list_ex (\<lambda>e. address e = address i) es"

text \<open>The history at the first occurrence of an item.\<close>

definition zip_to :: "'p item \<Rightarrow> 'p item list \<Rightarrow> 'p history" where
  "zip_to i es = zip_at es (length (takeWhile (\<lambda>e. address e \<noteq> address i) es))"

fun hist_go :: "('p item \<Rightarrow> bool) \<Rightarrow> 'p item \<Rightarrow> 'p history \<Rightarrow> 'p history" where
  "hist_go keep i (History b c f) =
     (if \<not> item_in i (b @ c # f) then History b c f
      else zip_to i (if address c \<noteq> address i \<and> \<not> keep c then b @ f else b @ c # f))"
| "hist_go keep i h = h"

lemma bl_at_index:
  assumes "bl_page l = Some p" "bl_hasCurrentIndex l" "item_in i (bl_entries l)"
    "bl_currentIndex l = index_word (find_item (bl_entries l) i)"
    "length (bl_entries l) \<le> unat (bl_capacity l)" "unat (bl_capacity l) < 2 ^ 31"
  shows "bl_wf l \<and> bl_abs l = zip_to i (bl_entries l)"
proof -
  let ?P = "\<lambda>e. address e \<noteq> address i"
  let ?n = "length (takeWhile ?P (bl_entries l))"
  have ex: "\<exists>e\<in>set (bl_entries l). address e = address i" using assms(3) by (simp add: item_in_def list_ex_iff)
  then have n: "?n < length (bl_entries l)" by (intro takeWhile_shorter) auto
  then have "unat (bl_currentIndex l) = ?n" using assms(4-6) ex by (simp add: find_item_eq unat_of_nat)
  moreover have "0 < bl_capacity l" using n assms(5) by (simp add: word_less_nat_alt)
  ultimately show ?thesis using assms n by (simp add: bl_wf_def bl_abs_def zip_to_def)
qed

lemma goToItem_refines:
  assumes wf: "bl_wf l"
  obtains l' ev where "goToItem keep (Some i) l = Some (l', ev)" "bl_wf l'" "bl_abs l' = hist_go keep i (bl_abs l)"
    "bl_page l' = bl_page l" "bl_capacity l' = bl_capacity l"
    "ev = [] \<and> l' = l \<or> (\<exists>removed. ev = [DidChangeBackForwardList None removed] \<and> mset (bl_entries l) = mset (bl_entries l') + mset removed)"
proof (cases "bl_hasCurrentIndex l")
  case False
  then have "hist_go keep i (bl_abs l) = bl_abs l" by (simp add: bl_abs_def)
  then show thesis using that [of l "[]"] wf False by (simp add: goToItem_def)
next
  case has: True
  from bl_wf_split [OF wf has] obtain p b c f where p: "bl_page l = Some p" and e: "bl_entries l = b @ c # f" "unat (bl_currentIndex l) = length b"
    "bl_currentIndex l = of_nat (length b)" and cap: "length b + length f + 1 \<le> unat (bl_capacity l)" "unat (bl_capacity l) < 2 ^ 31"
    by metis
  have h: "bl_abs l = History b c f" using bl_at [OF p has e(1,3) cap] by simp
  have find: "find_item es i = None \<longleftrightarrow> \<not> item_in i es" for es by (simp add: find_item_eq item_in_def list_ex_iff)
  consider (absent) "\<not> item_in i (b @ c # f)" | (drop) "item_in i (b @ c # f)" "address c \<noteq> address i" "\<not> keep c"
    | (stay) "item_in i (b @ c # f)" "address c = address i \<or> keep c" by blast
  then show thesis
  proof cases
    case absent
    then show thesis using that [of l "[]"] wf p by (simp add: goToItem_def e(1) find h)
  next
    case drop
    let ?l = "l\<lparr>bl_entries := b @ f, bl_currentIndex := index_word (find_item (b @ f) i)\<rparr>"
    have "bl_wf ?l \<and> bl_abs ?l = zip_to i (bl_entries ?l)"
      by (rule bl_at_index) (use p has cap drop in \<open>simp_all add: item_in_def\<close>)
    moreover have "goToItem keep (Some i) l = Some (?l, [DidChangeBackForwardList None [c]])"
      using drop p has by (simp add: goToItem_def e(1,2) find vector_at_def remove_at_def Let_def)
    ultimately show thesis using that drop by (simp add: h e(1))
  next
    case stay
    let ?l = "l\<lparr>bl_currentIndex := index_word (find_item (b @ c # f) i)\<rparr>"
    have "bl_wf ?l \<and> bl_abs ?l = zip_to i (bl_entries ?l)"
      by (rule bl_at_index) (use p has cap stay e(1) in simp_all)
    moreover have "goToItem keep (Some i) l = Some (?l, [DidChangeBackForwardList None []])"
      using stay p has by (auto simp: goToItem_def e(1,2) find vector_at_def)
    ultimately show thesis using that stay by (auto simp: h e(1))
  qed
qed

fun hist_clear :: "'p history \<Rightarrow> 'p history" where
  "hist_clear (History b c f) = History [] c []"
| "hist_clear h = h"

lemma clear_refines:
  assumes wf: "bl_wf l"
  obtains l' ev where "clear l = Some (l', ev)" "bl_wf l'" "bl_abs l' = hist_clear (bl_abs l)"
    "bl_page l' = bl_page l" "bl_capacity l' = bl_capacity l"
    "ev = [] \<and> l' = l \<or> (\<exists>ids removed. ev = ids @ [DidChangeBackForwardList None removed] \<and> mset (bl_entries l) = mset (bl_entries l') + mset removed)"
proof (cases "bl_hasCurrentIndex l")
  case False
  then have "hist_clear (bl_abs l) = bl_abs l" "bl_entries l = []" using wf by (simp_all add: bl_abs_def bl_wf_def)
  then show thesis using that [of l "[]"] wf by (simp add: clear_def)
next
  case has: True
  from bl_wf_split [OF wf has] obtain p b c f where p: "bl_page l = Some p" and e: "bl_entries l = b @ c # f" "unat (bl_currentIndex l) = length b"
    "bl_currentIndex l = of_nat (length b)" and cap: "length b + length f + 1 \<le> unat (bl_capacity l)" "unat (bl_capacity l) < 2 ^ 31"
    by metis
  have h: "bl_abs l = History b c f" using bl_at [OF p has e(1,3) cap] by simp
  show thesis
  proof (cases "b = [] \<and> f = []")
    case True
    then show thesis using that [of l "[]"] wf by (simp add: clear_def e(1) h)
  next
    case False
    let ?l = "l\<lparr>bl_currentIndex := 0, bl_entries := [c]\<rparr>"
    have "bl_wf ?l \<and> bl_abs ?l = History [] c []" by (rule bl_at) (use p has cap in simp_all)
    moreover have "clear l = Some (?l, map removed_event (filter (\<lambda>e. address e \<noteq> address c) (b @ c # f)) @ [DidChangeBackForwardList None (b @ f)])"
      using False p has by (auto simp: clear_def currentItem_def vector_at_def e(1,2) remove_at_def)
    ultimately show thesis using that by (simp add: h e(1))
  qed
qed

lemma restore_items_facts:
  "length (fst (restore_items new i pg ss ids)) = length ss"
  "map (pageState \<circ> itemState) (fst (restore_items new i pg ss ids)) = map pageState ss"
  by (induction new i pg ss ids rule: restore_items.induct)
    (auto simp: generateWebBackForwardItemID_def createItem_def Let_def split: prod.splits)

definition state_ok :: "'p bf_state \<Rightarrow> bool" where
  "state_ok st \<longleftrightarrow> length (st_items st) \<le> unat DefaultCapacity \<and>
     (case st_currentIndex st of None \<Rightarrow> st_items st = [] | Some c \<Rightarrow> unat c < length (st_items st))"

definition hist_restore :: "(nat \<Rightarrow> nat) \<Rightarrow> item_ids \<Rightarrow> 'p bf_state \<Rightarrow> 64 word \<Rightarrow> 'p history" where
  "hist_restore new ids st pg =
     (case st_currentIndex st of None \<Rightarrow> NoHistory | Some c \<Rightarrow> zip_at (fst (restore_items new 0 pg (st_items st) ids)) (unat c))"

section \<open>Sequences of operations\<close>

datatype 'p bl_op = AddItem "'p item \<Rightarrow> bool" "'p item option" | GoToItem "'p item \<Rightarrow> bool" "'p item option"
  | RemoveAllItems | Clear | PageClosed | RestoreFromState "nat \<Rightarrow> nat" item_ids "'p bf_state"

fun bl_call :: "'p bl_op \<Rightarrow> 'p bf_list \<Rightarrow> 'p bf_list option" where
  "bl_call (AddItem keep i) l = map_option fst (addItem keep i l)"
| "bl_call (GoToItem keep i) l = map_option fst (goToItem keep i l)"
| "bl_call RemoveAllItems l = map_option fst (removeAllItems l)"
| "bl_call Clear l = map_option fst (clear l)"
| "bl_call PageClosed l = Some (fst (pageClosed l))"
| "bl_call (RestoreFromState new ids st) l = map_option fst (restoreFromState new ids st l)"

text \<open>The page and its history; \<^const>\<open>None\<close> for a crash.\<close>

fun hist_call :: "'p bl_op \<Rightarrow> 64 word \<times> 'p history \<Rightarrow> (64 word \<times> 'p history) option" where
  "hist_call (AddItem keep i) (pg, h) = Some (pg, case i of None \<Rightarrow> h | Some n \<Rightarrow> hist_add (unat DefaultCapacity) keep n h)"
| "hist_call (GoToItem keep i) (pg, h) = Some (pg, case i of None \<Rightarrow> h | Some n \<Rightarrow> hist_go keep n h)"
| "hist_call RemoveAllItems (pg, h) = (if h = Closed then None else Some (pg, NoHistory))"
| "hist_call Clear (pg, h) = Some (pg, hist_clear h)"
| "hist_call PageClosed (pg, h) = Some (0, Closed)"
| "hist_call (RestoreFromState new ids st) (pg, h) =
     (if h = Closed then if st_items st = [] then Some (pg, h) else None
      else Some (pg, hist_restore new ids st pg))"

definition bl_step :: "'p bl_op \<Rightarrow> 'p bf_list option \<Rightarrow> 'p bf_list option" where
  "bl_step x s = Option.bind s (bl_call x)"

definition hist_step :: "'p bl_op \<Rightarrow> (64 word \<times> 'p history) option \<Rightarrow> (64 word \<times> 'p history) option" where
  "hist_step x s = Option.bind s (hist_call x)"

fun bl_op_ok :: "'p bl_op \<Rightarrow> bool" where
  "bl_op_ok (RestoreFromState new ids st) = state_ok st"
| "bl_op_ok _ = True"

definition bl_ok :: "'p bf_list option \<Rightarrow> bool" where
  "bl_ok s \<longleftrightarrow> (case s of None \<Rightarrow> True | Some l \<Rightarrow> bl_wf l \<and> bl_capacity l = DefaultCapacity)"

definition bl_view :: "'p bf_list \<Rightarrow> 64 word \<times> 'p history" where
  "bl_view l = ((case bl_page l of None \<Rightarrow> 0 | Some pg \<Rightarrow> pg), bl_abs l)"

lemma restore_refines:
  assumes "bl_wf l" "bl_capacity l = DefaultCapacity" "state_ok st"
  shows "bl_ok (bl_call (RestoreFromState new ids st) l) \<and>
    map_option bl_view (bl_call (RestoreFromState new ids st) l) = hist_call (RestoreFromState new ids st) (bl_view l)"
proof (cases "bl_page l")
  case None
  then have "bl_abs l = Closed" "bl_entries l = []" "\<not> bl_hasCurrentIndex l" using assms(1) by (auto simp: bl_abs_def bl_wf_def split: if_splits)
  then show ?thesis using None assms
    by (auto simp: restoreFromState_def bl_view_def bl_ok_def bl_abs_def bl_wf_def state_ok_def split: option.splits)
next
  case (Some pg)
  obtain its ids' where its: "restore_items new 0 pg (st_items st) ids = (its, ids')" by fastforce
  have len: "length its = length (st_items st)" using restore_items_facts(1) [of new 0 pg "st_items st" ids] by (simp add: its)
  have "bl_abs l \<noteq> Closed" using Some by (simp add: bl_abs_def zip_at_def)
  then show ?thesis using Some assms len
    by (auto simp: restoreFromState_def bl_view_def bl_ok_def bl_abs_def bl_wf_def state_ok_def its hist_restore_def split: option.splits)
qed

lemma bl_call_refines:
  assumes wf: "bl_wf l" and cap: "bl_capacity l = DefaultCapacity" and ok: "bl_op_ok x"
  shows "bl_ok (bl_call x l) \<and> map_option bl_view (bl_call x l) = hist_call x (bl_view l)"
proof (cases x)
  case (AddItem keep i)
  show ?thesis
  proof (cases "i = None \<or> bl_page l = None")
    case True
    then have "addItem keep i l = Some (l, [])" by (auto simp: addItem_def)
    moreover have "hist_add n keep y (bl_abs l) = bl_abs l" if "bl_page l = None" for n y using that by (simp add: bl_abs_def)
    ultimately show ?thesis using AddItem True wf cap by (auto simp: bl_ok_def bl_view_def split: option.splits)
  next
    case False
    then obtain n p where "i = Some n" "bl_page l = Some p" by auto
    moreover obtain l' ev where "addItem keep (Some n) l = Some (l', ev)" "bl_wf l'"
      "bl_abs l' = hist_add (unat (bl_capacity l)) keep n (bl_abs l)" "bl_page l' = bl_page l" "bl_capacity l' = bl_capacity l"
      using addItem_refines [OF wf \<open>bl_page l = Some p\<close>, of keep n] by metis
    ultimately show ?thesis using AddItem cap by (simp add: bl_ok_def bl_view_def)
  qed
next
  case (GoToItem keep i)
  show ?thesis
  proof (cases i)
    case None
    then show ?thesis using GoToItem wf cap by (simp add: goToItem_def bl_ok_def bl_view_def)
  next
    case (Some n)
    obtain l' ev where "goToItem keep (Some n) l = Some (l', ev)" "bl_wf l'" "bl_abs l' = hist_go keep n (bl_abs l)"
      "bl_page l' = bl_page l" "bl_capacity l' = bl_capacity l" using goToItem_refines [OF wf] by metis
    with Some GoToItem cap show ?thesis by (simp add: bl_ok_def bl_view_def)
  qed
next
  case RemoveAllItems
  have "bl_abs l = Closed \<longleftrightarrow> bl_page l = None" by (simp add: bl_abs_def zip_at_def)
  then show ?thesis using RemoveAllItems wf cap by (auto simp: removeAllItems_def bl_ok_def bl_view_def bl_abs_def bl_wf_def)
next
  case Clear
  obtain l' ev where "clear l = Some (l', ev)" "bl_wf l'" "bl_abs l' = hist_clear (bl_abs l)"
    "bl_page l' = bl_page l" "bl_capacity l' = bl_capacity l" using clear_refines [OF wf] by metis
  with Clear cap show ?thesis by (simp add: bl_ok_def bl_view_def)
next
  case PageClosed
  then show ?thesis using wf cap by (simp add: pageClosed_def bl_ok_def bl_view_def bl_abs_def bl_wf_def)
next
  case (RestoreFromState new ids st)
  then show ?thesis using restore_refines [OF wf cap] ok by simp
qed

lemma bl_step_simulates:
  assumes "bl_ok s" "bl_op_ok x"
  shows "bl_ok (bl_step x s) \<and> map_option bl_view (bl_step x s) = hist_step x (map_option bl_view s)"
proof (cases s)
  case (Some l)
  then show ?thesis using bl_call_refines [of l x] assms by (simp add: bl_ok_def bl_step_def hist_step_def)
qed (simp add: bl_ok_def bl_step_def hist_step_def)

interpretation back_forward: simulation bl_ok bl_op_ok "map_option bl_view" bl_step hist_step
  by unfold_locales (rule bl_step_simulates)

text \<open>Only a closed page can crash.\<close>

lemma hist_fold_open:
  assumes "PageClosed \<notin> set ops" "h \<noteq> Closed"
  shows "\<exists>pg' h'. fold hist_step ops (Some (pg, h)) = Some (pg', h') \<and> h' \<noteq> Closed"
  using assms
proof (induction ops arbitrary: pg h)
  case (Cons x ops)
  have "\<exists>pg' h'. hist_step x (Some (pg, h)) = Some (pg', h') \<and> h' \<noteq> Closed"
  proof (cases h)
    case (History b c f)
    then show ?thesis using Cons.prems by (cases x)
      (auto simp: hist_step_def hist_restore_def zip_at_def zip_to_def Let_def split: option.splits)
  qed (use Cons.prems in \<open>cases x; auto simp: hist_step_def hist_restore_def zip_at_def split: option.splits\<close>)+
  then show ?case using Cons by auto
qed auto

lemma create_ok: "bl_ok (Some (createBackForwardList pg))" "bl_view (createBackForwardList pg) = (pg, NoHistory)"
  by (simp_all add: bl_ok_def bl_wf_def createBackForwardList_def DefaultCapacity_def bl_view_def bl_abs_def)

section \<open>Properties\<close>


definition sample_item :: "nat \<Rightarrow> nat item" where
  "sample_item n = \<lparr>address = n, itemState = \<lparr>item_identifier = of_nat n, pageState = n\<rparr>, itemPageID = 1\<rparr>"


lemma those_map_at: "j \<le> length xs \<Longrightarrow> those (map (vector_at xs) [i..<j]) = Some (map ((!) xs) [i..<j])"
proof (induction "j - i" arbitrary: i)
  case (Suc n)
  then have "[i..<j] = i # [Suc i..<j]" by (simp add: upt_conv_Cons)
  with Suc show ?case by (simp add: vector_at_def)
qed simp

lemma sint_small:
  fixes w :: "32 word"
  assumes "unat w < 2 ^ 31"
  shows "sint w = int (unat w)"
proof -
  have "int (unat w) < 2 ^ 31" using assms by (simp only: of_nat_less_numeral_power_cancel_iff)
  then have "uint w < 2 ^ 31" by simp
  moreover have "- (2 ^ 31) \<le> uint w" by (rule order_trans [OF _ unsigned_greater_eq]) simp
  ultimately have "signed_take_bit 31 (uint w) = uint w" by (intro signed_take_bit_int_eq_self)
  then show ?thesis by (simp add: sint_uint)
qed


lemma map_nth_between: "j \<le> length xs \<Longrightarrow> map ((!) xs) [i..<j] = between i j xs"
  by (rule nth_equalityI) (auto simp: nth_between)

lemma counts:
  assumes "bl_wf l" "bl_abs l = History b c f"
  shows "(bl_page l = None) = False" "bl_hasCurrentIndex l" "bl_entries l = b @ c # f" "unat (bl_currentIndex l) = length b"
    "bl_currentIndex l = of_nat (length b)" "backListCount l = int (length b)" "forwardListCount l = int (length f)"
    "length b + length f + 1 < 2 ^ 31"
proof -
  show page: "(bl_page l = None) = False" "bl_hasCurrentIndex l" using assms(2) by (auto simp: bl_abs_def split: if_splits)
  from bl_wf_split [OF assms(1) page(2)] obtain b' c' f' where e: "bl_entries l = b' @ c' # f'" "unat (bl_currentIndex l) = length b'"
    "bl_currentIndex l = of_nat (length b')" "length b' + length f' + 1 \<le> unat (bl_capacity l)" "unat (bl_capacity l) < 2 ^ 31" by metis
  then have "bl_abs l = History b' c' f'" using page by (simp add: bl_abs_def)
  with assms(2) have eq: "b' = b" "c' = c" "f' = f" by simp_all
  show "bl_entries l = b @ c # f" "unat (bl_currentIndex l) = length b" "bl_currentIndex l = of_nat (length b)"
    and len: "length b + length f + 1 < 2 ^ 31" using e eq by simp_all
  then show "backListCount l = int (length b)" using page by (simp add: backListCount_def sint_small)
  have "(of_nat (length b + length f + 1) :: 32 word) - (of_nat (length b) + 1) = of_nat (length f)" by simp
  moreover have "sint (of_nat (length f) :: 32 word) = int (length f)" using len by (simp add: sint_small unat_of_nat)
  ultimately show "forwardListCount l = int (length f)" using page e(1) eq
    by (simp add: forwardListCount_def e(3) add.commute)
qed

lemma vector_at_append [simp]: "vector_at (b @ c # f) (length b) = Some c"
  by (simp add: vector_at_def)

lemma backList_limit:
  assumes "bl_wf l" "bl_abs l = History b c f"
  shows "backListAsAPIArrayWithLimit n l = Some (drop (length b - unat n) b)"
proof -
  note c = counts [OF assms]
  define s where "s = (of_int (backListCount l) :: 32 word)"
  have s: "unat s = length b" using c(6,8) by (simp add: s_def unat_of_nat)
  define m' where "m' = min s n"
  have m: "unat m' = min (length b) (unat n)" using s by (simp add: m'_def min_def word_le_nat_alt)
  have "m' \<le> s" by (simp add: m'_def)
  then have d: "unat (s - m') = length b - unat n" using m s by (simp add: unat_sub min_def)
  have "those (map (vector_at (bl_entries l)) [unat (s - m')..<unat s]) = Some (drop (length b - unat n) b)"
    by (simp add: those_map_at map_nth_between d s c(3) between_def)
  moreover have "drop (length b - unat n) b = []" if "m' = 0" using that m by (auto simp: min_def split: if_splits)
  ultimately show ?thesis using c(1,2) by (auto simp: backListAsAPIArrayWithLimit_def Let_def s_def [symmetric] m'_def [symmetric])
qed

lemma forwardList_limit:
  assumes "bl_wf l" "bl_abs l = History b c f"
  shows "forwardListAsAPIArrayWithLimit n l = Some (take (unat n) f)"
proof -
  note c = counts [OF assms]
  define s where "s = (of_int (forwardListCount l) :: 32 word)"
  have s: "unat s = length f" using c(7,8) by (simp add: s_def unat_of_nat)
  define m' where "m' = min s n"
  have m: "unat m' = min (length f) (unat n)" using s by (simp add: m'_def min_def word_le_nat_alt)
  have u: "unat (bl_currentIndex l + 1) = length b + 1" "unat (bl_currentIndex l + m') = length b + unat m'"
    using c(4,8) m by (simp_all add: unat_word_ariths)
  have "those (map (vector_at (bl_entries l)) [unat (bl_currentIndex l + 1)..<Suc (unat (bl_currentIndex l + m'))]) = Some (take (unat n) f)"
    unfolding u c(3) using m by (subst those_map_at) (simp_all add: map_nth_between between_def min_def del: upt_Suc)
  moreover have "take (unat n) f = []" if "m' = 0" using that m by (auto simp: min_def split: if_splits)
  ultimately show ?thesis using c(1,2) by (auto simp del: upt_Suc simp: forwardListAsAPIArrayWithLimit_def Let_def s_def [symmetric] m'_def [symmetric])
qed

lemma itemAtIndex_eq:
  assumes "bl_wf l" "bl_abs l = History b c f"
  shows "itemAtIndex i l = Some (if - int (length b) \<le> i \<and> i \<le> int (length f) then Some ((b @ c # f) ! nat (int (length b) + i)) else None)"
proof (cases "- int (length b) \<le> i \<and> i \<le> int (length f)")
  case True
  note c = counts [OF assms]
  have "of_int i + bl_currentIndex l = (of_nat (nat (int (length b) + i)) :: 32 word)"
    using True by (simp add: c(5) of_nat_nat add.commute)
  moreover have "nat (int (length b) + i) < length b + length f + 1" using True by linarith
  ultimately have "unat (of_int i + bl_currentIndex l) = nat (int (length b) + i)" "nat (int (length b) + i) < length (bl_entries l)"
    using c(3,8) by (simp_all add: unat_of_nat)
  then show ?thesis using True c by (simp add: itemAtIndex_def vector_at_def)
next
  case False
  then show ?thesis using counts [OF assms] by (auto simp: itemAtIndex_def)
qed

text \<open>
  C26: Every query reads the history: the current, the previous and the next item, the
  counts, the two lists with a limit, and the item at an offset, which is null exactly for
  offsets outside the history although the index is computed in wrapping arithmetic.
\<close>

theorem bf_queries:
  assumes "bl_wf l" "bl_abs l = History b c f"
  shows "currentItem l = Some (Some c) \<and>
    backItem l = Some (if b = [] then None else Some (last b)) \<and>
    forwardItem l = Some (if f = [] then None else Some (hd f)) \<and>
    backListCount l = int (length b) \<and> forwardListCount l = int (length f) \<and>
    backListAsAPIArrayWithLimit n l = Some (drop (length b - unat n) b) \<and>
    forwardListAsAPIArrayWithLimit n l = Some (take (unat n) f) \<and>
    backList l = Some b \<and> forwardList l = Some f \<and>
    itemAtIndex i l = Some (if - int (length b) \<le> i \<and> i \<le> int (length f) then Some ((b @ c # f) ! nat (int (length b) + i)) else None)"
proof -
  note ct = counts [OF assms]
  have cur: "currentItem l = Some (Some c)" using ct(1-4) by (simp add: currentItem_def)
  have bk: "backItem l = Some (if b = [] then None else Some (last b))"
  proof (cases b rule: rev_cases)
    case (snoc bs x)
    have "bl_currentIndex l - 1 = of_nat (length bs)" using ct(5) snoc by simp
    moreover have "bl_currentIndex l \<noteq> 0" using ct(4) snoc by auto
    moreover have "length bs < 2 ^ 31" using ct(8) snoc by simp
    ultimately show ?thesis using ct(1-3) snoc by (simp add: backItem_def unat_of_nat vector_at_def nth_append)
  qed (use ct in \<open>simp add: backItem_def\<close>)
  have fwd: "forwardItem l = Some (if f = [] then None else Some (hd f))"
  proof (cases f)
    case (Cons x fs)
    have "unat (bl_currentIndex l + 1) = length b + 1" using ct(4,8) by (simp add: unat_word_ariths)
    with Cons show ?thesis using ct(1-4) by (simp add: forwardItem_def vector_at_def nth_append)
  qed (use ct in \<open>simp add: forwardItem_def\<close>)
  have "backList l = Some b" "forwardList l = Some f"
    using ct(6-8) backList_limit [OF assms] forwardList_limit [OF assms] by (simp_all add: backList_def forwardList_def unat_of_nat)
  then show ?thesis using cur bk fwd ct(6,7) backList_limit [OF assms] forwardList_limit [OF assms] itemAtIndex_eq [OF assms] by blast
qed

definition sample_list :: "nat bf_list" where
  "sample_list = (createBackForwardList 7)\<lparr>bl_entries := map sample_item [1, 2, 3], bl_hasCurrentIndex := True, bl_currentIndex := 1\<rparr>"

lemma sample_list_facts: "bl_wf sample_list" "bl_abs sample_list = History [sample_item 1] (sample_item 2) [sample_item 3]"
  by (simp_all add: sample_list_def bl_wf_def bl_abs_def zip_at_def createBackForwardList_def DefaultCapacity_def)

theorem bf_queries_witness:
  "itemAtIndex (- 1) sample_list = Some (Some (sample_item 1)) \<and> forwardList sample_list = Some [sample_item 3]"
  using bf_queries [OF sample_list_facts, of 5 "- 1"] by simp

lemma mset_history: "bl_wf l \<Longrightarrow> bl_abs l = History b c f \<Longrightarrow> mset (bl_entries l) = mset (b @ c # f)"
  using counts(3) by metis

lemma addItem_conserves:
  assumes "bl_wf l" "bl_page l = Some p" "bl_wf l'" "bl_abs l' = hist_add (unat (bl_capacity l)) keep n (bl_abs l)"
  shows "mset (bl_entries l) + {#n#} = mset (bl_entries l') + mset (dropped (unat (bl_capacity l)) (bl_abs l))
    + mset (rejected (unat (bl_capacity l)) keep (bl_abs l))"
proof -
  let ?cap = "unat (bl_capacity l)" and ?h = "bl_abs l"
  show ?thesis
  proof (cases ?h)
    case (History b c f)
    have cap: "length b + length f + 1 \<le> ?cap" using counts(3) [OF assms(1) History] assms(1) by (simp add: bl_wf_def)
    have hd: "mset b = {#hd b#} + mset (tl b)" if "b \<noteq> []" using that by (cases b) simp_all
    obtain b' where h': "bl_abs l' = History b' n []" "mset b' + mset (dropped ?cap ?h) + mset (rejected ?cap keep ?h) = mset (b @ c # f)"
    proof -
      consider (one) "?cap = 1" | (full) "?cap \<noteq> 1" "length b + 1 = ?cap" | (room) "?cap \<noteq> 1" "length b + 1 \<noteq> ?cap" by blast
      then show thesis
      proof cases
        case one
        then show thesis using that [of "[]"] cap assms(4) by (simp add: History dropped_def rejected_def)
      next
        case full
        then have "b \<noteq> []" by auto
        with full hd show thesis using that [of "if keep c then tl b @ [c] else tl b"] assms(4) by (simp add: History dropped_def rejected_def Let_def)
      next
        case room
        then show thesis using that [of "if keep c then b @ [c] else b"] assms(4) by (simp add: History dropped_def rejected_def Let_def)
      qed
    qed
    have "mset (bl_entries l') = mset b' + {#n#}" using mset_history [OF assms(3) h'(1)] by simp
    then show ?thesis unfolding mset_history [OF assms(1) History] h'(2) [symmetric] by (simp add: ac_simps)
  next
    case NoHistory
    then have "bl_entries l = []" using assms by (auto simp: bl_abs_def bl_wf_def zip_at_def split: if_splits)
    moreover have "bl_abs l' = History [] n []" using assms(4) NoHistory by simp
    ultimately show ?thesis using mset_history [OF assms(3)] NoHistory by (simp add: dropped_def rejected_def)
  qed (use assms(2) in \<open>simp add: bl_abs_def zip_at_def split: if_splits\<close>)
qed

text \<open>
  C27: No item is lost without the client being told: when an item is added, the items that
  leave the list are exactly those reported as removed, and the items the client did not
  ask to drop are also announced to the web process; going to an item and clearing the list
  report what they remove in the same way.
\<close>

theorem bf_removed_reported:
  assumes "bl_wf l" "bl_page l \<noteq> None"
  shows "(\<exists>l' dropped' rejected'. addItem keep (Some n) l = Some (l',
        map removed_event dropped' @ [DidChangeBackForwardList (Some n) (dropped' @ rejected')]) \<and>
      mset (bl_entries l) + {#n#} = mset (bl_entries l') + mset dropped' + mset rejected' \<and> length rejected' \<le> 1) \<and>
    (\<exists>l' ev. goToItem keep (Some n) l = Some (l', ev) \<and> (ev = [] \<and> l' = l \<or>
      (\<exists>removed. ev = [DidChangeBackForwardList None removed] \<and> mset (bl_entries l) = mset (bl_entries l') + mset removed))) \<and>
    (\<exists>l' ev. clear l = Some (l', ev) \<and> (ev = [] \<and> l' = l \<or>
      (\<exists>ids removed. ev = ids @ [DidChangeBackForwardList None removed] \<and> mset (bl_entries l) = mset (bl_entries l') + mset removed)))"
proof -
  from assms(2) obtain p where p: "bl_page l = Some p" by auto
  let ?cap = "unat (bl_capacity l)" and ?h = "bl_abs l"
  obtain l' where l': "addItem keep (Some n) l = Some (l', map removed_event (dropped ?cap ?h) @
      [DidChangeBackForwardList (Some n) (dropped ?cap ?h @ rejected ?cap keep ?h)])"
    "bl_wf l'" "bl_abs l' = hist_add ?cap keep n ?h" using addItem_refines [OF assms(1) p, of keep n] by metis
  note addItem_conserves [OF assms(1) p l'(2,3)]
  moreover have "length (rejected ?cap keep ?h) \<le> 1" by (simp add: rejected_def split: history.split)
  ultimately have "\<exists>l' dropped' rejected'. addItem keep (Some n) l = Some (l',
        map removed_event dropped' @ [DidChangeBackForwardList (Some n) (dropped' @ rejected')]) \<and>
      mset (bl_entries l) + {#n#} = mset (bl_entries l') + mset dropped' + mset rejected' \<and> length rejected' \<le> 1" using l'(1) by blast
  moreover obtain l2 ev2 where "goToItem keep (Some n) l = Some (l2, ev2)" "ev2 = [] \<and> l2 = l \<or> (\<exists>removed. ev2 = [DidChangeBackForwardList None removed] \<and> mset (bl_entries l) = mset (bl_entries l2) + mset removed)"
    using goToItem_refines [OF assms(1)] by metis
  moreover obtain l3 ev3 where "clear l = Some (l3, ev3)" "ev3 = [] \<and> l3 = l \<or> (\<exists>ids removed. ev3 = ids @ [DidChangeBackForwardList None removed] \<and> mset (bl_entries l) = mset (bl_entries l3) + mset removed)"
    using clear_refines [OF assms(1)] by metis
  ultimately show ?thesis by blast
qed

theorem bf_removed_reported_witness:
  "\<exists>l' ev. goToItem (\<lambda>_. False) (Some (sample_item 3)) sample_list = Some (l', ev) \<and>
     (\<exists>removed. ev = [DidChangeBackForwardList None removed] \<and> mset (bl_entries sample_list) = mset (bl_entries l') + mset removed)"
proof -
  have "goToItem (\<lambda>_. False) (Some (sample_item 3)) sample_list \<noteq> Some (sample_list, [])" by code_simp
  moreover have "bl_page sample_list \<noteq> None" by (simp add: sample_list_def createBackForwardList_def)
  ultimately show ?thesis using bf_removed_reported [OF sample_list_facts(1), of "\<lambda>_. False" "sample_item 3"] by fastforce
qed

lemma state_loop_all: "state_loop None i es st = st\<lparr>st_items := st_items st @ map itemState es\<rparr>"
  by (induction es arbitrary: i st) simp_all

lemma state_loop_accept:
  "\<forall>e\<in>set es. f e \<Longrightarrow> state_loop (Some f) i es st = st\<lparr>st_items := st_items st @ map itemState es\<rparr>"
  by (induction es arbitrary: i st) simp_all

lemma state_loop_append: "state_loop flt i (a @ b) st = state_loop flt (i + length a) b (state_loop flt i a st)"
  by (induction a arbitrary: i st) simp_all

lemma state_loop_behind:
  "st_currentIndex st = Some c \<Longrightarrow> unat c < i \<Longrightarrow>
    state_loop (Some f) i es st = st\<lparr>st_items := st_items st @ map itemState (filter f es)\<rparr>"
proof (induction es arbitrary: i st)
  case (Cons e es)
  then show ?case by (simp split: if_splits)
qed simp

lemma restore_ids:
  "map itemID (fst (restore_items new i pg ss ids)) = map (\<lambda>k. uniqueHistoryItemID ids + 2 * of_nat (Suc k)) [0..<length ss]"
proof (induction ss arbitrary: i ids)
  case (Cons s ss)
  let ?u = "uniqueHistoryItemID ids"
  have up: "[0..<Suc n] = 0 # map Suc [0..<n]" for n by (metis upt_conv_Cons map_Suc_upt zero_less_Suc)
  define ids2 where "ids2 = snd (createItem (new i) (s\<lparr>item_identifier := ?u + 2\<rparr>) pg (ids\<lparr>uniqueHistoryItemID := ?u + 2\<rparr>))"
  have u2: "uniqueHistoryItemID ids2 = ?u + 2" by (simp add: ids2_def createItem_def)
  have "map itemID (fst (restore_items new i pg (s # ss) ids)) = (?u + 2) # map itemID (fst (restore_items new (Suc i) pg ss ids2))"
    by (simp add: generateWebBackForwardItemID_def Let_def ids2_def createItem_def itemID_def split: prod.splits)
  also have "\<dots> = map (\<lambda>k. ?u + 2 * of_nat (Suc k)) [0..<length (s # ss)]"
    unfolding Cons.IH u2 length_Cons up by (simp add: algebra_simps)
  finally show ?case .
qed simp

lemma restore_states:
  "map (pageState \<circ> itemState) (fst (restore_items new i pg ss ids)) = map pageState ss"
  by (rule restore_items_facts)



text \<open>
  A filter that rejects entries behind the current item only is handled correctly. One that
  rejects the current item, or several before it, is not: the index is compared with
  positions of the unfiltered list after it was already moved, and an index of zero wraps.
\<close>

lemma state_filter_behind:
  assumes "bl_wf l" "bl_abs l = History b c g" "\<forall>e\<in>set (b @ [c]). f e"
  shows "backForwardListState (Some f) l = \<lparr>st_items = map itemState (b @ c # filter f g), st_currentIndex = Some (bl_currentIndex l)\<rparr>"
proof -
  note ct = counts [OF assms(1,2)]
  have e: "bl_entries l = (b @ [c]) @ g" using ct(3) by simp
  let ?st = "\<lparr>st_items = map itemState (b @ [c]), st_currentIndex = Some (bl_currentIndex l)\<rparr>"
  have "backForwardListState (Some f) l = state_loop (Some f) (length (b @ [c])) g ?st"
    using assms(3) ct(2) unfolding backForwardListState_def e state_loop_append by (simp add: state_loop_accept)
  also have "\<dots> = ?st\<lparr>st_items := st_items ?st @ map itemState (filter f g)\<rparr>"
    by (rule state_loop_behind [where c = "bl_currentIndex l"]) (use ct(4) in simp_all)
  finally show ?thesis by simp
qed

lemma state_filter_wraps:
  "st_currentIndex (backForwardListState (Some (\<lambda>i. address i \<noteq> 1)) (sample_list\<lparr>bl_currentIndex := 0\<rparr>)) = Some (- 1)"
  by code_simp

lemma state_filter_stale_index:
  "let st = backForwardListState (Some (\<lambda>i. address i = 2)) (sample_list\<lparr>bl_currentIndex := 2\<rparr>) in
    st_currentIndex st = Some 1 \<and> length (st_items st) = 1"
  by code_simp

text \<open>
  Restoring does not apply the capacity, and adding an item tests for equality with it: a
  list restored with more entries than the capacity keeps growing.
\<close>

lemma restored_list_grows:
  "\<exists>l' ev. addItem (\<lambda>_. True) (Some (sample_item 4)) (sample_list\<lparr>bl_capacity := 2, bl_currentIndex := 2\<rparr>) = Some (l', ev) \<and>
     length (bl_entries l') = 4"
proof -
  have "map_option (length \<circ> bl_entries \<circ> fst) (addItem (\<lambda>_. True) (Some (sample_item 4)) (sample_list\<lparr>bl_capacity := 2, bl_currentIndex := 2\<rparr>)) = Some 4"
    by code_simp
  then show ?thesis by auto
qed

end
