(* ===== verification/Back_Forward_Proxy.thy ===== *)
theory Back_Forward_Proxy
  imports Back_Forward_List
begin

text \<open>
  The side of the web process (\<open>WebProcess/WebPage/WebBackForwardListProxy.cpp\<close>): the
  identifiers of history items and the two maps between items and identifiers. The lemmas
  show that the maps stay inverse to each other in every reachable state, and that the two
  processes never give the same identifier to different items.
\<close>

section \<open>State of the web process\<close>

text \<open>A \<open>HistoryItem\<close> is known by its address.\<close>

record item_and_page_id =
  ip_itemID :: "64 word"
  ip_pageID :: "64 word"

record web_process =
  idToHistoryItemMap :: "64 word \<rightharpoonup> nat"
  historyItemToIDMap :: "nat \<rightharpoonup> item_and_page_id"
  wp_uniqueHistoryItemID :: "64 word"

definition web_process_start :: web_process where
  "web_process_start = \<lparr>idToHistoryItemMap = Map.empty, historyItemToIDMap = Map.empty, wp_uniqueHistoryItemID = 1\<rparr>"

text \<open>What the process sends: to the UI process, and to its page cache and pages.\<close>

datatype web_message =
    UpdateBackForwardItem "64 word" "64 word" nat
  | BackForwardAddItem "64 word"
  | BackForwardGoToItem "64 word"
  | BackForwardClear
  | PageCacheRemove "nat option"
  | ClearPreviousItemFromAllPages nat

record bf_proxy =
  px_page :: "64 word option"
  px_associatedItemIDs :: "64 word list"

section \<open>Operations\<close>

definition generateHistoryItemID :: "web_process \<Rightarrow> 64 word \<times> web_process" where
  "generateHistoryItemID w = (let u = wp_uniqueHistoryItemID w + 2 in (u, w\<lparr>wp_uniqueHistoryItemID := u\<rparr>))"

definition setHighestItemIDFromUIProcess :: "64 word \<Rightarrow> web_process \<Rightarrow> web_process" where
  "setHighestItemIDFromUIProcess iid w =
     (if iid \<le> wp_uniqueHistoryItemID w then w
      else if iid mod 2 \<noteq> 0 then w\<lparr>wp_uniqueHistoryItemID := iid\<rparr>
      else w\<lparr>wp_uniqueHistoryItemID := iid + 1\<rparr>)"

definition set_item :: "64 word \<Rightarrow> nat \<Rightarrow> 64 word \<Rightarrow> web_process \<Rightarrow> web_process" where
  "set_item iid item pageID w =
     w\<lparr>historyItemToIDMap := (historyItemToIDMap w)(item \<mapsto> \<lparr>ip_itemID = iid, ip_pageID = pageID\<rparr>),
       idToHistoryItemMap := (idToHistoryItemMap w)(iid \<mapsto> item)\<rparr>"

definition addItemFromUIProcess :: "64 word \<Rightarrow> nat \<Rightarrow> 64 word \<Rightarrow> web_process \<Rightarrow> web_process" where
  "addItemFromUIProcess iid item pageID w = set_item iid item pageID w"

definition itemForID :: "64 word \<Rightarrow> web_process \<Rightarrow> nat option" where
  "itemForID iid w = idToHistoryItemMap w iid"

definition idForItem :: "nat \<Rightarrow> web_process \<Rightarrow> 64 word" where
  "idForItem item w = (case historyItemToIDMap w item of None \<Rightarrow> 0 | Some ids \<Rightarrow> ip_itemID ids)"

definition notifyHistoryItemChanged :: "nat \<Rightarrow> web_process \<Rightarrow> web_message list" where
  "notifyHistoryItemChanged item w =
     (case historyItemToIDMap w item of None \<Rightarrow> []
      | Some ids \<Rightarrow> if ip_itemID ids = 0 then [] else [UpdateBackForwardItem (ip_itemID ids) (ip_pageID ids) item])"

definition proxy_removeItem :: "64 word \<Rightarrow> web_process \<Rightarrow> web_process \<times> web_message list" where
  "proxy_removeItem iid w =
     (case idToHistoryItemMap w iid of
        None \<Rightarrow> (w, [])
      | Some item \<Rightarrow>
          (w\<lparr>idToHistoryItemMap := (idToHistoryItemMap w)(iid := None),
             historyItemToIDMap := (historyItemToIDMap w)(item := None)\<rparr>,
           [PageCacheRemove (Some item), ClearPreviousItemFromAllPages item]))"

definition proxy_addItem :: "nat \<Rightarrow> bf_proxy \<Rightarrow> web_process \<Rightarrow> bf_proxy \<times> web_process \<times> web_message list" where
  "proxy_addItem item px w =
     (case px_page px of
        None \<Rightarrow> (px, w, [])
      | Some pageID \<Rightarrow>
          let (iid, w1) = generateHistoryItemID w in
          (px\<lparr>px_associatedItemIDs := List.insert iid (px_associatedItemIDs px)\<rparr>, set_item iid item pageID w1,
           [UpdateBackForwardItem iid pageID item, BackForwardAddItem iid]))"

definition proxy_goToItem :: "nat \<Rightarrow> bf_proxy \<Rightarrow> web_process \<Rightarrow> web_message list" where
  "proxy_goToItem item px w = (if px_page px = None then [] else [BackForwardGoToItem (idForItem item w)])"

text \<open>The reply of the UI process is \<open>None\<close> when the message could not be sent.\<close>

definition proxy_itemAtIndex :: "(int \<Rightarrow> 64 word option) \<Rightarrow> int \<Rightarrow> bf_proxy \<Rightarrow> web_process \<Rightarrow> nat option" where
  "proxy_itemAtIndex reply itemIndex px w =
     (if px_page px = None then None
      else case reply itemIndex of None \<Rightarrow> None | Some iid \<Rightarrow> if iid = 0 then None else idToHistoryItemMap w iid)"

definition proxy_listCount :: "int option \<Rightarrow> bf_proxy \<Rightarrow> int" where
  "proxy_listCount reply px = (if px_page px = None then 0 else case reply of None \<Rightarrow> 0 | Some n \<Rightarrow> n)"

definition proxy_close :: "bf_proxy \<Rightarrow> web_process \<Rightarrow> bf_proxy \<times> web_message list" where
  "proxy_close px w =
     (\<lparr>px_page = None, px_associatedItemIDs = []\<rparr>, map (\<lambda>i. PageCacheRemove (itemForID i w)) (px_associatedItemIDs px))"

text \<open>\<open>WebPage::restoreSession\<close>; \<open>toHistoryItem\<close> allocates, and \<open>new\<close> numbers the addresses.\<close>

fun restoreSession :: "(nat \<Rightarrow> nat) \<Rightarrow> nat \<Rightarrow> 64 word \<Rightarrow> 'p item_state list \<Rightarrow> web_process \<Rightarrow> web_process" where
  "restoreSession new i pageID [] w = w"
| "restoreSession new i pageID (s # ss) w =
     restoreSession new (Suc i) pageID ss (addItemFromUIProcess (item_identifier s) (new i) pageID w)"

section \<open>Reachable states\<close>

text \<open>
  The conditions are those the code asserts: a new item and its identifier are not in the
  maps. Identifiers from the UI process are even, or were announced before.
\<close>

inductive web_reachable :: "web_process \<Rightarrow> bool" where
  start: "web_reachable web_process_start"
| highest: "web_reachable w \<Longrightarrow> web_reachable (setHighestItemIDFromUIProcess n w)"
| from_ui: "web_reachable w \<Longrightarrow> item \<notin> dom (historyItemToIDMap w) \<Longrightarrow> iid \<notin> dom (idToHistoryItemMap w) \<Longrightarrow>
    even (unat iid) \<or> iid \<le> wp_uniqueHistoryItemID w \<Longrightarrow> web_reachable (addItemFromUIProcess iid item pageID w)"
| remove: "web_reachable w \<Longrightarrow> web_reachable (fst (proxy_removeItem iid w))"
| add: "web_reachable w \<Longrightarrow> item \<notin> dom (historyItemToIDMap w) \<Longrightarrow> unat (wp_uniqueHistoryItemID w) + 2 < 2 ^ 64 \<Longrightarrow>
    web_reachable (fst (snd (proxy_addItem item px w)))"

definition web_inv :: "web_process \<Rightarrow> bool" where
  "web_inv w \<longleftrightarrow>
     (\<forall>i h. idToHistoryItemMap w i = Some h \<longleftrightarrow> (\<exists>p. historyItemToIDMap w h = Some \<lparr>ip_itemID = i, ip_pageID = p\<rparr>)) \<and>
     odd (unat (wp_uniqueHistoryItemID w)) \<and>
     (\<forall>i\<in>dom (idToHistoryItemMap w). even (unat i) \<or> i \<le> wp_uniqueHistoryItemID w)"

lemma web_inv_set:
  assumes "web_inv w" "item \<notin> dom (historyItemToIDMap w)" "iid \<notin> dom (idToHistoryItemMap w)"
    "even (unat iid) \<or> iid \<le> wp_uniqueHistoryItemID w"
  shows "web_inv (set_item iid item pageID w)"
proof -
  have m: "\<And>i h. idToHistoryItemMap w i = Some h \<longleftrightarrow> (\<exists>p. historyItemToIDMap w h = Some \<lparr>ip_itemID = i, ip_pageID = p\<rparr>)"
    using assms(1) by (simp add: web_inv_def)
  have "idToHistoryItemMap (set_item iid item pageID w) i = Some h \<longleftrightarrow>
      (\<exists>p. historyItemToIDMap (set_item iid item pageID w) h = Some \<lparr>ip_itemID = i, ip_pageID = p\<rparr>)" for i h
    using m [of i h] m [of iid h] assms(2,3) by (auto simp: set_item_def dom_def)
  then show ?thesis using assms unfolding web_inv_def by (auto simp: set_item_def)
qed

lemma web_inv_unique:
  assumes "web_inv w" "odd (unat u)" "wp_uniqueHistoryItemID w \<le> u"
  shows "web_inv (w\<lparr>wp_uniqueHistoryItemID := u\<rparr>)"
  using assms order_trans unfolding web_inv_def by fastforce

lemma web_inv_remove:
  assumes "web_inv w"
  shows "web_inv (fst (proxy_removeItem iid w))"
proof (cases "idToHistoryItemMap w iid")
  case (Some item)
  have m: "\<And>i h. idToHistoryItemMap w i = Some h \<longleftrightarrow> (\<exists>p. historyItemToIDMap w h = Some \<lparr>ip_itemID = i, ip_pageID = p\<rparr>)"
    using assms by (simp add: web_inv_def)
  then obtain p where p: "historyItemToIDMap w item = Some \<lparr>ip_itemID = iid, ip_pageID = p\<rparr>" using Some by auto
  let ?w = "w\<lparr>idToHistoryItemMap := (idToHistoryItemMap w)(iid := None), historyItemToIDMap := (historyItemToIDMap w)(item := None)\<rparr>"
  have "idToHistoryItemMap ?w i = Some h \<longleftrightarrow> (\<exists>p. historyItemToIDMap ?w h = Some \<lparr>ip_itemID = i, ip_pageID = p\<rparr>)" for i h
    using m [of i h] m [of iid h] p Some by auto
  moreover have "fst (proxy_removeItem iid w) = ?w" using Some by (simp add: proxy_removeItem_def)
  ultimately show ?thesis using assms unfolding web_inv_def by auto
qed (use assms in \<open>simp add: proxy_removeItem_def\<close>)

lemma even_unat: "even (unat n) \<longleftrightarrow> even (n :: 64 word)"
  by (simp add: even_iff_mod_2_eq_zero word_eq_iff_unsigned [where ?'a = nat] unat_mod)

lemma unat_add_2: "unat (u :: 64 word) + 2 < 2 ^ 64 \<Longrightarrow> unat (u + 2) = unat u + 2"
  by (simp add: unat_word_ariths)

lemma generated_fresh:
  assumes "web_inv w" "unat (wp_uniqueHistoryItemID w) + 2 < 2 ^ 64"
  shows "odd (unat (wp_uniqueHistoryItemID w + 2))" "wp_uniqueHistoryItemID w \<le> wp_uniqueHistoryItemID w + 2"
    "wp_uniqueHistoryItemID w + 2 \<notin> dom (idToHistoryItemMap w)"
proof -
  let ?u = "wp_uniqueHistoryItemID w"
  have u: "unat (?u + 2) = unat ?u + 2" using assms(2) by (rule unat_add_2)
  show o: "odd (unat (?u + 2))" using assms(1) by (simp add: web_inv_def u)
  show "?u \<le> ?u + 2" using u by (simp add: word_le_nat_alt)
  have "\<not> ?u + 2 \<le> ?u" using u by (simp add: word_le_nat_alt)
  with o show "?u + 2 \<notin> dom (idToHistoryItemMap w)" using assms(1) unfolding web_inv_def by blast
qed

lemma web_reachable_inv: "web_reachable w \<Longrightarrow> web_inv w"
proof (induction rule: web_reachable.induct)
  case start
  show ?case by (simp add: web_inv_def web_process_start_def)
next
  case (highest w n)
  consider (low) "n \<le> wp_uniqueHistoryItemID w" | (odd) "wp_uniqueHistoryItemID w \<le> n" "odd n" | (even) "wp_uniqueHistoryItemID w \<le> n" "even n"
    by fastforce
  then show ?case
  proof cases
    case low
    then show ?thesis using highest.IH by (simp add: setHighestItemIDFromUIProcess_def)
  next
    case odd
    then show ?thesis using highest.IH web_inv_unique [OF highest.IH, of n] even_iff_mod_2_eq_zero [of n] by (auto simp: setHighestItemIDFromUIProcess_def even_unat)
  next
    case even
    have "unat n < 2 ^ 64" using unsigned_less [of n, where ?'a = nat] by simp
    moreover have "unat n + 1 \<noteq> 2 ^ 64"
    proof
      assume "unat n + 1 = 2 ^ 64"
      then have "even (unat n + 1)" by simp
      with even(2) show False by (simp add: even_unat)
    qed
    ultimately have "unat n + 1 < 2 ^ 64" by linarith
    then have "unat (n + 1) = unat n + 1" by (simp add: unat_word_ariths)
    then have "n \<le> n + 1" by (simp add: word_le_nat_alt)
    with even highest.IH web_inv_unique [OF highest.IH, of "n + 1"] even_iff_mod_2_eq_zero [of n] show ?thesis
      by (auto simp: setHighestItemIDFromUIProcess_def even_unat)
  qed
next
  case (from_ui w item iid pageID)
  then show ?case by (simp add: addItemFromUIProcess_def web_inv_set)
next
  case (remove w iid)
  then show ?case by (simp add: web_inv_remove)
next
  case (add w item px)
  let ?u = "wp_uniqueHistoryItemID w + 2"
  note g = generated_fresh [OF add.IH add.hyps(3)]
  have "web_inv (w\<lparr>wp_uniqueHistoryItemID := ?u\<rparr>)" by (rule web_inv_unique [OF add.IH g(1,2)])
  then have "web_inv (set_item ?u item p (w\<lparr>wp_uniqueHistoryItemID := ?u\<rparr>))" for p
    by (rule web_inv_set) (use add.hyps(2) g(3) in simp_all)
  then show ?case using add.IH by (simp add: proxy_addItem_def generateHistoryItemID_def Let_def split: option.splits)
qed





lemma restoreSession_maps:
  assumes "inj new" "web_reachable w" "distinct (map item_identifier ss)" "\<forall>s\<in>set ss. even (unat (item_identifier s))"
    "\<forall>s\<in>set ss. itemForID (item_identifier s) w = None" "\<forall>j\<ge>i. new j \<notin> dom (historyItemToIDMap w)"
  shows "web_reachable (restoreSession new i pg ss w) \<and>
    (\<forall>k<length ss. itemForID (item_identifier (ss ! k)) (restoreSession new i pg ss w) = Some (new (i + k))) \<and>
    (\<forall>j. j \<notin> item_identifier ` set ss \<longrightarrow> itemForID j (restoreSession new i pg ss w) = itemForID j w)"
  using assms
proof (induction ss arbitrary: i w)
  case (Cons s ss)
  let ?w = "addItemFromUIProcess (item_identifier s) (new i) pg w"
  have s: "itemForID (item_identifier s) ?w = Some (new i)" "j \<noteq> item_identifier s \<Longrightarrow> itemForID j ?w = itemForID j w" for j
    by (simp_all add: itemForID_def addItemFromUIProcess_def set_item_def)
  have "web_reachable ?w" using Cons.prems by (intro from_ui) (auto simp: itemForID_def)
  moreover have "distinct (map item_identifier ss)" "\<forall>s\<in>set ss. even (unat (item_identifier s))" using Cons.prems by simp_all
  moreover have "\<forall>t\<in>set ss. itemForID (item_identifier t) ?w = None"
  proof
    fix t assume "t \<in> set ss"
    then have "item_identifier t \<in> item_identifier ` set ss" "itemForID (item_identifier t) w = None" using Cons.prems(5) by simp_all
    moreover have "item_identifier s \<notin> item_identifier ` set ss" using Cons.prems(3) by simp
    ultimately have "item_identifier t \<noteq> item_identifier s" "itemForID (item_identifier t) w = None" by metis+
    then show "itemForID (item_identifier t) ?w = None" by (simp add: s(2))
  qed
  moreover have "\<forall>j\<ge>Suc i. new j \<notin> dom (historyItemToIDMap ?w)"
  proof (intro allI impI)
    fix j assume "Suc i \<le> j"
    then have "new j \<noteq> new i" "new j \<notin> dom (historyItemToIDMap w)" using Cons.prems(1,6) by (auto simp: inj_eq)
    then show "new j \<notin> dom (historyItemToIDMap ?w)" by (simp add: addItemFromUIProcess_def set_item_def)
  qed
  ultimately have IH: "web_reachable (restoreSession new (Suc i) pg ss ?w)"
    "\<forall>k<length ss. itemForID (item_identifier (ss ! k)) (restoreSession new (Suc i) pg ss ?w) = Some (new (Suc i + k))"
    "\<forall>j. j \<notin> item_identifier ` set ss \<longrightarrow> itemForID j (restoreSession new (Suc i) pg ss ?w) = itemForID j ?w"
    using Cons.IH [of ?w "Suc i", OF Cons.prems(1)] by blast+
  have "itemForID (item_identifier ((s # ss) ! k)) (restoreSession new i pg (s # ss) w) = Some (new (i + k))" if "k < length (s # ss)" for k
    using that IH(2,3) s(1) Cons.prems(3) by (cases k) auto
  then show ?case using IH s(2) by simp
qed simp

text \<open>
  C29: The two processes agree on a restored session: when the UI process restores a saved
  state and sends its items, the web process finds, under the identifier of every entry of
  the list, the history item it made for that entry.
\<close>

theorem restored_session_agrees:
  assumes "restoreFromState new ids st l = Some (l', ids')" "inj new'" "web_reachable w"
    "even (unat (uniqueHistoryItemID ids))" "unat (uniqueHistoryItemID ids) + 2 * length (st_items st) < 2 ^ 64"
    "\<forall>i. unat (uniqueHistoryItemID ids) < unat i \<longrightarrow> even (unat i) \<longrightarrow> itemForID i w = None"
    "\<forall>j. new' j \<notin> dom (historyItemToIDMap w)" "k < length (bl_entries l')"
  shows "itemForID (itemID (bl_entries l' ! k)) (restoreSession new' 0 pg (itemStates l') w) = Some (new' k)"
proof -
  let ?u = "uniqueHistoryItemID ids" and ?ss = "itemStates l'"
  have its: "bl_entries l' = fst (restore_items new 0 (the (bl_page l)) (st_items st) ids)"
    using assms(1) by (auto simp: restoreFromState_def split: prod.splits if_splits)
  have map_id: "map item_identifier ?ss = map (\<lambda>k. ?u + 2 * of_nat (Suc k)) [0..<length (st_items st)]"
    using restore_ids [of new 0 "the (bl_page l)" "st_items st" ids] by (simp add: its itemStates_def itemID_def [abs_def] comp_def del: of_nat_Suc)
  have u: "unat (?u + 2 * of_nat (Suc k)) = unat ?u + 2 * Suc k" if "k < length (st_items st)" for k
  proof -
    have "unat ?u + 2 * Suc k < 2 ^ 64" using that assms(5) by simp
    moreover have "?u + 2 * of_nat (Suc k) = of_nat (unat ?u + 2 * Suc k)" by simp
    ultimately show ?thesis by (simp only: unat_of_nat) simp
  qed
  have "distinct (map item_identifier ?ss)" unfolding map_id distinct_map
    by (auto intro!: inj_onI dest!: arg_cong [of _ _ unat] simp: u simp del: of_nat_Suc)
  moreover have "even (unat i)" "unat ?u < unat i" if "i \<in> set (map item_identifier ?ss)" for i
    using that assms(4) unfolding map_id by (auto simp: u simp del: of_nat_Suc)
  ultimately have "\<forall>k<length ?ss. itemForID (item_identifier (?ss ! k)) (restoreSession new' 0 pg ?ss w) = Some (new' (0 + k))"
    using assms(2,3,6,7) by (intro restoreSession_maps [THEN conjunct2, THEN conjunct1]) auto
  then show ?thesis using assms(8) by (simp add: itemStates_def itemID_def)
qed


definition sample_restored :: "nat bf_list" where
  "sample_restored = (createBackForwardList 9)\<lparr>bl_hasCurrentIndex := True,
     bl_entries := [\<lparr>address = 0, itemState = \<lparr>item_identifier = 12, pageState = 5\<rparr>, itemPageID = 9\<rparr>]\<rparr>"

theorem restored_session_agrees_witness:
  "itemForID 12 (restoreSession (\<lambda>i. i + 100) 0 9 (itemStates sample_restored) web_process_start) = Some 100"
proof -
  have "restoreFromState (\<lambda>i. i) \<lparr>uniqueHistoryItemID = 10, highestUsedItemID = 10\<rparr>
      \<lparr>st_items = [\<lparr>item_identifier = 1, pageState = 5\<rparr>], st_currentIndex = Some 0\<rparr> (createBackForwardList 9)
    = Some (sample_restored, \<lparr>uniqueHistoryItemID = 12, highestUsedItemID = 12\<rparr>)"
    by (simp add: restoreFromState_def createBackForwardList_def sample_restored_def generateWebBackForwardItemID_def createItem_def)
  from restored_session_agrees [OF this _ start, of "\<lambda>i. i + 100" 0 9] show ?thesis
    by (simp add: sample_restored_def itemID_def itemForID_def web_process_start_def inj_def)
qed

end
