(* ===== verification/Scheme_Registry.thy ===== *)
theory Scheme_Registry
  imports Url_Resolve
begin

text \<open>
  The scheme registry of \<open>WebCore/platform/SchemeRegistry.cpp\<close>: the sets of schemes with
  special treatment, how they are filled, and the queries on them. The sets keep their
  members up to case folding; \<open>case_folding_set\<close> is the contract the registry uses.
\<close>

section \<open>The scheme registry\<close>

text \<open>
  The sets of schemes as they are stored. Most of them fold case; those with built-in
  members are filled when they are found empty.
\<close>

record schemes =
  sr_local :: "wtf_string list"
  sr_displayIsolated :: "wtf_string list"
  sr_secure :: "wtf_string list"
  sr_uniqueOrigins :: "wtf_string list"
  sr_emptyDocument :: "wtf_string list"
  sr_relaxationForbidden :: "wtf_string list"
  sr_displayOnlyIfCanRequest :: "wtf_string list"
  sr_notAllowingJavascript :: "wtf_string list"
  sr_localStoragePrivate :: "wtf_string list"
  sr_databasePrivate :: "wtf_string list"
  sr_CORSEnabled :: "wtf_string list"
  sr_bypassingCSP :: "wtf_string list"

definition no_schemes :: schemes where
  "no_schemes = \<lparr>sr_local = [], sr_displayIsolated = [], sr_secure = [], sr_uniqueOrigins = [], sr_emptyDocument = [],
     sr_relaxationForbidden = [], sr_displayOnlyIfCanRequest = [], sr_notAllowingJavascript = [], sr_localStoragePrivate = [],
     sr_databasePrivate = [], sr_CORSEnabled = [], sr_bypassingCSP = []\<rparr>"

definition or_default :: "wtf_string list \<Rightarrow> wtf_string list \<Rightarrow> wtf_string list" where
  "or_default d s = (if s = [] then d else s)"

definition scheme_contains :: "icu \<Rightarrow> wtf_string \<Rightarrow> wtf_string list \<Rightarrow> bool" where
  "scheme_contains u scheme s = list_ex (equalIgnoringCase u scheme) s"

definition scheme_add :: "icu \<Rightarrow> wtf_string \<Rightarrow> wtf_string list \<Rightarrow> wtf_string list" where
  "scheme_add u scheme s = (if scheme_contains u scheme s then s else s @ [scheme])"

definition scheme_remove :: "icu \<Rightarrow> wtf_string \<Rightarrow> wtf_string list \<Rightarrow> wtf_string list" where
  "scheme_remove u scheme s = filter (\<lambda>x. \<not> equalIgnoringCase u scheme x) s"

text \<open>The test every query starts with.\<close>

definition scheme_query :: "icu \<Rightarrow> wtf_string \<Rightarrow> wtf_string list \<Rightarrow> bool" where
  "scheme_query u scheme s = (if scheme = [] then False else scheme_contains u scheme s)"

definition localURLSchemes :: "schemes \<Rightarrow> wtf_string list" where
  "localURLSchemes r = or_default [lit ''file''] (sr_local r)"

definition secureSchemes :: "schemes \<Rightarrow> wtf_string list" where
  "secureSchemes r = or_default [lit ''https'', lit ''about'', lit ''data''] (sr_secure r)"

definition schemesWithUniqueOrigins :: "schemes \<Rightarrow> wtf_string list" where
  "schemesWithUniqueOrigins r = or_default [lit ''about'', lit ''javascript'', lit ''data''] (sr_uniqueOrigins r)"

definition emptyDocumentSchemes :: "schemes \<Rightarrow> wtf_string list" where
  "emptyDocumentSchemes r = or_default [lit ''about''] (sr_emptyDocument r)"

definition canDisplayOnlyIfCanRequestSchemes :: "schemes \<Rightarrow> wtf_string list" where
  "canDisplayOnlyIfCanRequestSchemes r = or_default [lit ''blob''] (sr_displayOnlyIfCanRequest r)"

definition CORSEnabledSchemes :: "schemes \<Rightarrow> wtf_string list" where
  "CORSEnabledSchemes r = or_default [lit ''http'', lit ''https''] (sr_CORSEnabled r)"

definition registerURLSchemeAsLocal :: "icu \<Rightarrow> wtf_string \<Rightarrow> schemes \<Rightarrow> schemes" where
  "registerURLSchemeAsLocal u scheme r = r\<lparr>sr_local := scheme_add u scheme (localURLSchemes r)\<rparr>"

definition removeURLSchemeRegisteredAsLocal :: "icu \<Rightarrow> wtf_string \<Rightarrow> schemes \<Rightarrow> schemes" where
  "removeURLSchemeRegisteredAsLocal u scheme r =
     (if scheme = lit ''file'' then r else r\<lparr>sr_local := scheme_remove u scheme (localURLSchemes r)\<rparr>)"

definition shouldTreatURLSchemeAsLocal :: "icu \<Rightarrow> schemes \<Rightarrow> wtf_string \<Rightarrow> bool" where
  "shouldTreatURLSchemeAsLocal u r scheme = scheme_query u scheme (localURLSchemes r)"

definition registerURLSchemeAsNoAccess :: "icu \<Rightarrow> wtf_string \<Rightarrow> schemes \<Rightarrow> schemes" where
  "registerURLSchemeAsNoAccess u scheme r = r\<lparr>sr_uniqueOrigins := scheme_add u scheme (schemesWithUniqueOrigins r)\<rparr>"

definition shouldTreatURLSchemeAsNoAccess :: "icu \<Rightarrow> schemes \<Rightarrow> wtf_string \<Rightarrow> bool" where
  "shouldTreatURLSchemeAsNoAccess u r scheme = scheme_query u scheme (schemesWithUniqueOrigins r)"

definition registerURLSchemeAsDisplayIsolated :: "icu \<Rightarrow> wtf_string \<Rightarrow> schemes \<Rightarrow> schemes" where
  "registerURLSchemeAsDisplayIsolated u scheme r = r\<lparr>sr_displayIsolated := scheme_add u scheme (sr_displayIsolated r)\<rparr>"

definition shouldTreatURLSchemeAsDisplayIsolated :: "icu \<Rightarrow> schemes \<Rightarrow> wtf_string \<Rightarrow> bool" where
  "shouldTreatURLSchemeAsDisplayIsolated u r scheme = scheme_query u scheme (sr_displayIsolated r)"

definition registerURLSchemeAsSecure :: "icu \<Rightarrow> wtf_string \<Rightarrow> schemes \<Rightarrow> schemes" where
  "registerURLSchemeAsSecure u scheme r = r\<lparr>sr_secure := scheme_add u scheme (secureSchemes r)\<rparr>"

definition shouldTreatURLSchemeAsSecure :: "icu \<Rightarrow> schemes \<Rightarrow> wtf_string \<Rightarrow> bool" where
  "shouldTreatURLSchemeAsSecure u r scheme = scheme_query u scheme (secureSchemes r)"

definition registerURLSchemeAsEmptyDocument :: "icu \<Rightarrow> wtf_string \<Rightarrow> schemes \<Rightarrow> schemes" where
  "registerURLSchemeAsEmptyDocument u scheme r = r\<lparr>sr_emptyDocument := scheme_add u scheme (emptyDocumentSchemes r)\<rparr>"

definition shouldLoadURLSchemeAsEmptyDocument :: "icu \<Rightarrow> schemes \<Rightarrow> wtf_string \<Rightarrow> bool" where
  "shouldLoadURLSchemeAsEmptyDocument u r scheme = scheme_query u scheme (emptyDocumentSchemes r)"

text \<open>This set does not fold case.\<close>

definition setDomainRelaxationForbiddenForURLScheme :: "bool \<Rightarrow> wtf_string \<Rightarrow> schemes \<Rightarrow> schemes" where
  "setDomainRelaxationForbiddenForURLScheme forbidden scheme r =
     (if scheme = [] then r
      else if forbidden then r\<lparr>sr_relaxationForbidden := List.insert scheme (sr_relaxationForbidden r)\<rparr>
      else r\<lparr>sr_relaxationForbidden := removeAll scheme (sr_relaxationForbidden r)\<rparr>)"

definition isDomainRelaxationForbiddenForURLScheme :: "schemes \<Rightarrow> wtf_string \<Rightarrow> bool" where
  "isDomainRelaxationForbiddenForURLScheme r scheme =
     (if scheme = [] then False else scheme \<in> set (sr_relaxationForbidden r))"

definition canDisplayOnlyIfCanRequest :: "icu \<Rightarrow> schemes \<Rightarrow> wtf_string \<Rightarrow> bool" where
  "canDisplayOnlyIfCanRequest u r scheme = scheme_query u scheme (canDisplayOnlyIfCanRequestSchemes r)"

definition registerAsCanDisplayOnlyIfCanRequest :: "icu \<Rightarrow> wtf_string \<Rightarrow> schemes \<Rightarrow> schemes" where
  "registerAsCanDisplayOnlyIfCanRequest u scheme r =
     r\<lparr>sr_displayOnlyIfCanRequest := scheme_add u scheme (canDisplayOnlyIfCanRequestSchemes r)\<rparr>"

definition registerURLSchemeAsNotAllowingJavascriptURLs :: "icu \<Rightarrow> wtf_string \<Rightarrow> schemes \<Rightarrow> schemes" where
  "registerURLSchemeAsNotAllowingJavascriptURLs u scheme r =
     r\<lparr>sr_notAllowingJavascript := scheme_add u scheme (sr_notAllowingJavascript r)\<rparr>"

definition shouldTreatURLSchemeAsNotAllowingJavascriptURLs :: "icu \<Rightarrow> schemes \<Rightarrow> wtf_string \<Rightarrow> bool" where
  "shouldTreatURLSchemeAsNotAllowingJavascriptURLs u r scheme = scheme_query u scheme (sr_notAllowingJavascript r)"

definition registerURLSchemeAsAllowingLocalStorageAccessInPrivateBrowsing :: "icu \<Rightarrow> wtf_string \<Rightarrow> schemes \<Rightarrow> schemes" where
  "registerURLSchemeAsAllowingLocalStorageAccessInPrivateBrowsing u scheme r =
     r\<lparr>sr_localStoragePrivate := scheme_add u scheme (sr_localStoragePrivate r)\<rparr>"

definition allowsLocalStorageAccessInPrivateBrowsing :: "icu \<Rightarrow> schemes \<Rightarrow> wtf_string \<Rightarrow> bool" where
  "allowsLocalStorageAccessInPrivateBrowsing u r scheme = scheme_query u scheme (sr_localStoragePrivate r)"

definition registerURLSchemeAsAllowingDatabaseAccessInPrivateBrowsing :: "icu \<Rightarrow> wtf_string \<Rightarrow> schemes \<Rightarrow> schemes" where
  "registerURLSchemeAsAllowingDatabaseAccessInPrivateBrowsing u scheme r =
     r\<lparr>sr_databasePrivate := scheme_add u scheme (sr_databasePrivate r)\<rparr>"

definition allowsDatabaseAccessInPrivateBrowsing :: "icu \<Rightarrow> schemes \<Rightarrow> wtf_string \<Rightarrow> bool" where
  "allowsDatabaseAccessInPrivateBrowsing u r scheme = scheme_query u scheme (sr_databasePrivate r)"

definition registerURLSchemeAsCORSEnabled :: "icu \<Rightarrow> wtf_string \<Rightarrow> schemes \<Rightarrow> schemes" where
  "registerURLSchemeAsCORSEnabled u scheme r = r\<lparr>sr_CORSEnabled := scheme_add u scheme (CORSEnabledSchemes r)\<rparr>"

definition shouldTreatURLSchemeAsCORSEnabled :: "icu \<Rightarrow> schemes \<Rightarrow> wtf_string \<Rightarrow> bool" where
  "shouldTreatURLSchemeAsCORSEnabled u r scheme = scheme_query u scheme (CORSEnabledSchemes r)"

definition registerURLSchemeAsBypassingContentSecurityPolicy :: "icu \<Rightarrow> wtf_string \<Rightarrow> schemes \<Rightarrow> schemes" where
  "registerURLSchemeAsBypassingContentSecurityPolicy u scheme r =
     r\<lparr>sr_bypassingCSP := scheme_add u scheme (sr_bypassingCSP r)\<rparr>"

definition removeURLSchemeRegisteredAsBypassingContentSecurityPolicy :: "icu \<Rightarrow> wtf_string \<Rightarrow> schemes \<Rightarrow> schemes" where
  "removeURLSchemeRegisteredAsBypassingContentSecurityPolicy u scheme r =
     r\<lparr>sr_bypassingCSP := scheme_remove u scheme (sr_bypassingCSP r)\<rparr>"

definition schemeShouldBypassContentSecurityPolicy :: "icu \<Rightarrow> schemes \<Rightarrow> wtf_string \<Rightarrow> bool" where
  "schemeShouldBypassContentSecurityPolicy u r scheme = scheme_query u scheme (sr_bypassingCSP r)"

definition shouldCacheResponsesFromURLSchemeIndefinitely :: "icu \<Rightarrow> wtf_string \<Rightarrow> bool" where
  "shouldCacheResponsesFromURLSchemeIndefinitely u scheme = equalIgnoringCase u scheme (lit ''data'')"

section \<open>A set that folds case\<close>

text \<open>
  What the registry promises: after a registration a scheme is found in any spelling, a
  registration removes nothing, and after a removal no spelling of the scheme is found.
\<close>

lemma equalIgnoringCase_sym: "equalIgnoringCase u a b = equalIgnoringCase u b a"
  by (auto simp: equalIgnoringCase_def)

lemma equalIgnoringCase_trans: "equalIgnoringCase u a b \<Longrightarrow> equalIgnoringCase u b c = equalIgnoringCase u a c"
  by (simp add: equalIgnoringCase_def)

lemma contains_equal: "equalIgnoringCase u a b \<Longrightarrow> scheme_contains u a s = scheme_contains u b s"
  by (auto simp: scheme_contains_def list_ex_iff equalIgnoringCase_def)

locale case_folding_set =
  fixes eq :: "'k \<Rightarrow> 'k \<Rightarrow> bool" and found :: "'k \<Rightarrow> 's \<Rightarrow> bool" and put :: "'k \<Rightarrow> 's \<Rightarrow> 's" and drop_key :: "'k \<Rightarrow> 's \<Rightarrow> 's"
  assumes found_put: "found a (put b s) \<longleftrightarrow> eq a b \<or> found a s"
    and found_drop: "found a (drop_key b s) \<longleftrightarrow> \<not> eq a b \<and> found a s"
begin

lemma found_fold_put: "found a (fold put bs s) \<longleftrightarrow> (\<exists>b\<in>set bs. eq a b) \<or> found a s"
  by (induction bs arbitrary: s) (auto simp: found_put)

lemma put_then_drop: "found a (drop_key b (put b s)) \<longleftrightarrow> found a (drop_key b s)"
  by (auto simp: found_put found_drop)

end

interpretation scheme_set: case_folding_set "equalIgnoringCase u" "scheme_contains u" "scheme_add u" "scheme_remove u"
proof
  fix a b s
  show "scheme_contains u a (scheme_add u b s) \<longleftrightarrow> equalIgnoringCase u a b \<or> scheme_contains u a s"
    using contains_equal [of u a b s] by (auto simp: scheme_add_def) (auto simp: scheme_contains_def)
  show "scheme_contains u a (scheme_remove u b s) \<longleftrightarrow> \<not> equalIgnoringCase u a b \<and> scheme_contains u a s"
    by (auto simp: scheme_remove_def scheme_contains_def list_ex_iff equalIgnoringCase_def)
qed

text \<open>
  The protection of the file scheme compares its argument with case, while the set does not:
  an upper-case spelling removes it, if another local scheme is registered.
\<close>

lemma remove_file_in_capitals:
  "\<not> shouldTreatURLSchemeAsLocal ascii_icu
      (removeURLSchemeRegisteredAsLocal ascii_icu (lit ''FILE'') (registerURLSchemeAsLocal ascii_icu (lit ''app'') no_schemes))
      (lit ''file'')"
  by code_simp

end
