(* ===== verification/Security_Origin.thy ===== *)
theory Security_Origin
  imports Scheme_Registry
begin

text \<open>
  Origins and the decisions made with them: \<open>SecurityOrigin.cpp\<close>, \<open>SecurityPolicy.cpp\<close> and
  \<open>OriginAccessEntry.cpp\<close> of \<open>WebCore/page\<close>, with \<open>encodeForFileName\<close> of
  \<open>WebCore/platform/FileSystem.cpp\<close>, the blob URLs of \<open>WebCore/fileapi/BlobURL.cpp\<close> and the
  table of their origins in \<open>ThreadableBlobRegistry.cpp\<close>.
\<close>

section \<open>Origins\<close>

datatype StorageBlockingPolicy = AllowAllStorage | BlockThirdPartyStorage | BlockAllStorage
datatype Policy = AlwaysDeny | AlwaysAllow | Ask
datatype ShouldAllowFromThirdParty = AlwaysAllowFromThirdParty | MaybeAllowFromThirdParty
datatype LocalLoadPolicy = AllowLocalLoadsForAll | AllowLocalLoadsForLocalAndSubstituteData | AllowLocalLoadsForLocalOnly
datatype ReferrerPolicy = ReferrerPolicyAlways | ReferrerPolicyDefault | ReferrerPolicyNever | ReferrerPolicyOrigin
datatype SubdomainSetting = AllowSubdomains | DisallowSubdomains

text \<open>
  An origin is an object, and some decisions ask for the same object: \<open>so_object\<close> is its
  address. The file path is null unless the origin is local.
\<close>

record security_origin =
  so_object :: nat
  so_protocol :: wtf_string
  so_host :: wtf_string
  so_domain :: wtf_string
  so_filePath :: "wtf_string option"
  so_port :: nat
  so_isUnique :: bool
  so_universalAccess :: bool
  so_domainWasSetInDOM :: bool
  so_canLoadLocalResources :: bool
  so_storageBlockingPolicy :: StorageBlockingPolicy
  so_enforceFilePathSeparation :: bool
  so_needsDatabaseIdentifierQuirkForFiles :: bool

record access_entry =
  ae_protocol :: wtf_string
  ae_host :: wtf_string
  ae_subdomainSettings :: SubdomainSetting
  ae_hostIsIPAddress :: bool

text \<open>
  The global state the decisions read: the scheme registry, the origins of blob URLs whose
  own text has none, the white lists by origin and the policy for local loads; with the
  character services, the UTF-8 decoder and the UTF-8 encoder, which are not part of it.
\<close>

record security_env =
  se_icu :: icu
  se_decode :: "wtf_string \<Rightarrow> wtf_string"
  se_encode :: "wtf_string \<Rightarrow> wtf_string"
  se_schemes :: schemes
  se_originMap :: "wtf_string \<rightharpoonup> security_origin"
  se_originAccessMap :: "wtf_string \<rightharpoonup> access_entry list"
  se_localLoadPolicy :: LocalLoadPolicy

definition InvalidPort :: nat where "InvalidPort = 0"
definition MaxAllowedPort :: int where "MaxAllowedPort = 65535"

definition schemeRequiresHost :: "url \<Rightarrow> bool" where
  "schemeRequiresHost url \<longleftrightarrow> m_protocolIsInHTTPFamily url \<or> url_protocolIs url (lit ''ftp'')"

definition shouldUseInnerURL :: "url \<Rightarrow> bool" where
  "shouldUseInnerURL url = (if url_protocolIs url (lit ''blob'') then True else False)"

text \<open>\<open>URL::innerURL()\<close> is always null.\<close>

definition extractInnerURL :: "security_env \<Rightarrow> url \<Rightarrow> url" where
  "extractInnerURL e url = parse (decodeURLEscapeSequences (se_decode e) (path url))"

definition getCachedOrigin :: "security_env \<Rightarrow> url \<Rightarrow> security_origin option" where
  "getCachedOrigin e url = (if url_protocolIs url (lit ''blob'') then se_originMap e (m_string url) else None)"

definition shouldTreatAsUniqueOrigin :: "security_env \<Rightarrow> url \<Rightarrow> bool" where
  "shouldTreatAsUniqueOrigin e url =
     (if \<not> m_isValid url then True
      else let innerURL = (if shouldUseInnerURL url then extractInnerURL e url else url) in
        if schemeRequiresHost innerURL \<and> host innerURL = [] then True
        else let proto = lower (se_icu e) (protocol innerURL) in
          if shouldTreatURLSchemeAsNoAccess (se_icu e) (se_schemes e) proto then True else False)"

definition so_isLocal :: "security_env \<Rightarrow> security_origin \<Rightarrow> bool" where
  "so_isLocal e o1 = shouldTreatURLSchemeAsLocal (se_icu e) (se_schemes e) (so_protocol o1)"

definition SecurityOrigin_url :: "security_env \<Rightarrow> nat \<Rightarrow> url \<Rightarrow> security_origin" where
  "SecurityOrigin_url e new url =
     (let proto = lower (se_icu e) (protocol url);
          h = lower (se_icu e) (host url);
          pt = port (se_icu e) url;
          isLocal = shouldTreatURLSchemeAsLocal (se_icu e) (se_schemes e) proto in
      \<lparr>so_object = new, so_protocol = proto, so_host = h, so_domain = h,
       so_filePath = (if isLocal then Some (path url) else None),
       so_port = (if isDefaultPortForProtocol (se_icu e) pt proto then InvalidPort else pt),
       so_isUnique = False, so_universalAccess = False, so_domainWasSetInDOM = False, so_canLoadLocalResources = isLocal,
       so_storageBlockingPolicy = AllowAllStorage, so_enforceFilePathSeparation = False,
       so_needsDatabaseIdentifierQuirkForFiles = False\<rparr>)"

definition SecurityOrigin_unique :: "nat \<Rightarrow> security_origin" where
  "SecurityOrigin_unique new =
     \<lparr>so_object = new, so_protocol = [], so_host = [], so_domain = [], so_filePath = None, so_port = InvalidPort,
      so_isUnique = True, so_universalAccess = False, so_domainWasSetInDOM = False, so_canLoadLocalResources = False,
      so_storageBlockingPolicy = AllowAllStorage, so_enforceFilePathSeparation = False,
      so_needsDatabaseIdentifierQuirkForFiles = False\<rparr>"

definition so_isolatedCopy :: "nat \<Rightarrow> security_origin \<Rightarrow> security_origin" where
  "so_isolatedCopy new o1 = o1\<lparr>so_object := new\<rparr>"

definition so_isEmpty :: "security_origin \<Rightarrow> bool" where
  "so_isEmpty o1 \<longleftrightarrow> so_protocol o1 = []"

definition create_origin :: "security_env \<Rightarrow> nat \<Rightarrow> url \<Rightarrow> security_origin" where
  "create_origin e new url =
     (case getCachedOrigin e url of
        Some cachedOrigin \<Rightarrow> cachedOrigin
      | None \<Rightarrow>
          if shouldTreatAsUniqueOrigin e url then
            (if url_protocolIs url (lit ''file'')
             then (SecurityOrigin_unique new)\<lparr>so_needsDatabaseIdentifierQuirkForFiles := True\<rparr>
             else SecurityOrigin_unique new)
          else if shouldUseInnerURL url then SecurityOrigin_url e new (extractInnerURL e url)
          else SecurityOrigin_url e new url)"

definition setDomainFromDOM :: "security_env \<Rightarrow> wtf_string \<Rightarrow> security_origin \<Rightarrow> security_origin" where
  "setDomainFromDOM e newDomain o1 = o1\<lparr>so_domainWasSetInDOM := True, so_domain := lower (se_icu e) newDomain\<rparr>"

definition grantLoadLocalResources :: "security_origin \<Rightarrow> security_origin" where
  "grantLoadLocalResources o1 = o1\<lparr>so_canLoadLocalResources := True\<rparr>"

definition grantUniversalAccess :: "security_origin \<Rightarrow> security_origin" where
  "grantUniversalAccess o1 = o1\<lparr>so_universalAccess := True\<rparr>"

definition setStorageBlockingPolicy :: "StorageBlockingPolicy \<Rightarrow> security_origin \<Rightarrow> security_origin" where
  "setStorageBlockingPolicy policy o1 = o1\<lparr>so_storageBlockingPolicy := policy\<rparr>"

definition enforceFilePathSeparation :: "security_origin \<Rightarrow> security_origin" where
  "enforceFilePathSeparation o1 = o1\<lparr>so_enforceFilePathSeparation := True\<rparr>"

definition isSecure :: "security_env \<Rightarrow> url \<Rightarrow> bool" where
  "isSecure e url =
     (if \<not> m_isValid url \<or> shouldTreatURLSchemeAsSecure (se_icu e) (se_schemes e) (protocol url) then True
      else if shouldUseInnerURL url \<and> shouldTreatURLSchemeAsSecure (se_icu e) (se_schemes e) (protocol (extractInnerURL e url))
      then True else False)"

section \<open>Comparing origins\<close>

definition passesFileCheck :: "security_origin \<Rightarrow> security_origin \<Rightarrow> bool" where
  "passesFileCheck o1 other =
     (if \<not> so_enforceFilePathSeparation o1 \<and> \<not> so_enforceFilePathSeparation other then True
      else so_filePath o1 = so_filePath other)"

definition isSameSchemeHostPort :: "security_env \<Rightarrow> security_origin \<Rightarrow> security_origin \<Rightarrow> bool" where
  "isSameSchemeHostPort e o1 other =
     (if so_host o1 \<noteq> so_host other then False
      else if so_protocol o1 \<noteq> so_protocol other then False
      else if so_port o1 \<noteq> so_port other then False
      else if so_isLocal e o1 \<and> \<not> passesFileCheck o1 other then False
      else True)"

definition so_equal :: "security_env \<Rightarrow> security_origin \<Rightarrow> security_origin \<Rightarrow> bool" where
  "so_equal e o1 other =
     (if so_object other = so_object o1 then True
      else if \<not> isSameSchemeHostPort e o1 other then False
      else if so_domainWasSetInDOM o1 \<noteq> so_domainWasSetInDOM other then False
      else if so_domainWasSetInDOM o1 \<and> so_domain o1 \<noteq> so_domain other then False
      else True)"

definition canAccess :: "security_env \<Rightarrow> security_origin \<Rightarrow> security_origin \<Rightarrow> bool" where
  "canAccess e o1 other =
     (if so_universalAccess o1 then True
      else if so_object o1 = so_object other then True
      else if so_isUnique o1 \<or> so_isUnique other then False
      else
        let access =
          (if so_protocol o1 = so_protocol other then
             if \<not> so_domainWasSetInDOM o1 \<and> \<not> so_domainWasSetInDOM other then
               so_host o1 = so_host other \<and> so_port o1 = so_port other
             else if so_domainWasSetInDOM o1 \<and> so_domainWasSetInDOM other then so_domain o1 = so_domain other
             else False
           else False) in
        if access \<and> so_isLocal e o1 then passesFileCheck o1 other else access)"

definition isThirdParty :: "security_env \<Rightarrow> security_origin \<Rightarrow> security_origin \<Rightarrow> bool" where
  "isThirdParty e o1 child =
     (if so_universalAccess child then False
      else if so_object o1 = so_object child then False
      else if so_isUnique o1 \<or> so_isUnique child then True
      else \<not> isSameSchemeHostPort e o1 child)"

definition canReceiveDragData :: "security_env \<Rightarrow> security_origin \<Rightarrow> security_origin \<Rightarrow> bool" where
  "canReceiveDragData e o1 dragInitiator =
     (if so_object o1 = so_object dragInitiator then True else canAccess e o1 dragInitiator)"

definition canAccessStorage ::
    "security_env \<Rightarrow> security_origin \<Rightarrow> security_origin option \<Rightarrow> ShouldAllowFromThirdParty \<Rightarrow> bool" where
  "canAccessStorage e o1 topOrigin shouldAllowFromThirdParty =
     (if so_isUnique o1 then False
      else if so_storageBlockingPolicy o1 = BlockAllStorage then False
      else case topOrigin of
          None \<Rightarrow> True
        | Some topO \<Rightarrow>
            if so_storageBlockingPolicy topO = BlockAllStorage then False
            else if shouldAllowFromThirdParty = AlwaysAllowFromThirdParty then True
            else if (so_storageBlockingPolicy o1 = BlockThirdPartyStorage \<or> so_storageBlockingPolicy topO = BlockThirdPartyStorage)
               \<and> isThirdParty e topO o1 then False
            else True)"

definition canAccessDatabase :: "security_env \<Rightarrow> security_origin \<Rightarrow> security_origin option \<Rightarrow> bool" where
  "canAccessDatabase e o1 topOrigin = canAccessStorage e o1 topOrigin MaybeAllowFromThirdParty"

definition canAccessSessionStorage :: "security_env \<Rightarrow> security_origin \<Rightarrow> security_origin option \<Rightarrow> bool" where
  "canAccessSessionStorage e o1 topOrigin = canAccessStorage e o1 topOrigin AlwaysAllowFromThirdParty"

definition canAccessCookies :: "security_origin \<Rightarrow> bool" where
  "canAccessCookies o1 \<longleftrightarrow> \<not> so_isUnique o1"

definition canShowNotifications :: "security_origin \<Rightarrow> Policy" where
  "canShowNotifications o1 =
     (if so_universalAccess o1 then AlwaysAllow else if so_isUnique o1 then AlwaysDeny else Ask)"

section \<open>Serialisation\<close>

definition toRawString :: "security_origin \<Rightarrow> wtf_string" where
  "toRawString o1 =
     (if so_protocol o1 = lit ''file'' then lit ''file://''
      else so_protocol o1 @ lit ''://'' @ so_host o1
        @ (if so_port o1 \<noteq> 0 then ch CHR '':'' # numberToString (so_port o1) else []))"

definition so_toString :: "security_origin \<Rightarrow> wtf_string" where
  "so_toString o1 =
     (if so_isUnique o1 then lit ''null''
      else if so_protocol o1 = lit ''file'' \<and> so_enforceFilePathSeparation o1 then lit ''null''
      else toRawString o1)"

text \<open>\<open>URL(URL(), s)\<close>: resolved on the null URL, with the UTF-8 encoding.\<close>

definition url_from_string :: "security_env \<Rightarrow> wtf_string \<Rightarrow> url" where
  "url_from_string e s =
     url_init (se_icu e) (se_encode e) (invalid_url []) s \<lparr>enc_isUTF8 = True, enc_isValid = True, enc_encode = se_encode e\<rparr>"

definition createFromString :: "security_env \<Rightarrow> nat \<Rightarrow> wtf_string \<Rightarrow> security_origin" where
  "createFromString e new originString = create_origin e new (url_from_string e originString)"

definition separatorCharacter :: code_unit where "separatorCharacter = ch CHR ''_''"

definition needsEscaping :: "bool list" where
  "needsEscaping =
     map (\<lambda>c. c < 0x20 \<or> c \<in> {0x20, 0x22, 0x25, 0x2A, 0x2F, 0x3A, 0x3C, 0x3E, 0x3F, 0x5C, 0x7C, 0x7F}) [0..<128]"

definition shouldEscapeUChar :: "code_unit \<Rightarrow> bool" where
  "shouldEscapeUChar c = (if c > 127 then False else needsEscaping ! c)"

definition encodeForFileName :: "wtf_string \<Rightarrow> wtf_string" where
  "encodeForFileName s =
     concat (map (\<lambda>c. if shouldEscapeUChar c then ch CHR ''%'' # placeByteAsHex c else [c]) s)"

definition databaseIdentifier :: "security_origin \<Rightarrow> wtf_string" where
  "databaseIdentifier o1 =
     (if so_needsDatabaseIdentifierQuirkForFiles o1 then lit ''file__0''
      else so_protocol o1 @ [separatorCharacter] @ encodeForFileName (so_host o1) @ [separatorCharacter] @ numberToString (so_port o1))"

definition maybeCreateFromDatabaseIdentifier :: "security_env \<Rightarrow> nat \<Rightarrow> wtf_string \<Rightarrow> security_origin option" where
  "maybeCreateFromDatabaseIdentifier e new s =
     (case find_char separatorCharacter s 0 of None \<Rightarrow> None
      | Some separator1 \<Rightarrow>
        case reverseFind separatorCharacter s (length s) of None \<Rightarrow> None
        | Some separator2 \<Rightarrow>
          if separator1 = separator2 then None
          else
            let parsed = charactersToInt (se_icu e) (right s (length s - separator2 - 1));
                pt = (case parsed of None \<Rightarrow> 0 | Some n \<Rightarrow> n);
                portAbsent = (separator2 = length s - 1) in
            if \<not> (parsed \<noteq> None \<or> portAbsent) then None
            else if pt < 0 \<or> pt > MaxAllowedPort then None
            else
              let proto = substring s 0 separator1;
                  h = decodeURLEscapeSequences (se_decode e) (substring s (separator1 + 1) (separator2 - separator1 - 1)) in
              Some (create_origin e new
                (url_from_string e (proto @ lit ''://'' @ h @ lit '':'' @ numberToString (nat pt) @ lit ''/''))))"

definition createFromDatabaseIdentifier :: "security_env \<Rightarrow> nat \<Rightarrow> wtf_string \<Rightarrow> security_origin" where
  "createFromDatabaseIdentifier e new s =
     (case maybeCreateFromDatabaseIdentifier e new s of Some o1 \<Rightarrow> o1 | None \<Rightarrow> create_origin e new (invalid_url []))"

text \<open>The host is decoded, but the undecoded one is used.\<close>

definition create_origin_parts :: "security_env \<Rightarrow> nat \<Rightarrow> wtf_string \<Rightarrow> wtf_string \<Rightarrow> int \<Rightarrow> security_origin" where
  "create_origin_parts e new proto h pt =
     (if pt < 0 \<or> pt > MaxAllowedPort then SecurityOrigin_unique new
      else create_origin e new (url_from_string e (proto @ lit ''://'' @ h @ lit '':'' @ numberToString (nat pt) @ lit ''/'')))"

section \<open>White lists and policies\<close>

definition OriginAccessEntry :: "security_env \<Rightarrow> wtf_string \<Rightarrow> wtf_string \<Rightarrow> SubdomainSetting \<Rightarrow> access_entry" where
  "OriginAccessEntry e proto h subdomainSetting =
     (let h' = lower (se_icu e) h in
      \<lparr>ae_protocol = lower (se_icu e) proto, ae_host = h', ae_subdomainSettings = subdomainSetting,
       ae_hostIsIPAddress = (h' \<noteq> [] \<and> isASCIIDigit (at h' (length h' - 1)))\<rparr>)"

definition endsWith :: "wtf_string \<Rightarrow> wtf_string \<Rightarrow> bool" where
  "endsWith s suffix \<longleftrightarrow> length suffix \<le> length s \<and> drop (length s - length suffix) s = suffix"

definition matchesOrigin :: "access_entry \<Rightarrow> security_origin \<Rightarrow> bool" where
  "matchesOrigin a o1 =
     (if ae_protocol a \<noteq> so_protocol o1 then False
      else if ae_subdomainSettings a = AllowSubdomains \<and> ae_host a = [] then True
      else if ae_host a = so_host o1 then True
      else if ae_subdomainSettings a = DisallowSubdomains then False
      else if ae_hostIsIPAddress a then False
      else if length (so_host o1) > length (ae_host a)
         \<and> at (so_host o1) (length (so_host o1) - length (ae_host a) - 1) = ch CHR ''.''
         \<and> endsWith (so_host o1) (ae_host a) then True
      else False)"

definition entry_equal :: "icu \<Rightarrow> access_entry \<Rightarrow> access_entry \<Rightarrow> bool" where
  "entry_equal u a b \<longleftrightarrow> equalIgnoringCase u (ae_protocol a) (ae_protocol b) \<and> equalIgnoringCase u (ae_host a) (ae_host b)
     \<and> ae_subdomainSettings a = ae_subdomainSettings b"

definition isAccessWhiteListed :: "security_env \<Rightarrow> security_origin \<Rightarrow> security_origin \<Rightarrow> bool" where
  "isAccessWhiteListed e activeOrigin targetOrigin =
     (case se_originAccessMap e (so_toString activeOrigin) of
        Some list \<Rightarrow> list_ex (\<lambda>a. matchesOrigin a targetOrigin) list
      | None \<Rightarrow> False)"

definition isAccessToURLWhiteListed :: "security_env \<Rightarrow> nat \<Rightarrow> security_origin \<Rightarrow> url \<Rightarrow> bool" where
  "isAccessToURLWhiteListed e new activeOrigin url = isAccessWhiteListed e activeOrigin (create_origin e new url)"

definition subdomain_setting :: "bool \<Rightarrow> SubdomainSetting" where
  "subdomain_setting allowDestinationSubdomains = (if allowDestinationSubdomains then AllowSubdomains else DisallowSubdomains)"

definition addOriginAccessWhitelistEntry ::
    "security_origin \<Rightarrow> wtf_string \<Rightarrow> wtf_string \<Rightarrow> bool \<Rightarrow> security_env \<Rightarrow> security_env" where
  "addOriginAccessWhitelistEntry sourceOrigin destinationProtocol destinationDomain allowDestinationSubdomains e =
     (if so_isUnique sourceOrigin then e
      else
        let sourceString = so_toString sourceOrigin;
            list = (case se_originAccessMap e sourceString of None \<Rightarrow> [] | Some list \<Rightarrow> list);
            entry = OriginAccessEntry e destinationProtocol destinationDomain (subdomain_setting allowDestinationSubdomains) in
        e\<lparr>se_originAccessMap := (se_originAccessMap e)(sourceString \<mapsto> list @ [entry])\<rparr>)"

fun remove_first :: "('a \<Rightarrow> bool) \<Rightarrow> 'a list \<Rightarrow> 'a list" where
  "remove_first p [] = []"
| "remove_first p (x # xs) = (if p x then xs else x # remove_first p xs)"

definition removeOriginAccessWhitelistEntry ::
    "security_origin \<Rightarrow> wtf_string \<Rightarrow> wtf_string \<Rightarrow> bool \<Rightarrow> security_env \<Rightarrow> security_env" where
  "removeOriginAccessWhitelistEntry sourceOrigin destinationProtocol destinationDomain allowDestinationSubdomains e =
     (if so_isUnique sourceOrigin then e
      else
        let sourceString = so_toString sourceOrigin;
            entry = OriginAccessEntry e destinationProtocol destinationDomain (subdomain_setting allowDestinationSubdomains) in
        case se_originAccessMap e sourceString of
          None \<Rightarrow> e
        | Some list \<Rightarrow>
            if \<not> list_ex (\<lambda>a. entry_equal (se_icu e) a entry) list then e
            else
              let list' = remove_first (\<lambda>a. entry_equal (se_icu e) a entry) list in
              e\<lparr>se_originAccessMap := (se_originAccessMap e)(sourceString := (if list' = [] then None else Some list'))\<rparr>)"

definition resetOriginAccessWhitelists :: "security_env \<Rightarrow> security_env" where
  "resetOriginAccessWhitelists e = e\<lparr>se_originAccessMap := Map.empty\<rparr>"

definition setLocalLoadPolicy :: "LocalLoadPolicy \<Rightarrow> security_env \<Rightarrow> security_env" where
  "setLocalLoadPolicy policy e = e\<lparr>se_localLoadPolicy := policy\<rparr>"

definition restrictAccessToLocal :: "security_env \<Rightarrow> bool" where
  "restrictAccessToLocal e \<longleftrightarrow> se_localLoadPolicy e \<noteq> AllowLocalLoadsForAll"

definition allowSubstituteDataAccessToLocal :: "security_env \<Rightarrow> bool" where
  "allowSubstituteDataAccessToLocal e \<longleftrightarrow> se_localLoadPolicy e \<noteq> AllowLocalLoadsForLocalOnly"

definition shouldHideReferrer :: "url \<Rightarrow> wtf_string \<Rightarrow> bool" where
  "shouldHideReferrer url referrer =
     (let referrerIsSecureURL = protocolIs referrer (lit ''https'');
          referrerIsWebURL = (referrerIsSecureURL \<or> protocolIs referrer (lit ''http'')) in
      if \<not> referrerIsWebURL then True
      else if \<not> referrerIsSecureURL then False
      else \<not> url_protocolIs url (lit ''https''))"

text \<open>\<^const>\<open>None\<close> is the null string.\<close>

definition generateReferrerHeader :: "security_env \<Rightarrow> nat \<Rightarrow> ReferrerPolicy \<Rightarrow> url \<Rightarrow> wtf_string \<Rightarrow> wtf_string option" where
  "generateReferrerHeader e new referrerPolicy url referrer =
     (if referrer = [] then None
      else if \<not> protocolIsInHTTPFamily referrer then None
      else case referrerPolicy of
          ReferrerPolicyNever \<Rightarrow> None
        | ReferrerPolicyAlways \<Rightarrow> Some referrer
        | ReferrerPolicyOrigin \<Rightarrow>
            (let origin = so_toString (createFromString e new referrer) in
             if origin = lit ''null'' then None else Some (origin @ lit ''/''))
        | ReferrerPolicyDefault \<Rightarrow> if shouldHideReferrer url referrer then None else Some referrer)"

section \<open>Requests\<close>

definition canRequest :: "security_env \<Rightarrow> nat \<Rightarrow> security_origin \<Rightarrow> url \<Rightarrow> bool" where
  "canRequest e new o1 url =
     (if so_universalAccess o1 then True
      else if map_option so_object (getCachedOrigin e url) = Some (so_object o1) then True
      else if so_isUnique o1 then False
      else
        let targetOrigin = create_origin e new url in
        if so_isUnique targetOrigin then False
        else if isSameSchemeHostPort e o1 targetOrigin then True
        else if isAccessWhiteListed e o1 targetOrigin then True
        else False)"

definition taintsCanvas :: "security_env \<Rightarrow> nat \<Rightarrow> security_origin \<Rightarrow> url \<Rightarrow> bool" where
  "taintsCanvas e new o1 url =
     (if canRequest e new o1 url then False else if url_protocolIs url (lit ''data'') then False else True)"

definition isFeedWithNestedProtocolInHTTPFamily :: "icu \<Rightarrow> url \<Rightarrow> bool" where
  "isFeedWithNestedProtocolInHTTPFamily u url =
     (if \<not> startsWithIgnoringCase u (m_string url) (lit ''feed'') then False
      else list_ex (startsWithIgnoringCase u (m_string url))
        [lit ''feed://'', lit ''feed:http:'', lit ''feed:https:'', lit ''feeds:http:'', lit ''feeds:https:'',
         lit ''feedsearch:http:'', lit ''feedsearch:https:''])"

definition canDisplay :: "security_env \<Rightarrow> nat \<Rightarrow> security_origin \<Rightarrow> url \<Rightarrow> bool" where
  "canDisplay e new o1 url =
     (if so_universalAccess o1 then True
      else
        let proto = lower (se_icu e) (protocol url) in
        if isFeedWithNestedProtocolInHTTPFamily (se_icu e) url then True
        else if canDisplayOnlyIfCanRequest (se_icu e) (se_schemes e) proto then canRequest e new o1 url
        else if shouldTreatURLSchemeAsDisplayIsolated (se_icu e) (se_schemes e) proto
        then so_protocol o1 = proto \<or> isAccessToURLWhiteListed e new o1 url
        else if restrictAccessToLocal e \<and> shouldTreatURLSchemeAsLocal (se_icu e) (se_schemes e) proto
        then so_canLoadLocalResources o1 \<or> isAccessToURLWhiteListed e new o1 url
        else True)"

section \<open>Origins of blob URLs\<close>

text \<open>
  The length is an unsigned difference: without a slash in the path it wraps around, and the
  whole path is the origin.
\<close>

definition BlobURL_getOrigin :: "url \<Rightarrow> wtf_string" where
  "BlobURL_getOrigin url =
     (let startIndex = m_portEnd url; endIndex = m_pathAfterLastSlash url in
      substring (m_string url) startIndex ((2 ^ 32 + endIndex - startIndex - 1) mod 2 ^ 32))"

definition BlobURL_getIdentifier :: "url \<Rightarrow> wtf_string" where
  "BlobURL_getIdentifier url = substring_from (m_string url) (m_pathAfterLastSlash url)"

text \<open>\<open>createCanonicalUUIDString\<close> gives \<open>uuid\<close>.\<close>

definition createBlobURL :: "wtf_string \<Rightarrow> bool \<Rightarrow> wtf_string \<Rightarrow> url" where
  "createBlobURL uuid is8Bit originString =
     parse (lit ''blob:'' @ encodeWithURLEscapeSequences is8Bit originString @ lit ''/'' @ uuid)"

definition createPublicURL :: "wtf_string \<Rightarrow> bool \<Rightarrow> security_origin \<Rightarrow> url" where
  "createPublicURL uuid is8Bit o1 = createBlobURL uuid is8Bit (so_toString o1)"

definition createInternalURL :: "wtf_string \<Rightarrow> url" where
  "createInternalURL uuid = createBlobURL uuid True (lit ''blobinternal://'')"

text \<open>The part of \<open>registerBlobURL\<close> and \<open>unregisterBlobURL\<close> that keeps the origins.\<close>

definition registerBlobURL_origin :: "security_origin option \<Rightarrow> url \<Rightarrow> security_env \<Rightarrow> security_env" where
  "registerBlobURL_origin origin url e =
     (if origin \<noteq> None \<and> BlobURL_getOrigin url = lit ''null'' \<and> se_originMap e (m_string url) = None
      then e\<lparr>se_originMap := (se_originMap e)(m_string url := origin)\<rparr> else e)"

definition unregisterBlobURL_origin :: "url \<Rightarrow> security_env \<Rightarrow> security_env" where
  "unregisterBlobURL_origin url e =
     (if BlobURL_getOrigin url = lit ''null'' then e\<lparr>se_originMap := (se_originMap e)(m_string url := None)\<rparr> else e)"

end
