(* ===== verification/Same_Origin.thy ===== *)
theory Same_Origin
  imports Security_Origin
begin

text \<open>
  What the decisions amount to: the origin of a canonical URL, its string and its database
  identifier and how they are read back, the same-origin policy, the white lists, and the
  origin of a public blob URL. The last section has the places where the code differs from
  its comments.
\<close>

section \<open>Origins of URLs with a host\<close>

text \<open>Port 0 stands for no port.\<close>

definition port_text :: "nat \<Rightarrow> wtf_string" where
  "port_text n = (if n = 0 then [] else numberToString n)"

definition port_reads :: "wtf_string \<Rightarrow> nat \<Rightarrow> bool" where
  "port_reads t n \<longleftrightarrow> (t = [] \<and> n = 0 \<or> t = numberToString n) \<and> n \<le> 65535"

lemma port_reads_text: "n \<le> 65535 \<Longrightarrow> port_reads (port_text n) n"
  by (simp add: port_reads_def port_text_def)

definition origin_port :: "security_env \<Rightarrow> wtf_string \<Rightarrow> nat \<Rightarrow> nat" where
  "origin_port e scheme n = (if isDefaultPortForProtocol (se_icu e) n scheme then 0 else n)"

definition tuple_scheme :: "security_env \<Rightarrow> wtf_string \<Rightarrow> bool" where
  "tuple_scheme e scheme \<longleftrightarrow> scheme \<noteq> lit ''blob'' \<and> \<not> shouldTreatURLSchemeAsNoAccess (se_icu e) (se_schemes e) scheme"

definition tuple_origin :: "security_env \<Rightarrow> nat \<Rightarrow> wtf_string \<Rightarrow> wtf_string \<Rightarrow> nat \<Rightarrow> wtf_string \<Rightarrow> security_origin" where
  "tuple_origin e new scheme h pt filePath =
     \<lparr>so_object = new, so_protocol = scheme, so_host = h, so_domain = h,
      so_filePath = (if shouldTreatURLSchemeAsLocal (se_icu e) (se_schemes e) scheme then Some filePath else None),
      so_port = pt, so_isUnique = False, so_universalAccess = False, so_domainWasSetInDOM = False,
      so_canLoadLocalResources = shouldTreatURLSchemeAsLocal (se_icu e) (se_schemes e) scheme,
      so_storageBlockingPolicy = AllowAllStorage, so_enforceFilePathSeparation = False,
      so_needsDatabaseIdentifierQuirkForFiles = False\<rparr>"

lemma origin_port_idem [simp]: "origin_port e scheme (origin_port e scheme n) = origin_port e scheme n"
  by (simp add: origin_port_def)

lemma origin_port_le: "port_reads t n \<Longrightarrow> origin_port e scheme n \<le> 65535"
  by (simp add: origin_port_def port_reads_def)

lemma tuple_origin_select [simp]:
  "so_object (tuple_origin e new s h n f) = new" "so_protocol (tuple_origin e new s h n f) = s"
  "so_host (tuple_origin e new s h n f) = h" "so_port (tuple_origin e new s h n f) = n"
  "\<not> so_isUnique (tuple_origin e new s h n f)" "\<not> so_universalAccess (tuple_origin e new s h n f)"
  "\<not> so_domainWasSetInDOM (tuple_origin e new s h n f)" "\<not> so_enforceFilePathSeparation (tuple_origin e new s h n f)"
  "\<not> so_needsDatabaseIdentifierQuirkForFiles (tuple_origin e new s h n f)"
  "so_isLocal e (tuple_origin e new s h n f) = shouldTreatURLSchemeAsLocal (se_icu e) (se_schemes e) s"
  by (simp_all add: tuple_origin_def so_isLocal_def)

lemma lower_id:
  assumes "list_all (\<lambda>c. c \<le> 127 \<and> \<not> isASCIIUpper c) s"
  shows "lower u s = s"
proof -
  have "containsOnlyASCII s" using assms by (auto simp: containsOnlyASCII_def isASCII_def list_all_iff)
  moreover have "map toASCIILower s = s" using assms by (auto simp: list_all_iff intro: map_idI)
  ultimately show ?thesis by (simp add: lower_def)
qed

lemma lower_scheme: "list_all (\<lambda>c. isSchemeChar c \<and> \<not> isASCIIUpper c) s \<Longrightarrow> lower u s = s"
  by (rule lower_id) (auto simp: list_all_iff char_class alpha_def digit_def)

lemma lower_host: "list_all (\<lambda>c. isHostnameChar c \<and> \<not> isASCIIUpper c) s \<Longrightarrow> lower u s = s"
  by (rule lower_id) (auto simp: list_all_iff char_class alpha_def digit_def)

lemma charactersToUIntStrict_number: "n \<le> 65535 \<Longrightarrow> charactersToUIntStrict u (numberToString n) = Some n"
  by (simp add: charactersToUIntStrict_def toIntegralType_numberToString)

lemma port_write_url:
  assumes "at_port au = (if t = [] then [] else 58 # t)" "port_reads t n"
  shows "port u (write_url h orig scheme au p q f) = n"
proof -
  define pre where "pre = scheme @ [58] @ at_prefix au @ at_user au @ at_password au @ at_sign au @ at_host au"
  define w where "w = write_url h orig scheme au p q f"
  have e: "m_hostEnd w = length pre" "m_portEnd w = length pre + length (at_port au)"
    "m_string w = pre @ at_port au @ p @ q @ f"
    by (simp_all add: w_def pre_def m_string_write_url) (simp_all add: write_url_ends)
  show ?thesis
  proof (cases "t = []")
    case True
    then have "n = 0" using assms(2) numberToString_nonempty [of n] by (auto simp: port_reads_def dest: sym)
    then show ?thesis unfolding w_def [symmetric] by (simp add: port_def e assms(1) True)
  next
    case False
    then have t: "t = numberToString n" "n \<le> 65535" using assms(2) by (auto simp: port_reads_def)
    have "between (length pre + 1) (length pre + 1 + length (numberToString n)) ((pre @ [58]) @ numberToString n @ p @ q @ f)
        = numberToString n"
      by (rule between_at_length [of _ "pre @ [58]"]) simp_all
    then have "between (m_hostEnd w + 1) (m_portEnd w) (m_string w) = numberToString n"
      by (simp add: e assms(1) t)
    moreover have "m_portEnd w \<noteq> m_hostEnd w" "m_portEnd w - 1 \<noteq> m_hostEnd w"
      by (simp_all add: e assms(1) t)
    ultimately show ?thesis unfolding w_def [symmetric]
      using t(2) by (simp add: port_def charactersToUIntStrict_number maximumValidPortNumber_def invalidPortNumber_def)
  qed
qed

lemma url_protocolIs_write:
  assumes "list_all (\<lambda>c. isSchemeChar c \<and> \<not> isASCIIUpper c) scheme" "list_all (\<lambda>c. c \<noteq> 0) proto"
  shows "url_protocolIs (write_url h orig scheme au p q f) proto \<longleftrightarrow> scheme = proto"
  using assms scheme_loop_eq [of scheme proto "[]"]
  by (simp add: url_protocolIs_def m_string_write_url) (simp add: write_url_ends)

lemma create_origin_readable:
  assumes p: "readable_parts p" and t: "tuple_scheme e (p_scheme p)"
    and n: "port_reads (p_port p) n"
  shows "create_origin e new (parse_chars (print_url p) orig)
    = tuple_origin e new (p_scheme p) (p_host p) (origin_port e (p_scheme p) n) (read_path p)"
proof -
  define w where "w = parse_chars (print_url p) orig"
  have w: "w = write_url (p_scheme p \<in> {lit ''http'', lit ''https''}) orig (p_scheme p) (parts_text p)
      (read_path p) (p_query p) (p_fragment p)"
    unfolding w_def by (rule parse_print_readable [OF p])
  have sc: "list_all (\<lambda>c. isSchemeChar c \<and> \<not> isASCIIUpper c) (p_scheme p)"
    and ho: "list_all (\<lambda>c. isHostnameChar c \<and> \<not> isASCIIUpper c) (p_host p)" "p_host p \<noteq> []"
    using p by (simp_all add: readable_parts_def)
  have "host w = p_host p" unfolding w by (subst host_write_url) (simp_all add: parts_text_def)
  moreover have "protocol w = p_scheme p" "path w = read_path p" unfolding w by simp_all
  moreover have "m_isValid w" unfolding w by (simp add: write_url_ends)
  moreover have "port (se_icu e) w = n"
    unfolding w by (rule port_write_url [of _ "p_port p"]) (simp_all add: parts_text_def print_port_def n)
  moreover have "(url_protocolIs w (lit ''blob'')) = False"
    unfolding w using t by (subst url_protocolIs_write [OF sc]) (simp_all add: tuple_scheme_def lit_def)
  ultimately show ?thesis
    unfolding w_def [symmetric] using t ho sc
    by (simp add: create_origin_def getCachedOrigin_def shouldTreatAsUniqueOrigin_def shouldUseInnerURL_def tuple_scheme_def
        SecurityOrigin_url_def tuple_origin_def lower_scheme lower_host origin_port_def InvalidPort_def Let_def)
qed

lemma create_origin_print:
  assumes "canonical_parts p" "tuple_scheme e (p_scheme p)" "port_reads (p_port p) n"
  shows "create_origin e new (parse (print_url p))
    = tuple_origin e new (p_scheme p) (p_host p) (origin_port e (p_scheme p) n) (p_path p)"
proof -
  have "copyASCII (print_url p) = print_url p"
    using bytes_print_url [OF assms(1)] by (simp add: copyASCII_def list_all_iff map_idI)
  then show ?thesis
    using create_origin_readable [OF canonical_readable [OF assms(1)] assms(2,3)] read_path_canonical [OF assms(1)]
    by (simp add: parse_def)
qed

section \<open>Reading an absolute URL\<close>

lemma at_scan_scheme:
  assumes "list_all isSchemeChar s" "s \<noteq> []" 
  shows "scan_while isSchemeChar (s @ 58 # rest) 1 = length s" "at (s @ 58 # rest) (length s) = 58"
proof -
  obtain c t where s: "s = c # t" using assms(2) by (cases s) auto
  have "at (58 # rest) 0 = 58" by (simp add: at_def)
  moreover have "\<not> isSchemeChar 0" by (simp add: char_class alpha_def digit_def)
  ultimately show "scan_while isSchemeChar (s @ 58 # rest) 1 = length s"
    using scan_while_run [of isSchemeChar t "58 # rest" "[c]"] assms(1) by (simp add: s)
  show "at (s @ 58 # rest) (length s) = 58" by (simp add: at_def)
qed

lemma url_from_string_absolute:
  assumes "list_all printable s" "s = scheme @ 58 # rest" "scheme \<noteq> []" "isSchemeFirstChar (hd scheme)" "list_all isSchemeChar scheme"
    and "0x5C \<notin> set s" "last s \<noteq> 32"
  shows "url_from_string e s = parse_chars s (Some s)"
proof -
  have copy: "copyASCII s = s"
    using assms(1) by (auto simp: copyASCII_def printable_def list_all_iff intro!: map_idI)
  have asc: "containsOnlyASCII s"
    using assms(1) by (auto simp: containsOnlyASCII_def isASCII_def printable_def list_all_iff)
  have hd: "at s 0 = hd scheme" using assms(2,3) by (cases scheme) (auto simp: at_def)
  have ne: "s \<noteq> []" using assms(2) by simp
  have "hd s > 32" using assms(2-4) by (cases scheme) (auto simp: char_class alpha_def)
  moreover have "last s > 32"
    using assms(1,7) last_in_set [OF ne] by (auto simp: list_all_iff printable_def less_le)
  ultimately have trim: "trimFromURL s = s" using ne by (intro trimFromURL_keep)
  have sw: "scan_while isSchemeChar s 1 = length scheme" "at s (length scheme) = 58"
    using at_scan_scheme [OF assms(5,3), of rest] by (simp_all add: assms(2))
  have "isHierarchical (invalid_url []) = False" "m_isValid (invalid_url []) = False" "url_isEmpty (invalid_url [])"
    by (simp_all add: isHierarchical_def invalid_url_def invalidate_def url_isEmpty_def)
  then show ?thesis
    by (simp add: url_from_string_def url_init_def copy asc trim hd sw sw(1) [unfolded One_nat_def] assms(4,6) Let_def)
qed

section \<open>The string of an origin\<close>

definition origin_parts :: "wtf_string \<Rightarrow> wtf_string \<Rightarrow> wtf_string \<Rightarrow> wtf_string \<Rightarrow> url_parts" where
  "origin_parts scheme h t pth = \<lparr>p_scheme = scheme, p_user = [], p_password = [], p_host = h, p_port = t,
     p_path = pth, p_query = [], p_fragment = []\<rparr>"

lemma origin_parts_select [simp]:
  "p_scheme (origin_parts scheme h t pth) = scheme" "p_host (origin_parts scheme h t pth) = h"
  "p_port (origin_parts scheme h t pth) = t" "p_path (origin_parts scheme h t pth) = pth"
  by (simp_all add: origin_parts_def)

lemma so_toString_tuple:
  "scheme \<noteq> lit ''file'' \<Longrightarrow> so_toString (tuple_origin e new scheme h n f) = print_url (origin_parts scheme h (port_text n) [])"
  by (simp add: so_toString_def toRawString_def tuple_origin_def origin_parts_def print_url_def print_userinfo_def
      print_port_def port_text_def lit_def)

lemma default_port_empty [simp]: "\<not> isDefaultPortForScheme [] 0 scheme n"
  by (simp add: isDefaultPortForScheme_def equal_length_chars_def httpPort_def httpsPort_def ftpPort_def gopherPort_def lit_def)

lemma not_default_zero: "\<not> isDefaultPortForScheme (numberToString 0) (length (numberToString 0)) scheme n"
  by (simp add: numberToString.simps [of 0] isDefaultPortForScheme_def equal_length_chars_def equal_chars_def
      httpPort_def httpsPort_def ftpPort_def gopherPort_def lit_def)

lemma isASCIIDigit_number: "list_all isASCIIDigit (numberToString n)"
  using numberToString_digits [of _ n] by (auto simp: list_all_iff isASCIIDigit_def)

lemma port_reads_digits: "port_reads t n \<Longrightarrow> list_all isASCIIDigit t"
  using isASCIIDigit_number by (auto simp: port_reads_def)

lemma readable_origin:
  assumes "canonical_parts p" "port_reads (p_port p) n" "port_reads t (origin_port e (p_scheme p) n)"
    and "pth = [] \<or> pth = [47]"
  shows "readable_parts (origin_parts (p_scheme p) (p_host p) t pth)"
proof -
  have "\<not> isDefaultPortForScheme t (length t) (p_scheme p) (length (p_scheme p))"
    using assms not_default_zero by (auto simp: origin_port_def canonical_parts_def port_reads_def split: if_splits)
  moreover have "list_all stays pth" "pth = [] \<or> (\<exists>rest. pth = 47 # rest \<and> \<not> slash_dot_loop 47 rest)"
    using assms(4) by (auto simp: stays_def char_class printable_def)
  ultimately show ?thesis using assms(1) port_reads_digits [OF assms(3)]
    by (simp add: readable_parts_def canonical_parts_def origin_parts_def)
qed

definition url_text :: "code_unit \<Rightarrow> bool" where
  "url_text c \<longleftrightarrow> 33 \<le> c \<and> c \<le> 126 \<and> c \<noteq> 92"

lemma url_text_classes: "isHostnameChar c \<Longrightarrow> url_text c" "isSchemeChar c \<Longrightarrow> url_text c" "isASCIIDigit c \<Longrightarrow> url_text c"
  by (auto simp: char_class alpha_def digit_def url_text_def isASCIIDigit_def)

lemma print_origin_parts:
  "print_url (origin_parts scheme h t pth) = scheme @ 58 # 47 # 47 # h @ (if t = [] then [] else 58 # t) @ pth"
  by (simp add: origin_parts_def print_url_def print_userinfo_def print_port_def)

lemma origin_parts_text:
  assumes "canonical_parts p" "list_all isASCIIDigit t" "pth = [] \<or> pth = [47]"
  shows "list_all url_text (print_url (origin_parts (p_scheme p) (p_host p) t pth))"
proof -
  note c = assms(1) [unfolded canonical_parts_def]
  have "list_all url_text (p_host p)"
    by (rule list_all_mono [of "\<lambda>c. isHostnameChar c \<and> \<not> isASCIIUpper c"]) (use c url_text_classes in blast)+
  moreover have "list_all url_text (p_scheme p)"
    by (rule list_all_mono [of "\<lambda>c. isSchemeChar c \<and> \<not> isASCIIUpper c"]) (use c url_text_classes in blast)+
  moreover have "list_all url_text t" by (rule list_all_mono [OF assms(2)]) (rule url_text_classes)
  moreover have "url_text 58" "url_text 47" by (simp_all add: url_text_def)
  ultimately show ?thesis using assms(3) unfolding print_origin_parts by auto
qed

lemma url_from_string_origin:
  assumes "canonical_parts p" "list_all isASCIIDigit t" "pth = [] \<or> pth = [47]"
  shows "url_from_string e (print_url (origin_parts (p_scheme p) (p_host p) t pth))
    = parse_chars (print_url (origin_parts (p_scheme p) (p_host p) t pth)) (Some (print_url (origin_parts (p_scheme p) (p_host p) t pth)))"
proof -
  note c = assms(1) [unfolded canonical_parts_def]
  define s where "s = print_url (origin_parts (p_scheme p) (p_host p) t pth)"
  have s: "s = p_scheme p @ 58 # 47 # 47 # p_host p @ (if t = [] then [] else 58 # t) @ pth"
    unfolding s_def by (rule print_origin_parts)
  have all: "\<forall>c\<in>set s. 33 \<le> c \<and> c \<le> 126 \<and> c \<noteq> 92"
    using origin_parts_text [OF assms] by (simp add: s_def list_all_iff url_text_def)
  have "s \<noteq> []" by (simp add: s)
  have "url_from_string e s = parse_chars s (Some s)"
  proof (rule url_from_string_absolute [OF _ s])
    show "list_all printable s" using all by (auto simp: list_all_iff printable_def)
    show "list_all isSchemeChar (p_scheme p)" using c by (auto simp: list_all_iff)
    show "0x5C \<notin> set s" using all by auto
    show "last s \<noteq> 32" using all last_in_set [OF \<open>s \<noteq> []\<close>] by fastforce
  qed (use c in simp_all)
  then show ?thesis by (simp add: s_def)
qed

text \<open>Both ways an origin is written down, read back.\<close>

lemma create_origin_text:
  assumes "canonical_parts p" "tuple_scheme e (p_scheme p)" "port_reads (p_port p) n"
    and "port_reads t (origin_port e (p_scheme p) n)" "pth = [] \<or> pth = [47]"
    and "\<not> shouldTreatURLSchemeAsLocal (se_icu e) (se_schemes e) (p_scheme p)"
  shows "create_origin e new (url_from_string e (print_url (origin_parts (p_scheme p) (p_host p) t pth)))
    = create_origin e new (parse (print_url p))"
proof -
  have "create_origin e new (url_from_string e (print_url (origin_parts (p_scheme p) (p_host p) t pth)))
      = tuple_origin e new (p_scheme p) (p_host p) (origin_port e (p_scheme p) n) (read_path (origin_parts (p_scheme p) (p_host p) t pth))"
    unfolding url_from_string_origin [OF assms(1) port_reads_digits [OF assms(4)] assms(5)]
    using create_origin_readable [of "origin_parts (p_scheme p) (p_host p) t pth" e "origin_port e (p_scheme p) n"]
      readable_origin [OF assms(1,3-5)] assms(2,4) by simp
  then show ?thesis
    unfolding create_origin_print [OF assms(1-3)] using assms(6) by (simp add: tuple_origin_def)
qed

lemma same_scheme_host_port_tuple:
  "isSameSchemeHostPort e (tuple_origin e x s h n f) (tuple_origin e y s' h' n' f') \<longleftrightarrow> s = s' \<and> h = h' \<and> n = n'"
  by (auto simp: isSameSchemeHostPort_def passesFileCheck_def)

lemma canonical_not_file: "canonical_parts p \<Longrightarrow> p_scheme p \<noteq> lit ''file''"
  by (simp add: canonical_parts_def)

text \<open>
  C10: The string of an origin determines it: for a canonical URL whose scheme is neither local nor one
  without access, the origin has the scheme, host and port of the URL, its string is their text, with the
  port left out when it is the default one, and reading that string again gives the same origin.
\<close>

theorem origin_string_roundtrip:
  fixes new :: nat
  assumes "canonical_parts p" "tuple_scheme e (p_scheme p)" "port_reads (p_port p) n"
    and "\<not> shouldTreatURLSchemeAsLocal (se_icu e) (se_schemes e) (p_scheme p)"
  defines "o1 \<equiv> create_origin e new (parse (print_url p))"
  shows "so_protocol o1 = p_scheme p \<and> so_host o1 = p_host p \<and> so_port o1 = origin_port e (p_scheme p) n
    \<and> so_toString o1 = p_scheme p @ lit ''://'' @ p_host p
        @ (if so_port o1 = 0 then [] else lit '':'' @ numberToString (so_port o1))
    \<and> createFromString e new (so_toString o1) = o1"
proof -
  define m where "m = origin_port e (p_scheme p) n"
  have o: "o1 = tuple_origin e new (p_scheme p) (p_host p) m (p_path p)"
    unfolding o1_def m_def by (rule create_origin_print [OF assms(1-3)])
  have str: "so_toString o1 = print_url (origin_parts (p_scheme p) (p_host p) (port_text m) [])"
    unfolding o by (rule so_toString_tuple [OF canonical_not_file [OF assms(1)]])
  have "port_reads (port_text m) m" unfolding m_def by (rule port_reads_text [OF origin_port_le [OF assms(3)]])
  then have "createFromString e new (so_toString o1) = o1"
    unfolding createFromString_def str
    by (subst create_origin_text [OF assms(1-3) _ _ assms(4)]) (simp_all add: m_def o1_def)
  then show ?thesis using str by (simp add: o print_origin_parts lit_def m_def port_text_def)
qed

text \<open>
  C6: The same-origin policy on canonical URLs: scripts of one may reach the other, in either direction, exactly when
  scheme, host and port are equal; a request is allowed exactly then or by the white list, and otherwise taints
  a canvas; setting \<open>document.domain\<close> on one side only shuts access off, and setting it on both sides opens it
  exactly between equal schemes and domains.
\<close>

theorem same_origin_policy:
  assumes "canonical_parts p" "tuple_scheme e (p_scheme p)" "port_reads (p_port p) n"
    and "canonical_parts q" "tuple_scheme e (p_scheme q)" "port_reads (p_port q) m"
    and "x \<noteq> y"
  defines "o1 \<equiv> create_origin e x (parse (print_url p))" and "o2 \<equiv> create_origin e y (parse (print_url q))"
  defines "same \<equiv> p_scheme p = p_scheme q \<and> p_host p = p_host q \<and> origin_port e (p_scheme p) n = origin_port e (p_scheme q) m"
  shows "canAccess e o1 o2 = same \<and> canAccess e o2 o1 = same
    \<and> canRequest e y o1 (parse (print_url q)) = (same \<or> isAccessWhiteListed e o1 o2)
    \<and> taintsCanvas e y o1 (parse (print_url q)) = (\<not> same \<and> \<not> isAccessWhiteListed e o1 o2 \<and> p_scheme q \<noteq> lit ''data'')
    \<and> (canAccess e (setDomainFromDOM e d o1) o2 = False) \<and> (canAccess e o1 (setDomainFromDOM e d o2) = False)
    \<and> canAccess e (setDomainFromDOM e d o1) (setDomainFromDOM e d' o2)
       = (p_scheme p = p_scheme q \<and> lower (se_icu e) d = lower (se_icu e) d')"
proof -
  have o: "o1 = tuple_origin e x (p_scheme p) (p_host p) (origin_port e (p_scheme p) n) (p_path p)"
    "o2 = tuple_origin e y (p_scheme q) (p_host q) (origin_port e (p_scheme q) m) (p_path q)"
    unfolding o1_def o2_def using create_origin_print assms(1-6) by blast+
  have acc: "canAccess e o1 o2 = same" "canAccess e o2 o1 = same"
    using assms(7) by (auto simp: o canAccess_def passesFileCheck_def same_def)
  have dom: "canAccess e (setDomainFromDOM e d o1) o2 = False" "canAccess e o1 (setDomainFromDOM e d o2) = False"
    "canAccess e (setDomainFromDOM e d o1) (setDomainFromDOM e d' o2)
       = (p_scheme p = p_scheme q \<and> lower (se_icu e) d = lower (se_icu e) d')"
    using assms(7) by (simp_all add: o canAccess_def setDomainFromDOM_def passesFileCheck_def Let_def)
  have sc: "list_all (\<lambda>c. isSchemeChar c \<and> \<not> isASCIIUpper c) (p_scheme q)" using assms(4) by (simp add: canonical_parts_def)
  then have "getCachedOrigin e (parse (print_url q)) = None"
    unfolding getCachedOrigin_def parse_print [OF assms(4)]
    using assms(5) by (subst url_protocolIs_write) (simp_all add: tuple_scheme_def lit_def)
  then have req: "canRequest e y o1 (parse (print_url q)) = (same \<or> isAccessWhiteListed e o1 o2)"
    unfolding canRequest_def o2_def [symmetric]
    by (auto simp: o same_scheme_host_port_tuple same_def Let_def)
  have "url_protocolIs (parse (print_url q)) (lit ''data'') = (p_scheme q = lit ''data'')"
    unfolding parse_print [OF assms(4)] by (subst url_protocolIs_write [OF sc]) (simp_all add: lit_def)
  with req have "taintsCanvas e y o1 (parse (print_url q)) = (\<not> same \<and> \<not> isAccessWhiteListed e o1 o2 \<and> p_scheme q \<noteq> lit ''data'')"
    by (auto simp: taintsCanvas_def)
  with acc dom req show ?thesis by blast
qed

definition sample_env :: security_env where
  "sample_env = \<lparr>se_icu = ascii_icu, se_decode = (\<lambda>s. s), se_encode = (\<lambda>s. s), se_schemes = no_schemes, se_originMap = Map.empty,
     se_originAccessMap = Map.empty, se_localLoadPolicy = AllowLocalLoadsForLocalOnly\<rparr>"

lemma sample_scheme:
  "tuple_scheme sample_env (lit ''http'')" "\<not> shouldTreatURLSchemeAsLocal ascii_icu no_schemes (lit ''http'')"
  "\<not> isDefaultPortForProtocol ascii_icu 81 (lit ''http'')" "numberToString 81 = lit ''81''"
  by code_simp+

theorem origin_string_roundtrip_witness:
  "so_toString (create_origin sample_env 1 (parse (print_url sample_parts))) = lit ''http://a.org:81''"
  using origin_string_roundtrip [OF sample_parts_canonical, of sample_env 81 1] sample_scheme
  by (simp add: sample_parts_def sample_env_def port_reads_def origin_port_def) (simp add: lit_def)

theorem same_origin_policy_witness:
  "\<not> canAccess sample_env (setDomainFromDOM sample_env (lit ''org'') (create_origin sample_env 1 (parse (print_url sample_parts))))
      (create_origin sample_env 2 (parse (print_url sample_parts)))
   \<and> canAccess sample_env (create_origin sample_env 1 (parse (print_url sample_parts)))
      (create_origin sample_env 2 (parse (print_url sample_parts)))"
  using same_origin_policy [OF sample_parts_canonical, of sample_env 81 sample_parts 81 1 2 "lit ''org''"] sample_parts_canonical sample_scheme
  by (simp add: sample_parts_def port_reads_def)

section \<open>Database identifiers\<close>

lemma toInt_numberToString:
  assumes "n \<le> 65535"
  shows "charactersToInt u (numberToString n) = Some (int n)"
proof -
  obtain c rest where cr: "numberToString n = c # rest" by (cases "numberToString n") auto
  have d: "\<forall>x\<in>set (numberToString n). isASCIIDigit x"
    using numberToString_digits [of _ n] by (auto simp: isASCIIDigit_def)
  then have c: "48 \<le> c" "c \<le> 57" by (auto simp: cr isASCIIDigit_def)
  then have sp: "\<not> isSpaceOrNewline u c" "c \<noteq> 43" "c \<noteq> 45"
    by (auto simp: isSpaceOrNewline_def isASCIISpace_def)
  have al: "isCharacterAllowedInBase c 10" using digit_allowed [of "c - 48"] c by simp
  have "takeWhile isASCIIDigit (numberToString n) = numberToString n" using d by simp
  then have "charactersAsInteger (numberToString n) u = numberToString n"
    using sp by (simp add: charactersAsInteger_def Let_def cr)
  moreover have "digit_loop (2 ^ 31 - 1) 10 False (c # rest) 0 = Some (n, [])"
    using digit_loop_numberToString [of n "2 ^ 31 - 1"] assms cr by simp
  ultimately show ?thesis using sp al by (simp add: charactersToInt_def toIntegralType_def Let_def cr)
qed

lemma reverse_scan_last:
  "k < length s \<Longrightarrow> s ! k = c \<Longrightarrow> k \<le> i \<Longrightarrow> \<forall>j. k < j \<and> j \<le> i \<longrightarrow> s ! j \<noteq> c \<Longrightarrow> reverse_scan c s i = Some k"
  by (induction i) (auto simp: le_Suc_eq)

lemma reverseFind_last:
  assumes "c \<notin> set b"
  shows "reverseFind c (a @ c # b) (length (a @ c # b)) = Some (length a)"
proof -
  have "(a @ c # b) ! j \<noteq> c" if "length a < j" "j \<le> length a + length b" for j
    using that assms by (auto simp: nth_append nth_Cons split: nat.splits)
  then show ?thesis by (simp add: reverseFind_def reverse_scan_last)
qed

lemma find_char_first:
  assumes "c \<notin> set a"
  shows "find_char c (a @ c # b) 0 = Some (length a)"
proof -
  have "takeWhile (\<lambda>x. x \<noteq> c) (a @ c # b) = a" using assms by (auto simp: takeWhile_append)
  then show ?thesis by (simp add: find_char_def scan_while_takeWhile)
qed

lemma encodeForFileName_id:
  assumes "list_all (\<lambda>c. isHostnameChar c \<and> c \<noteq> 37) s"
  shows "encodeForFileName s = s"
proof -
  have "\<not> shouldEscapeUChar c" if "isHostnameChar c" "c \<noteq> 37" for c
  proof -
    have "33 \<le> c" "c \<le> 126" "c \<notin> {0x22, 0x25, 0x2A, 0x2F, 0x3A, 0x3C, 0x3E, 0x3F, 0x5C, 0x7C}"
      using that by (auto simp: char_class alpha_def digit_def)
    then show ?thesis by (simp add: shouldEscapeUChar_def needsEscaping_def)
  qed
  then have "map (\<lambda>c. if shouldEscapeUChar c then ch CHR ''%'' # placeByteAsHex c else [c]) s = map (\<lambda>c. [c]) s"
    using assms by (auto simp: list_all_iff)
  then show ?thesis unfolding encodeForFileName_def by (simp only: concat_map_singleton) (simp add: map_idI)
qed

lemma decode_no_percent: "37 \<notin> set s \<Longrightarrow> decodeURLEscapeSequences decode s = s"
proof -
  assume a: "37 \<notin> set s"
  have "find_char 37 s 0 = None"
    using find_char_Some [of 37 s 0] a by (cases "find_char 37 s 0") (auto simp: in_set_conv_nth)
  then show ?thesis
    by (simp add: decodeURLEscapeSequences_def decodeEscapeSequences_def decode_loop.simps [of decode s] substring_from_drop)
qed

lemma maybeCreate_identifier:
  assumes "95 \<notin> set scheme" "37 \<notin> set h" "n \<le> 65535"
  shows "maybeCreateFromDatabaseIdentifier e new (scheme @ 95 # h @ 95 # numberToString n) =
    Some (create_origin e new (url_from_string e (scheme @ lit ''://'' @ h @ lit '':'' @ numberToString n @ lit ''/'')))"
proof -
  define k where "k = length scheme"
  define l where "l = length h"
  define t where "t = numberToString n"
  define s where "s = scheme @ 95 # h @ 95 # t"
  have len: "length s = k + l + 2 + length t" by (simp add: s_def k_def l_def)
  have s2: "s = (scheme @ 95 # h) @ 95 # t" by (simp add: s_def)
  have t: "t \<noteq> []" "95 \<notin> set t" using numberToString_digits [of 95 n] by (auto simp: t_def)
  have f: "find_char 95 s 0 = Some k" unfolding s_def k_def by (rule find_char_first [OF assms(1)])
  have r: "reverseFind 95 s (length s) = Some (k + l + 1)"
    unfolding s2 by (subst reverseFind_last [OF t(2)]) (simp add: k_def l_def)
  have "right s (length t) = t" by (simp add: right_def substring_def s_def)
  then have i: "charactersToInt (se_icu e) (right s (length s - (k + l + 1) - 1)) = Some (int n)"
    using toInt_numberToString [OF assms(3)] by (simp add: len t_def)
  have "substring s 0 k = scheme" "substring s (k + 1) (k + l + 1 - k - 1) = h"
    by (simp_all add: substring_def s_def k_def l_def)
  then show ?thesis
    unfolding s_def [folded t_def, symmetric] t_def [symmetric]
    using assms(3)
    by (simp add: maybeCreateFromDatabaseIdentifier_def separatorCharacter_def f r i [simplified] Let_def MaxAllowedPort_def
        decode_no_percent [OF assms(2)] t_def)
qed


text \<open>
  C24: Storage kept under an origin's database identifier is found again: the identifier of the origin of
  a canonical URL, with no escape in its host, reads back as the same origin.
\<close>

theorem database_identifier_roundtrip:
  fixes new :: nat
  assumes "canonical_parts p" "tuple_scheme e (p_scheme p)" "port_reads (p_port p) n"
    and "\<not> shouldTreatURLSchemeAsLocal (se_icu e) (se_schemes e) (p_scheme p)" "37 \<notin> set (p_host p)"
  defines "o1 \<equiv> create_origin e new (parse (print_url p))"
  shows "createFromDatabaseIdentifier e new (databaseIdentifier o1) = o1"
proof -
  define m where "m = origin_port e (p_scheme p) n"
  have o: "o1 = tuple_origin e new (p_scheme p) (p_host p) m (p_path p)"
    unfolding o1_def m_def by (rule create_origin_print [OF assms(1-3)])
  have m: "m \<le> 65535" unfolding m_def by (rule origin_port_le [OF assms(3)])
  have "list_all (\<lambda>c. isHostnameChar c \<and> c \<noteq> 37) (p_host p)" "95 \<notin> set (p_scheme p)"
    using assms(1,5) by (auto simp: canonical_parts_def list_all_iff char_class alpha_def digit_def)
  then have "createFromDatabaseIdentifier e new (databaseIdentifier o1)
      = create_origin e new (url_from_string e (p_scheme p @ lit ''://'' @ p_host p @ lit '':'' @ numberToString m @ lit ''/''))"
    using maybeCreate_identifier [of "p_scheme p" "p_host p" m e new] assms(5) m
    by (simp add: createFromDatabaseIdentifier_def databaseIdentifier_def o separatorCharacter_def encodeForFileName_id)
  also have "\<dots> = create_origin e new (url_from_string e (print_url (origin_parts (p_scheme p) (p_host p) (numberToString m) [47])))"
    by (simp add: print_origin_parts lit_def)
  also have "\<dots> = o1" unfolding o1_def
    by (rule create_origin_text [OF assms(1-3) _ _ assms(4)]) (use m in \<open>simp_all add: port_reads_def m_def\<close>)
  finally show ?thesis .
qed

theorem database_identifier_roundtrip_witness:
  "createFromDatabaseIdentifier sample_env 1 (databaseIdentifier (create_origin sample_env 1 (parse (print_url sample_parts))))
   = create_origin sample_env 1 (parse (print_url sample_parts))"
proof -
  have "37 \<notin> set (lit ''a.org'')" by (simp add: lit_def)
  then show ?thesis
    using database_identifier_roundtrip [OF sample_parts_canonical, of sample_env 81 1] sample_scheme
    by (simp add: sample_parts_def sample_env_def port_reads_def)
qed

section \<open>White lists\<close>

text \<open>
  What an entry is meant to match: the named host, every host below it when subdomains are
  allowed and the name is not an address, and every host for the empty name.
\<close>

definition entry_matches :: "wtf_string \<Rightarrow> bool \<Rightarrow> wtf_string \<Rightarrow> bool" where
  "entry_matches name subdomains h \<longleftrightarrow>
     h = name \<or> subdomains \<and> (name = [] \<or> \<not> isASCIIDigit (last name) \<and> (\<exists>sub. h = sub @ [46] @ name))"

lemma matchesOrigin_iff:
  "matchesOrigin (OriginAccessEntry e proto name (subdomain_setting sub)) o1 \<longleftrightarrow>
     so_protocol o1 = lower (se_icu e) proto \<and> entry_matches (lower (se_icu e) name) sub (so_host o1)"
proof -
  define h where "h = so_host o1"
  define d where "d = lower (se_icu e) name"
  have "(length h > length d \<and> at h (length h - length d - 1) = 46 \<and> endsWith h d) \<longleftrightarrow> (\<exists>sub. h = sub @ [46] @ d)"
  proof
    assume a: "length h > length d \<and> at h (length h - length d - 1) = 46 \<and> endsWith h d"
    define k where "k = length h - length d - 1"
    have k: "k < length h" "Suc k = length h - length d" using a by (auto simp: k_def)
    have "h = take k h @ h ! k # drop (Suc k) h" using k(1) by (rule id_take_nth_drop)
    moreover have "h ! k = 46" using a k(1) by (simp add: at_def k_def)
    moreover have "drop (Suc k) h = d" using a k(2) by (simp add: endsWith_def)
    ultimately show "\<exists>sub. h = sub @ [46] @ d" by (metis append_Cons append_Nil)
  next
    assume "\<exists>sub. h = sub @ [46] @ d"
    then show "length h > length d \<and> at h (length h - length d - 1) = 46 \<and> endsWith h d"
      by (auto simp: at_def endsWith_def)
  qed
  moreover have "d \<noteq> [] \<Longrightarrow> at d (length d - 1) = last d" by (simp add: at_def last_conv_nth)
  ultimately show ?thesis
    unfolding matchesOrigin_def OriginAccessEntry_def Let_def entry_matches_def h_def [symmetric] d_def [symmetric]
    by (auto simp: subdomain_setting_def)
qed

lemma remove_first_append:
  "remove_first p (xs @ [x]) = (if list_ex p xs then remove_first p xs @ [x] else if p x then xs else xs @ [x])"
  by (induction xs) auto

lemma list_ex_remove_first:
  assumes "list_ex p xs" "\<And>y. y \<in> set xs \<Longrightarrow> p y \<Longrightarrow> q y = q x"
  shows "list_ex q (remove_first p xs @ [x]) = (list_ex q xs \<or> q x)"
  using assms by (induction xs) (auto split: if_splits)

definition whitelists_ok :: "security_env \<Rightarrow> bool" where
  "whitelists_ok e \<longleftrightarrow> (\<forall>k. se_originAccessMap e k \<noteq> Some [])"

text \<open>No white list is ever kept empty.\<close>

lemma whitelists_ok_step:
  "whitelists_ok (resetOriginAccessWhitelists e)"
  "whitelists_ok e \<Longrightarrow> whitelists_ok (addOriginAccessWhitelistEntry s proto name sub e)"
  "whitelists_ok e \<Longrightarrow> whitelists_ok (removeOriginAccessWhitelistEntry s proto name sub e)"
  by (auto simp: whitelists_ok_def resetOriginAccessWhitelists_def addOriginAccessWhitelistEntry_def
      removeOriginAccessWhitelistEntry_def Let_def split: option.splits)

lemma entry_equal_refl [simp]: "entry_equal u a a"
  by (simp add: entry_equal_def equalIgnoringCase_def)

lemma add_env_icu [simp]: "se_icu (addOriginAccessWhitelistEntry s proto name sub e) = se_icu e"
  "OriginAccessEntry (addOriginAccessWhitelistEntry s proto name sub e) = OriginAccessEntry e"
  by (simp_all add: addOriginAccessWhitelistEntry_def OriginAccessEntry_def Let_def fun_eq_iff)

text \<open>
  C17: A white list entry grants exactly what it names: after adding it, an origin may reach a target that it could
  not reach before exactly when it has the source's string, the target's scheme is the entry's, and the target's
  host is the named one or, with subdomains, lies below it at a dot and the name is no address (the empty name
  standing for every host). Removing the entry again restores the environment, unless an equal entry was there before.
\<close>

theorem whitelist_grants:
  assumes "\<not> so_isUnique source" "whitelists_ok e"
    and "\<forall>list\<in>set_option (se_originAccessMap e (so_toString source)).
      \<not> list_ex (\<lambda>a. entry_equal (se_icu e) a (OriginAccessEntry e proto name (subdomain_setting sub))) list"
  defines "e' \<equiv> addOriginAccessWhitelistEntry source proto name sub e"
  shows "isAccessWhiteListed e' active target = (isAccessWhiteListed e active target \<or>
      so_toString active = so_toString source \<and> so_protocol target = lower (se_icu e) proto
      \<and> entry_matches (lower (se_icu e) name) sub (so_host target))
    \<and> removeOriginAccessWhitelistEntry source proto name sub e' = e"
proof
  define k where "k = so_toString source"
  define a where "a = OriginAccessEntry e proto name (subdomain_setting sub)"
  define l where "l = (case se_originAccessMap e k of None \<Rightarrow> [] | Some list \<Rightarrow> list)"
  have e': "e' = e\<lparr>se_originAccessMap := (se_originAccessMap e)(k \<mapsto> l @ [a])\<rparr>"
    using assms(1) by (simp add: e'_def addOriginAccessWhitelistEntry_def Let_def k_def l_def a_def)
  have "isAccessWhiteListed e' active target = (isAccessWhiteListed e active target \<or>
      so_toString active = k \<and> matchesOrigin a target)"
    by (auto simp: isAccessWhiteListed_def e' l_def split: option.splits)
  then show "isAccessWhiteListed e' active target = (isAccessWhiteListed e active target \<or>
      so_toString active = so_toString source \<and> so_protocol target = lower (se_icu e) proto
      \<and> entry_matches (lower (se_icu e) name) sub (so_host target))"
    by (simp add: a_def k_def matchesOrigin_iff)
  have n: "\<not> list_ex (\<lambda>x. entry_equal (se_icu e) x a) l"
    using assms(3) by (auto simp: l_def k_def a_def split: option.splits)
  have a': "OriginAccessEntry e' proto name (subdomain_setting sub) = a" "se_icu e' = se_icu e"
    unfolding e'_def a_def by simp_all
  have "remove_first (\<lambda>x. entry_equal (se_icu e) x a) (l @ [a]) = l" using n by (simp add: remove_first_append)
  then have "removeOriginAccessWhitelistEntry source proto name sub e'
      = e'\<lparr>se_originAccessMap := (se_originAccessMap e')(k := (if l = [] then None else Some l))\<rparr>"
    using assms(1) n by (simp add: removeOriginAccessWhitelistEntry_def a' k_def [symmetric] Let_def) (simp add: e')
  also have "\<dots> = e"
  proof -
    have "(if l = [] then None else Some l) = se_originAccessMap e k"
      using assms(2) by (auto simp: l_def whitelists_ok_def split: option.splits)
    then show ?thesis by (simp add: e')
  qed
  finally show "removeOriginAccessWhitelistEntry source proto name sub e' = e" .
qed

theorem whitelist_grants_witness:
  "isAccessWhiteListed (addOriginAccessWhitelistEntry (tuple_origin sample_env 1 (lit ''http'') (lit ''a.org'') 0 []) (lit ''http'') (lit ''b.org'') True sample_env)
      (tuple_origin sample_env 2 (lit ''http'') (lit ''a.org'') 0 []) (tuple_origin sample_env 3 (lit ''http'') (lit ''x.b.org'') 0 [])
   \<and> \<not> isAccessWhiteListed (addOriginAccessWhitelistEntry (tuple_origin sample_env 1 (lit ''http'') (lit ''a.org'') 0 []) (lit ''http'') (lit ''b.org'') True sample_env)
      (tuple_origin sample_env 2 (lit ''http'') (lit ''a.org'') 0 []) (tuple_origin sample_env 3 (lit ''http'') (lit ''xb.org'') 0 [])"
proof -
  let ?s = "tuple_origin sample_env 1 (lit ''http'') (lit ''a.org'') 0 []"
  have ok: "whitelists_ok sample_env" "isAccessWhiteListed sample_env a t = False" "se_originAccessMap sample_env k = None" for a t k
    by (simp_all add: whitelists_ok_def sample_env_def isAccessWhiteListed_def)
  have low: "lower (se_icu sample_env) (lit ''http'') = lit ''http''" "lower (se_icu sample_env) (lit ''b.org'') = lit ''b.org''" by code_simp+
  have str: "so_toString (tuple_origin sample_env n (lit ''http'') (lit ''a.org'') 0 []) = lit ''http://a.org''" for n
    by (simp add: so_toString_def toRawString_def) (simp add: lit_def)
  have "\<not> isASCIIDigit (last (lit ''b.org''))" by code_simp
  moreover have "lit ''x.b.org'' = lit ''x'' @ [46] @ lit ''b.org''" by (simp add: lit_def)
  ultimately have "entry_matches (lit ''b.org'') True (lit ''x.b.org'')" unfolding entry_matches_def by blast
  moreover have "\<not> entry_matches (lit ''b.org'') True (lit ''xb.org'')"
    by (auto simp: entry_matches_def lit_def Cons_eq_append_conv)
  ultimately show ?thesis
    using whitelist_grants [of ?s sample_env "lit ''http''" "lit ''b.org''" True] ok
    by (simp add: low str)
qed

section \<open>Public blob URLs\<close>

definition plain :: "code_unit \<Rightarrow> bool" where
  "plain c \<longleftrightarrow> alpha c \<or> digit c \<or> c \<in> {43, 45, 46, 47, 58, 95}"

lemma plain_keeps: "plain c \<Longrightarrow> c < 128 \<and> printable c \<and> \<not> isBadChar c \<and> c \<noteq> 0 \<and> c \<noteq> 63 \<and> c \<noteq> 35 \<and> c \<noteq> 37"
  by (auto simp: plain_def alpha_def digit_def char_class printable_def)

lemma escape_bad_bytes_plain: "list_all plain s \<Longrightarrow> escape_bad_bytes s = s"
  by (induction s) (auto dest: plain_keeps)

lemma convertLatin1_plain: "list_all plain s \<Longrightarrow> length s \<le> room \<Longrightarrow> snd (snd (convertLatin1ToUTF8 s room)) = s"
proof (induction s arbitrary: room)
  case (Cons c s)
  then have "c < 128" "snd (snd (convertLatin1ToUTF8 s (room - 1))) = s" by (auto dest: plain_keeps)
  then show ?case using Cons.prems by (simp add: split_beta Let_def firstByteMark_def)
qed simp

lemma encode_plain: "list_all plain s \<Longrightarrow> length s \<le> 2 ^ 30 \<Longrightarrow> encodeWithURLEscapeSequences True s = s"
  by (simp add: encodeWithURLEscapeSequences_def utf8_def escape_bad_bytes_plain convertLatin1_plain)

lemma parse_blob:
  assumes "list_all plain s" "s \<noteq> []" "hd s \<noteq> 47"
  shows "parse (lit ''blob:'' @ s) = write_url False (Some (lit ''blob:'' @ s)) (lit ''blob'')
    \<lparr>at_prefix = [], at_user = [], at_password = [], at_sign = [], at_host = [], at_port = []\<rparr> s [] []"
proof -
  define t where "t = lit ''blob:'' @ s"
  have t: "t = 98 # 108 # 111 # 98 # 58 # s" by (simp add: t_def lit_def)
  have copy: "copyASCII t = t"
    using assms(1) plain_keeps by (fastforce simp: copyASCII_def list_all_iff t intro!: map_idI)
  have sw: "scan_while isSchemeChar t 0 = 4"
    by (simp add: scan_while_takeWhile t char_class alpha_def digit_def)
  have sep: "at t 5 \<noteq> 47" using assms(2,3) by (cases s) (simp_all add: t at_def)
  have au: "scan_authority t 4 = Some (empty_authority 5)"
    using sep by (simp add: scan_authority_def isNonFileHierarchicalScheme_def equal_chars_def httpScheme_def lit_def t at_def)
  have "\<forall>c\<in>set s. c \<noteq> 0 \<and> c \<noteq> 63 \<and> c \<noteq> 35"
    using assms(1) by (auto simp: list_all_iff dest: plain_keeps)
  then have "length (takeWhile (\<lambda>c. 0 < c \<and> c \<noteq> 63 \<and> c \<noteq> 35) s) = length s"
    by (subst takeWhile_eq_all_conv [THEN iffD2]) auto
  then have "scan_while (\<lambda>c. c \<noteq> 0 \<and> c \<noteq> 63 \<and> c \<noteq> 35) t 5 = length t"
    by (simp add: scan_while_takeWhile t)
  then have tl: "scan_tail t 5 = \<lparr>pathStart = 5, pathEnd = length t, queryStart = length t, queryEnd = length t,
      fragmentStart = length t, fragmentEnd = length t\<rparr>"
    by (simp add: scan_tail_def Let_def) (simp add: at_def)
  have pth: "between 5 (length t) t = s" "between 0 4 t = lit ''blob''" by (simp_all add: between_def t lit_def)
  have keep: "escapeAndAppendNonHierarchicalPart s = s"
    using assms(1) by (intro keep_part) (auto simp: list_all_iff dest: plain_keeps)
  have nf: "\<not> url_isFile t 4" "\<not> url_isInHTTPFamily t" by (simp_all add: url_isFile_def url_isInHTTPFamily_def t at_def isLetterMatchIgnoringCase_def)
  have first: "at t 0 = 98" "at t 4 = 58" "isSchemeFirstChar 98" by (simp_all add: t at_def char_class alpha_def)
  have "escapeAndAppendNonHierarchicalPart [] = []" "appendEscapingBadChars [] = []" "map toASCIILower (lit ''blob'') = lit ''blob''"
    by code_simp+
  then show ?thesis unfolding t_def [symmetric]
    using sep nf assms(2) copy first
    by (simp add: parse_def parse_chars_def sw au tl assemble_def Let_def assemble_authority_def empty_authority_def
        haveNonHostAuthorityPart_def assemble_path_def assemble_fragment_def pth keep)
qed

lemma create_origin_inner:
  assumes "m_isValid url" "url_protocolIs url (lit ''blob'')" "se_originMap e (m_string url) = None"
    and "w = extractInnerURL e url" "m_isValid w" "\<not> url_protocolIs w (lit ''blob'')" "\<not> so_isUnique (create_origin e new w)"
  shows "create_origin e new url = create_origin e new w"
proof -
  have "\<not> shouldTreatAsUniqueOrigin e w"
    using assms(6,7) by (auto simp: create_origin_def getCachedOrigin_def SecurityOrigin_unique_def split: if_splits)
  moreover have "shouldTreatAsUniqueOrigin e url = shouldTreatAsUniqueOrigin e w"
    using assms(1,2,5,6) by (simp add: shouldTreatAsUniqueOrigin_def shouldUseInnerURL_def assms(4) [symmetric])
  ultimately show ?thesis
    using assms(2,3,6) by (simp add: create_origin_def getCachedOrigin_def shouldUseInnerURL_def assms(4) [symmetric])
qed

lemma plain_classes:
  "isSchemeChar c \<Longrightarrow> plain c" "isHostnameChar c \<Longrightarrow> c \<noteq> 37 \<Longrightarrow> plain c" "isASCIIDigit c \<Longrightarrow> plain c"
  "alpha c \<or> digit c \<or> c = 45 \<Longrightarrow> plain c"
  by (auto simp: plain_def char_class alpha_def digit_def isASCIIDigit_def)

lemma uuid_path:
  assumes "list_all (\<lambda>c. alpha c \<or> digit c \<or> c = 45) uuid"
  shows "\<not> slash_dot_loop 47 uuid" "list_all stays uuid"
proof -
  have "\<not> slash_dot_loop pc uuid" for pc
    using assms by (induction uuid arbitrary: pc) (auto simp: alpha_def digit_def)
  then show "\<not> slash_dot_loop 47 uuid" .
  show "list_all stays uuid"
    using assms by (auto simp: list_all_iff stays_def char_class printable_def alpha_def digit_def)
qed

lemma readable_blob_inner:
  assumes "canonical_parts p" "port_reads (p_port p) n" "port_reads t (origin_port e (p_scheme p) n)"
    and "list_all (\<lambda>c. alpha c \<or> digit c \<or> c = 45) uuid"
  shows "readable_parts (origin_parts (p_scheme p) (p_host p) t (47 # uuid))"
proof -
  have "stays 47" by code_simp
  then show ?thesis
    using readable_origin [OF assms(1-3), of "[]"] uuid_path [OF assms(4)]
    by (simp add: readable_parts_def origin_parts_def)
qed

lemma plain_origin:
  assumes "canonical_parts p" "37 \<notin> set (p_host p)" "list_all isASCIIDigit t" "list_all (\<lambda>c. alpha c \<or> digit c \<or> c = 45) uuid"
  shows "list_all plain (print_url (origin_parts (p_scheme p) (p_host p) t (47 # uuid)))"
    "list_all plain (print_url (origin_parts (p_scheme p) (p_host p) t []))"
proof -
  have "list_all plain (p_host p)" "list_all plain (p_scheme p)" "list_all plain t" "list_all plain uuid"
    using assms by (auto simp: canonical_parts_def list_all_iff intro: plain_classes)
  moreover have "plain 58" "plain 47" by (simp_all add: plain_def)
  ultimately show "list_all plain (print_url (origin_parts (p_scheme p) (p_host p) t (47 # uuid)))"
    "list_all plain (print_url (origin_parts (p_scheme p) (p_host p) t []))" by (simp_all add: print_origin_parts)
qed

text \<open>
  C25: A public blob URL has the origin of its creator: the URL made from the origin of a canonical URL, with
  no escape in its host, is given that origin again.
\<close>

theorem blob_public_origin:
  fixes new :: nat
  assumes "canonical_parts p" "tuple_scheme e (p_scheme p)" "port_reads (p_port p) n"
    and "\<not> shouldTreatURLSchemeAsLocal (se_icu e) (se_schemes e) (p_scheme p)" "37 \<notin> set (p_host p)"
    and "list_all (\<lambda>c. alpha c \<or> digit c \<or> c = 45) uuid" "length (print_url p) < 2 ^ 29"
  defines "o1 \<equiv> create_origin e new (parse (print_url p))"
  assumes "se_originMap e (m_string (createPublicURL uuid True o1)) = None"
  shows "create_origin e new (createPublicURL uuid True o1) = o1"
proof -
  define m where "m = origin_port e (p_scheme p) n"
  have o: "o1 = tuple_origin e new (p_scheme p) (p_host p) m (p_path p)"
    unfolding o1_def m_def by (rule create_origin_print [OF assms(1-3)])
  have str: "so_toString o1 = print_url (origin_parts (p_scheme p) (p_host p) (port_text m) [])"
    unfolding o by (rule so_toString_tuple [OF canonical_not_file [OF assms(1)]])
  have reads: "port_reads (port_text m) m" unfolding m_def by (rule port_reads_text [OF origin_port_le [OF assms(3)]])
  define q where "q = origin_parts (p_scheme p) (p_host p) (port_text m) (47 # uuid)"
  have inner: "print_url q = so_toString o1 @ lit ''/'' @ uuid"
    unfolding q_def str print_origin_parts by (simp add: lit_def)
  have dig: "list_all isASCIIDigit (port_text m)" by (rule port_reads_digits [OF reads])
  note pl = plain_origin [OF assms(1,5) dig assms(6), folded q_def]
  have "length (port_text m) \<le> length (p_port p)"
    using assms(3) by (auto simp: port_text_def m_def origin_port_def port_reads_def)
  then have "length (so_toString o1) \<le> length (print_url p)"
    by (cases "p_port p") (simp_all add: str origin_parts_def print_userinfo_def print_url_def print_port_def)
  then have url: "createPublicURL uuid True o1 = parse (lit ''blob:'' @ print_url q)"
    using pl(2) assms(7) by (simp add: createPublicURL_def createBlobURL_def inner encode_plain [folded str] str [symmetric])
  define w where "w = parse (print_url q)"
  have "copyASCII (print_url q) = print_url q"
    using pl(1) plain_keeps by (fastforce simp: copyASCII_def list_all_iff intro!: map_idI)
  then have w: "w = parse_chars (print_url q) (Some (print_url q))" by (simp add: w_def parse_def)
  have rd: "readable_parts q" unfolding q_def by (rule readable_blob_inner [OF assms(1,3) _ assms(6)]) (use reads in \<open>simp add: m_def\<close>)
  have wo: "create_origin e new w = o1"
    using create_origin_readable [OF rd, of e m new] assms(2,4) reads by (simp add: w q_def o tuple_origin_def m_def)
  have hd: "print_url q \<noteq> [] \<and> hd (print_url q) \<noteq> 47"
    using assms(1) by (cases "p_scheme p") (auto simp: q_def print_origin_parts canonical_parts_def char_class alpha_def)
  note b = parse_blob [OF pl(1) conjunct1 [OF hd] conjunct2 [OF hd]]
  have blob: "list_all (\<lambda>c. isSchemeChar c \<and> \<not> isASCIIUpper c) (lit ''blob'')" "list_all (\<lambda>c. c \<noteq> 0) (lit ''blob'')" by code_simp+
  have "37 \<notin> set (print_url q)" using pl(1) by (auto simp: list_all_iff dest: plain_keeps)
  then have "extractInnerURL e (createPublicURL uuid True o1) = w"
    unfolding extractInnerURL_def url b path_write_url w_def by (simp add: decode_no_percent)
  moreover have "m_isValid (createPublicURL uuid True o1)" "url_protocolIs (createPublicURL uuid True o1) (lit ''blob'')"
    unfolding url b by (simp add: write_url_ends, simp add: url_protocolIs_write [OF blob])
  moreover have "m_isValid w" "\<not> url_protocolIs w (lit ''blob'')"
    using rd assms(2) blob(2) unfolding w parse_print_readable [OF rd]
    by (simp add: write_url_ends, subst url_protocolIs_write) (simp_all add: readable_parts_def q_def tuple_scheme_def)
  moreover have "\<not> so_isUnique o1" by (simp add: o)
  ultimately show ?thesis using create_origin_inner [of "createPublicURL uuid True o1" e w new] assms(9) wo by simp
qed

theorem blob_public_origin_witness:
  "create_origin sample_env 1 (createPublicURL (lit ''ab-1'') True (create_origin sample_env 1 (parse (print_url sample_parts))))
   = create_origin sample_env 1 (parse (print_url sample_parts))"
proof -
  have "37 \<notin> set (lit ''a.org'')" "list_all (\<lambda>c. alpha c \<or> digit c \<or> c = 45) (lit ''ab-1'')" by code_simp+
  moreover have "length (print_url sample_parts) < 2 ^ 29"
    by (simp add: sample_parts_def print_url_def print_userinfo_def print_port_def lit_def)
  moreover have "se_originMap sample_env s = None" for s by (simp add: sample_env_def)
  ultimately show ?thesis
    using blob_public_origin [OF sample_parts_canonical, of sample_env 81 "lit ''ab-1''" 1] sample_scheme
    by (simp add: sample_parts_def port_reads_def) (simp add: sample_env_def)
qed

section \<open>Where the code and its comments part\<close>

text \<open>
  The white list of a file origin with path separation is kept under the string of every
  unique origin, which then may display what the file may.
\<close>

lemma null_whitelist_shared:
  "so_toString (enforceFilePathSeparation (tuple_origin sample_env 1 (lit ''file'') [] 0 [])) = lit ''null''
   \<and> isAccessWhiteListed
      (addOriginAccessWhitelistEntry (enforceFilePathSeparation (tuple_origin sample_env 1 (lit ''file'') [] 0 []))
        (lit ''http'') (lit ''b.org'') False sample_env)
      (SecurityOrigin_unique 2) (tuple_origin sample_env 3 (lit ''http'') (lit ''b.org'') 0 [])"
  by code_simp

text \<open>The URL inside a blob URL is not checked: \<open>blob:null/1\<close> has an origin that is not unique.\<close>

lemma blob_null_not_unique:
  "\<not> so_isUnique (create_origin sample_env 1 (parse (lit ''blob:null/1'')))
   \<and> canAccess sample_env (create_origin sample_env 1 (parse (lit ''blob:null/1''))) (create_origin sample_env 2 (parse (lit ''blob:null/2'')))"
  by code_simp

text \<open>Two unique origins are equal, and every unique origin is empty.\<close>

lemma unique_origins_equal:
  "so_equal e (SecurityOrigin_unique x) (SecurityOrigin_unique y)" "so_isEmpty (SecurityOrigin_unique x)"
  by (simp_all add: so_equal_def isSameSchemeHostPort_def passesFileCheck_def SecurityOrigin_unique_def so_isEmpty_def)

text \<open>A local origin may not script a document of another scheme.\<close>

lemma local_cannot_script:
  "so_isLocal sample_env (create_origin sample_env 1 (parse (lit ''file:///a'')))
   \<and> \<not> canAccess sample_env (create_origin sample_env 1 (parse (lit ''file:///a''))) (create_origin sample_env 2 (parse (lit ''http://a/'')))"
  by code_simp

end
