(* ===== verification/Stream_Buffer.thy ===== *)
theory Stream_Buffer
  imports Prelude
begin

text \<open>
  The buffer of pending output, \<open>WTF/wtf/StreamBuffer.h\<close>: blocks of a fixed size with an
  offset into the first one. It implements the queue contract \<open>byte_queue\<close>.
\<close>

section \<open>Blocks\<close>

record 'a stream_buffer =
  sb_size :: nat
  sb_readOffset :: nat
  sb_blocks :: "'a list list"

definition empty_buffer :: "'a stream_buffer" where
  "empty_buffer = \<lparr>sb_size = 0, sb_readOffset = 0, sb_blocks = []\<rparr>"

definition sb_isEmpty :: "'a stream_buffer \<Rightarrow> bool" where
  "sb_isEmpty b \<longleftrightarrow> sb_size b = 0"

text \<open>
  The loop of \<open>append\<close>: the last block is filled, then new blocks are added. A block is
  never longer than the block size, which is positive.
\<close>

function fill_blocks :: "nat \<Rightarrow> 'a list list \<Rightarrow> 'a list \<Rightarrow> 'a list list" where
  "fill_blocks blockSize blocks data =
     (if data = [] \<or> blockSize = 0 then blocks
      else
        let blocks' = (if blocks = [] \<or> length (last blocks) \<ge> blockSize then blocks @ [[]] else blocks);
            appendSize = min (blockSize - length (last blocks')) (length data) in
        fill_blocks blockSize (butlast blocks' @ [last blocks' @ take appendSize data]) (drop appendSize data))"
  by pat_completeness auto
termination
  by (relation "measure (\<lambda>(blockSize, blocks, data). length data)") (auto simp: Let_def split: if_splits)

declare fill_blocks.simps [simp del]

definition sb_append :: "nat \<Rightarrow> 'a list \<Rightarrow> 'a stream_buffer \<Rightarrow> 'a stream_buffer" where
  "sb_append blockSize data b =
     (if data = [] then b
      else b\<lparr>sb_size := sb_size b + length data, sb_blocks := fill_blocks blockSize (sb_blocks b) data\<rparr>)"

definition consume :: "nat \<Rightarrow> 'a stream_buffer \<Rightarrow> 'a stream_buffer" where
  "consume n b =
     (if sb_size b = 0 then b
      else
        let b' = b\<lparr>sb_readOffset := sb_readOffset b + n, sb_size := sb_size b - n\<rparr> in
        if sb_readOffset b' \<ge> length (hd (sb_blocks b'))
        then b'\<lparr>sb_readOffset := 0, sb_blocks := tl (sb_blocks b')\<rparr> else b')"

text \<open>\<open>firstBlockData\<close> and \<open>firstBlockSize\<close>, as the data they give.\<close>

definition firstBlock :: "'a stream_buffer \<Rightarrow> 'a list" where
  "firstBlock b = (if sb_size b = 0 then [] else drop (sb_readOffset b) (hd (sb_blocks b)))"

section \<open>A queue\<close>

definition contents :: "'a stream_buffer \<Rightarrow> 'a list" where
  "contents b = drop (sb_readOffset b) (concat (sb_blocks b))"

definition sb_ok :: "nat \<Rightarrow> 'a stream_buffer \<Rightarrow> bool" where
  "sb_ok blockSize b \<longleftrightarrow> sb_size b = length (contents b) \<and> 0 < blockSize
     \<and> (\<forall>x\<in>set (sb_blocks b). x \<noteq> [] \<and> length x \<le> blockSize)
     \<and> (if sb_blocks b = [] then sb_readOffset b = 0 else sb_readOffset b < length (hd (sb_blocks b)))"

text \<open>
  The contract of the buffer: what is appended comes out in order, the first block is what
  comes out first and is only empty when nothing is left, and part of it can be consumed.
\<close>

locale byte_queue =
  fixes ok :: "'q \<Rightarrow> bool" and elems :: "'q \<Rightarrow> 'a list" and put :: "'a list \<Rightarrow> 'q \<Rightarrow> 'q"
    and front :: "'q \<Rightarrow> 'a list" and discard :: "nat \<Rightarrow> 'q \<Rightarrow> 'q"
  assumes put_ok: "ok q \<Longrightarrow> ok (put xs q) \<and> elems (put xs q) = elems q @ xs"
    and front_elems: "ok q \<Longrightarrow> front q = [] \<longleftrightarrow> elems q = []" "ok q \<Longrightarrow> \<exists>rest. elems q = front q @ rest"
    and discard_ok: "ok q \<Longrightarrow> n \<le> length (front q) \<Longrightarrow> ok (discard n q) \<and> elems (discard n q) = drop n (elems q)"
begin

lemma front_take: "ok q \<Longrightarrow> front q = take (length (front q)) (elems q)"
  using front_elems(2) [of q] by auto

lemma discard_shorter: "ok q \<Longrightarrow> 0 < n \<Longrightarrow> n \<le> length (front q) \<Longrightarrow> length (elems (discard n q)) < length (elems q)"
  using discard_ok [of q n] front_elems(2) [of q] by auto

lemma put_discard:
  "ok q \<Longrightarrow> n \<le> length (front q) \<Longrightarrow> elems (put xs (discard n q)) = drop n (elems q) @ xs"
  using discard_ok [of q n] put_ok by auto

end

definition fill_last :: "nat \<Rightarrow> 'a list list \<Rightarrow> 'a list list" where
  "fill_last blockSize blocks = (if blocks = [] \<or> length (last blocks) \<ge> blockSize then blocks @ [[]] else blocks)"

lemma fill_blocks_step:
  assumes "data \<noteq> []" "0 < blockSize" "b = fill_last blockSize blocks" "n = min (blockSize - length (last b)) (length data)"
  shows "fill_blocks blockSize blocks data = fill_blocks blockSize (butlast b @ [last b @ take n data]) (drop n data)"
  unfolding assms(3,4) fill_last_def using assms(1,2) by (subst fill_blocks.simps) (simp add: Let_def)

lemma fill_last_ok: "b = fill_last blockSize blocks \<Longrightarrow> 0 < blockSize \<Longrightarrow> b \<noteq> [] \<and> concat b = concat blocks \<and> length (last b) < blockSize"
  by (auto simp: fill_last_def)

lemma concat_fill_blocks:
  "0 < blockSize \<Longrightarrow> concat (fill_blocks blockSize blocks data) = concat blocks @ data"
proof (induction "length data" arbitrary: blocks data rule: less_induct)
  case less
  show ?case
  proof (cases "data = []")
    case False
    define b where "b = fill_last blockSize blocks"
    define n where "n = min (blockSize - length (last b)) (length data)"
    note b = fill_last_ok [OF b_def less.prems]
    have "0 < n" using b False by (simp add: n_def)
    then have "concat (fill_blocks blockSize (butlast b @ [last b @ take n data]) (drop n data))
        = concat (butlast b @ [last b @ take n data]) @ drop n data"
      using False less.prems by (intro less.hyps) simp_all
    moreover have "concat b = concat (butlast b) @ last b"
      using b concat_append [of "butlast b" "[last b]"] by simp
    ultimately show ?thesis
      using b unfolding fill_blocks_step [OF False less.prems b_def n_def] by simp
  qed (simp add: fill_blocks.simps)
qed

lemma fill_blocks_ok:
  "0 < blockSize \<Longrightarrow> \<forall>x\<in>set blocks. x \<noteq> [] \<and> length x \<le> blockSize \<Longrightarrow>
     \<forall>x\<in>set (fill_blocks blockSize blocks data). x \<noteq> [] \<and> length x \<le> blockSize"
proof (induction "length data" arbitrary: blocks data rule: less_induct)
  case less
  show ?case
  proof (cases "data = []")
    case False
    define b where "b = fill_last blockSize blocks"
    define n where "n = min (blockSize - length (last b)) (length data)"
    note b = fill_last_ok [OF b_def less.prems(1)]
    have "0 < n" using b False by (simp add: n_def)
    have "set (butlast b) \<subseteq> set blocks" by (auto simp: b_def fill_last_def dest: in_set_butlastD)
    moreover have "last b @ take n data \<noteq> [] \<and> length (last b @ take n data) \<le> blockSize"
      using b False \<open>0 < n\<close> by (auto simp: n_def)
    ultimately have "\<forall>x\<in>set (butlast b @ [last b @ take n data]). x \<noteq> [] \<and> length x \<le> blockSize"
      using less.prems(2) by (simp add: subset_iff)
    moreover have "length (drop n data) < length data" using \<open>0 < n\<close> False by simp
    ultimately show ?thesis
      unfolding fill_blocks_step [OF False less.prems(1) b_def n_def] using less.hyps less.prems(1) by blast
  qed (use less.prems in \<open>simp add: fill_blocks.simps\<close>)
qed

lemma fill_blocks_hd:
  "0 < blockSize \<Longrightarrow> blocks \<noteq> [] \<Longrightarrow> length (hd blocks) \<le> length (hd (fill_blocks blockSize blocks data))"
proof (induction "length data" arbitrary: blocks data rule: less_induct)
  case less
  show ?case
  proof (cases "data = []")
    case False
    define b where "b = fill_last blockSize blocks"
    define n where "n = min (blockSize - length (last b)) (length data)"
    define b' where "b' = butlast b @ [last b @ take n data]"
    note b = fill_last_ok [OF b_def less.prems(1)]
    have "0 < n" using b False by (simp add: n_def)
    obtain x xs where x: "blocks = x # xs" using less.prems(2) by (cases blocks) auto
    have "length (hd blocks) \<le> length (hd b')"
      by (cases "length (last blocks) \<ge> blockSize"; cases xs) (simp_all add: b'_def b_def fill_last_def x)
    also have "\<dots> \<le> length (hd (fill_blocks blockSize b' (drop n data)))"
      using \<open>0 < n\<close> False less.prems(1) by (intro less.hyps) (simp_all add: b'_def)
    finally show ?thesis unfolding fill_blocks_step [OF False less.prems(1) b_def n_def] b'_def .
  qed (simp add: fill_blocks.simps)
qed

interpretation stream_queue: byte_queue "sb_ok blockSize" contents "sb_append blockSize" firstBlock consume
proof
  fix b :: "'a stream_buffer" and xs :: "'a list" and n
  assume ok: "sb_ok blockSize b"
  show "sb_ok blockSize (sb_append blockSize xs b) \<and> contents (sb_append blockSize xs b) = contents b @ xs"
  proof (cases "xs = []")
    case False
    have c: "concat (fill_blocks blockSize (sb_blocks b) xs) = concat (sb_blocks b) @ xs"
      using ok by (intro concat_fill_blocks) (simp add: sb_ok_def)
    have off: "sb_readOffset b \<le> length (concat (sb_blocks b))"
      using ok by (cases "sb_blocks b") (auto simp: sb_ok_def)
    have ne: "fill_blocks blockSize (sb_blocks b) xs \<noteq> []" using c False by auto
    have "sb_readOffset b < length (hd (fill_blocks blockSize (sb_blocks b) xs))"
    proof (cases "sb_blocks b = []")
      case True
      have "hd (fill_blocks blockSize (sb_blocks b) xs) \<noteq> []"
        using fill_blocks_ok [of blockSize "sb_blocks b" xs] ok ne by (simp add: sb_ok_def)
      then show ?thesis using True ok by (simp add: sb_ok_def)
    next
      case n: False
      then show ?thesis using fill_blocks_hd [OF _ n, of blockSize xs] ok by (simp add: sb_ok_def)
    qed
    then show ?thesis
      using ok False c off ne fill_blocks_ok [of blockSize "sb_blocks b" xs]
      by (simp add: sb_ok_def sb_append_def contents_def)
  qed (use ok in \<open>simp add: sb_append_def\<close>)
  have fr: "sb_size b \<noteq> 0 \<Longrightarrow> \<exists>x xs. sb_blocks b = x # xs \<and> sb_readOffset b < length x"
    using ok by (cases "sb_blocks b") (auto simp: sb_ok_def contents_def)
  show "firstBlock b = [] \<longleftrightarrow> contents b = []"
    using ok fr by (cases "sb_size b = 0") (auto simp: firstBlock_def contents_def sb_ok_def)
  show "\<exists>rest. contents b = firstBlock b @ rest"
    using ok fr by (cases "sb_size b = 0") (auto simp: firstBlock_def contents_def sb_ok_def)
  assume n: "n \<le> length (firstBlock b)"
  show "sb_ok blockSize (consume n b) \<and> contents (consume n b) = drop n (contents b)"
  proof (cases "sb_size b = 0")
    case False
    then obtain x xs where x: "sb_blocks b = x # xs" "sb_readOffset b < length x" using fr by blast
    have le: "sb_readOffset b + n \<le> length x" using n x False by (simp add: firstBlock_def)
    have sz: "sb_size b = length x - sb_readOffset b + length (concat xs)"
      using ok x by (simp add: sb_ok_def contents_def)
    show ?thesis
      using ok x le sz False
      by (cases "sb_readOffset b + n < length x"; cases xs) (auto simp: consume_def sb_ok_def contents_def Let_def add.commute [of n])
  qed (use ok in \<open>simp add: consume_def sb_ok_def\<close>)
qed

end
