(* ===== verification/Web_Socket_Session.thy ===== *)
theory Web_Socket_Session
  imports Web_Socket_Channel
begin

text \<open>
  What a session does: the receive loop ends, messages arrive complete and in order however
  the stream is cut, and the client is called according to its interface. The relations the
  operations keep are shown once, in \<open>channel_moves\<close>. The last section has the places where
  the code differs from what it means to do.
\<close>

section \<open>What the operations may change\<close>

text \<open>
  The operations below the receive loop are built from a few moves on what is seen of a
  channel: its receive buffer, its client, the calls to the client and the mode of the handshake. A
  relation that allows these moves holds along all of these operations.
\<close>

definition same_view :: "ws_channel \<Rightarrow> ws_channel \<Rightarrow> bool" where
  "same_view s s' \<longleftrightarrow> wc_buffer s' = wc_buffer s \<and> wc_calls s' = wc_calls s \<and> wc_client s' = wc_client s
     \<and> wc_handshakeMode s' = wc_handshakeMode s"

definition notice :: "client_call \<Rightarrow> bool" where
  "notice c \<longleftrightarrow> c \<in> {DidReceiveMessageError, DidStartClosingHandshake} \<or> (\<exists>n. c = DidUpdateBufferedAmount n)"

locale channel_moves =
  fixes R :: "ws_channel \<Rightarrow> ws_channel \<Rightarrow> bool"
  assumes trans: "R s t \<Longrightarrow> R t u \<Longrightarrow> R s u"
    and view: "same_view s t \<Longrightarrow> R s t"
    and discard: "R s (s\<lparr>wc_buffer := drop n (wc_buffer s)\<rparr>)"
    and call: "wc_client s \<Longrightarrow> notice c \<Longrightarrow> R s (s\<lparr>wc_calls := wc_calls s @ [c]\<rparr>)"
    and leave: "R s (s\<lparr>wc_client := False\<rparr>)"
    and close: "wc_client s \<Longrightarrow> R s (s\<lparr>wc_client := False, wc_calls := wc_calls s @ [DidClose n b code reason]\<rparr>)"
begin

lemma then_view: "R s t \<Longrightarrow> same_view t u \<Longrightarrow> R s u"
  using trans view by blast

lemma R_call_client: "notice c \<Longrightarrow> R s (call_client c s)"
  using call [of s c] view [of s "s\<lparr>wc_crashed := True\<rparr>"] by (simp add: call_client_def same_view_def)

lemma R_tell_client: "notice c \<Longrightarrow> R s (tell_client c s)"
  using call [of s c] view [of s s] by (simp add: tell_client_def same_view_def)

lemma R_fail_receiving: "R s (fail_receiving reason s)"
proof -
  define t where "t = (if wc_document s then s\<lparr>wc_console := wc_console s @ [reason]\<rparr> else s)\<lparr>wc_shouldDiscardReceivedData := True\<rparr>"
  define u where "u = (if wc_buffer t \<noteq> [] then skipBuffer (length (wc_buffer t)) t else t)"
  define v where "v = u\<lparr>wc_deflateFramer := framer_didFail (wc_deflateFramer u), wc_hasContinuousFrame := False,
    wc_continuousFrameData := []\<rparr>"
  have "R s t" by (rule view) (simp add: same_view_def t_def)
  then have "R s u" using trans [OF _ discard [of t "length (wc_buffer t)"]] by (simp add: u_def skipBuffer_def)
  then have "R s v" by (rule then_view) (simp add: same_view_def v_def)
  moreover have "fail_receiving reason s = call_client DidReceiveMessageError v"
    unfolding fail_receiving_def Let_def v_def u_def t_def ..
  ultimately show ?thesis using R_call_client [of DidReceiveMessageError v] trans by (simp add: notice_def)
qed

lemma R_abort: "R s (abortOutgoingFrameQueue s)"
proof -
  define t where "t = s\<lparr>wc_outgoingFrameQueue := [], wc_outgoingFrameQueueStatus := OutgoingFrameQueueClosed\<rparr>"
  define u where "u = t\<lparr>wc_blobLoaderStatus := BlobLoaderFailed\<rparr>"
  have "R s t" "R s u" by (rule view, simp add: same_view_def t_def u_def)+
  then show ?thesis
    using trans [OF _ R_fail_receiving] unfolding abortOutgoingFrameQueue_def Let_def t_def [symmetric] u_def [symmetric] by simp
qed

lemma R_didCloseSocketStream: "R s (didCloseSocketStream s)"
proof -
  define t where "t = s\<lparr>wc_closed := True, wc_closingTimer := False\<rparr>"
  define u where "u = (if wc_outgoingFrameQueueStatus t \<noteq> OutgoingFrameQueueClosed then abortOutgoingFrameQueue t else t)"
  define v where "v = u\<lparr>wc_unhandledBufferedAmount := bufferedAmount u, wc_document := False, wc_handle := False\<rparr>"
  have "R s t" by (rule view) (simp add: same_view_def t_def)
  then have u: "R s u" using trans [OF _ R_abort] by (simp add: u_def)
  then have v: "R s v" by (rule then_view) (simp add: same_view_def v_def)
  have w: "R s (u\<lparr>wc_unhandledBufferedAmount := bufferedAmount u\<rparr>)" using u by (rule then_view) (simp add: same_view_def)
  show ?thesis
  proof (cases "wc_handle u \<and> \<not> wc_suspended u")
    case True
    then have "didCloseSocketStream s = (if wc_client v
        then v\<lparr>wc_client := False, wc_calls := wc_calls v @ [DidClose (wc_unhandledBufferedAmount v) (wc_receivedClosingHandshake v)
           (wc_closeEventCode v) (wc_closeEventReason v)]\<rparr> else v\<lparr>wc_client := False\<rparr>)"
      unfolding didCloseSocketStream_def Let_def t_def [symmetric] u_def [symmetric] by (simp add: v_def)
    then show ?thesis using trans [OF v close] trans [OF v leave] by simp
  next
    case False
    then show ?thesis unfolding didCloseSocketStream_def Let_def t_def [symmetric] u_def [symmetric] using u w by auto
  qed
qed

lemma R_handle_disconnect: "R s (handle_disconnect s)"
proof -
  define t where "t = s\<lparr>wc_socket := (wc_socket s)\<lparr>sh_active := False, sh_waiting := False, sh_connected := False\<rparr>\<rparr>"
  have "R s t" by (rule view) (simp add: same_view_def t_def)
  then have "R s (didCloseSocketStream t)" using R_didCloseSocketStream trans by blast
  then show ?thesis unfolding handle_disconnect_def platformClose_def Let_def t_def [symmetric]
    by (rule then_view) (simp add: same_view_def)
qed

lemma R_ws_fail: "R s (ws_fail reason s)"
  using R_fail_receiving [of s reason] trans [OF _ R_handle_disconnect] by (simp add: ws_fail_def Let_def)

lemma R_handle_close: "R s (handle_close s)"
proof -
  define t where "t = s\<lparr>wc_socket := (wc_socket s)\<lparr>sh_state := SocketClosing\<rparr>\<rparr>"
  have "R s t" by (rule view) (simp add: same_view_def t_def)
  then show ?thesis
    unfolding handle_close_def Let_def t_def [symmetric]
    using trans [OF _ R_handle_disconnect] view [of s s] by (simp add: same_view_def)
qed

lemma R_didFailSocketStream: "R s (didFailSocketStream s)"
  unfolding didFailSocketStream_def by (rule trans [OF view R_handle_disconnect]) (simp add: same_view_def)

lemma R_platformSend: "R s (snd (platformSend data s))"
proof (cases "sh_connected (wc_socket s)")
  case True
  define t where "t = s\<lparr>wc_socket := (wc_socket s)\<lparr>sh_network := tl (sh_network (wc_socket s))\<rparr>\<rparr>"
  have "R s t" by (rule view) (simp add: same_view_def t_def)
  then show ?thesis
    unfolding platformSend_def Let_def t_def [symmetric] using True trans [OF _ R_didFailSocketStream]
    by (auto simp: same_view_def split: write_result.splits intro: then_view)
qed (simp add: platformSend_def view same_view_def)

lemma R_append_pending: "R s (append_pending data s)"
  unfolding append_pending_def Let_def
  by (rule trans [OF view R_tell_client]) (simp_all add: same_view_def notice_def)

lemma R_handle_send: "R s (snd (handle_send data s))"
proof -
  define r where "r = (if sh_state (wc_socket s) = SocketOpen then platformSend data s else (0, s))"
  have refl: "R s s" by (rule view) (simp add: same_view_def)
  then have "R s (snd r)" using R_platformSend by (simp add: r_def)
  with refl R_append_pending trans [OF this R_append_pending] show ?thesis
    unfolding handle_send_def r_def [symmetric] by (simp add: Let_def split_beta)
qed

lemma R_sendFrame: "R s (snd (sendFrame e opCode data s))"
proof -
  obtain result d where d: "deflate (we_zlib e) (WebSocketFrame opCode True False True data) (wc_deflateFramer s) = (result, d)"
    by fastforce
  define t where "t = s\<lparr>wc_deflateFramer := d\<rparr>"
  define u where "u = t\<lparr>wc_keys := Suc (wc_keys t)\<rparr>"
  have t: "R s t" and u: "R s u" by (rule view, simp add: same_view_def t_def u_def)+
  have "R s (u\<lparr>wc_crashed := True\<rparr>)" by (rule then_view [OF u]) (simp add: same_view_def)
  moreover have "wc_keys t = wc_keys s" by (simp add: t_def)
  ultimately show ?thesis
    using trans [OF t R_ws_fail] trans [OF u R_handle_send] u_def
    by (cases result) (simp_all add: sendFrame_def d t_def [symmetric] Let_def)
qed

lemma R_sent_or_fail: "R s (sent_or_fail (sendFrame e opCode data s))"
  using R_sendFrame [of s e opCode data] trans [OF _ R_ws_fail] by (simp add: sent_or_fail_def)

lemma R_queue_done: "R s (queue_done s)"
proof -
  define t where "t = s\<lparr>wc_outgoingFrameQueueStatus := OutgoingFrameQueueClosed\<rparr>"
  have t: "R s t" by (rule view) (simp add: same_view_def t_def)
  have "R s (t\<lparr>wc_crashed := True\<rparr>)" by (rule then_view [OF t]) (simp add: same_view_def)
  then show ?thesis
    unfolding queue_done_def Let_def t_def [symmetric] using trans [OF t R_handle_close] view [of s s] by (simp add: same_view_def)
qed

lemma R_process_queue: "R s (process_queue e s)"
proof (induction e s rule: process_queue.induct)
  case (1 e s)
  have step: "R s (sent_or_fail (sendFrame e opCode data t))" if "same_view s t" for opCode data t
    using trans [OF view [OF that] R_sent_or_fail] .
  show ?case
  proof (cases "wc_outgoingFrameQueue s")
    case Nil
    then show ?thesis using R_queue_done by (simp add: process_queue.simps [of e s])
  next
    case (Cons frame rest)
    show ?thesis
    proof (cases frame)
      case (QueuedFrameTypeString opCode data)
      then show ?thesis
        using Cons trans [OF step "1.IH"(1) [OF Cons]] by (simp add: process_queue.simps [of e s] same_view_def)
    next
      case (QueuedFrameTypeVector opCode data)
      then show ?thesis
        using Cons trans [OF step "1.IH"(2) [OF Cons]] by (simp add: process_queue.simps [of e s] same_view_def)
    next
      case (QueuedFrameTypeBlob opCode blob)
      then show ?thesis
        using Cons trans [OF step "1.IH"(3) [OF Cons]] view [of s]
        by (cases "wc_blobLoaderStatus s") (simp_all add: process_queue.simps [of e s] same_view_def)
    qed
  qed
qed

lemma R_processOutgoing: "R s (processOutgoingFrameQueue e s)"
  using R_process_queue view [of s s] by (simp add: processOutgoingFrameQueue_def same_view_def)

lemma R_enqueued: "R s (processOutgoingFrameQueue e (enqueue frame s))"
  by (rule trans [OF view R_processOutgoing]) (simp add: same_view_def enqueue_def)

lemma R_startClosingHandshake: "R s (startClosingHandshake e is8Bit code reason s)"
proof -
  have "R s (tell_client DidStartClosingHandshake (t\<lparr>wc_closing := True\<rparr>))" if "R s t" for t
    by (rule trans [OF then_view [OF that] R_tell_client]) (simp_all add: same_view_def notice_def)
  then show ?thesis
    using R_enqueued [of s e] view [of s s] by (simp add: startClosingHandshake_def enqueueRawFrame_def same_view_def Let_def)
qed

lemma R_send_blocks: "R s (snd (send_blocks s))"
proof (induction s rule: send_blocks.induct)
  case (1 s)
  define p where "p = platformSend (firstBlock (sh_buffer (wc_socket s))) s"
  define t where "t = consume_pending (fst p) (snd p)"
  have p: "R s (snd p)" unfolding p_def by (rule R_platformSend)
  then have t: "R s t" by (rule then_view) (simp add: same_view_def t_def consume_pending_def)
  have "R s (tell_client (DidUpdateBufferedAmount (bufferedAmount t)) t)"
    by (rule trans [OF t R_tell_client]) (simp add: notice_def)
  moreover have "send_blocks s = (if fst p = 0 then (False, snd p)
      else if fst p = length (firstBlock (sh_buffer (wc_socket s))) \<and> \<not> sb_isEmpty (sh_buffer (wc_socket t)) then send_blocks t
      else (True, tell_client (DidUpdateBufferedAmount (bufferedAmount t)) t))"
    unfolding t_def p_def by (subst send_blocks.simps) (simp only: Let_def)
  ultimately show ?case
    using p trans [OF t "1.IH" [folded p_def, OF _ refl t_def]] by simp
qed

end

section \<open>The receive loop ends\<close>

definition not_longer :: "ws_channel \<Rightarrow> ws_channel \<Rightarrow> bool" where
  "not_longer s s' \<longleftrightarrow> length (wc_buffer s') \<le> length (wc_buffer s)"

interpretation shrinking: channel_moves not_longer
  by unfold_locales (auto simp: not_longer_def same_view_def)

lemmas shrinks = shrinking.R_ws_fail shrinking.R_enqueued shrinking.R_processOutgoing shrinking.R_startClosingHandshake

lemma call_client_buffer [simp]: "wc_buffer (call_client c s) = wc_buffer s"
  by (simp add: call_client_def)

lemma deliver_text_shrinks: "not_longer s (deliver_text data s)"
  using shrinks(1) by (auto simp: deliver_text_def not_longer_def split: option.splits)

lemma handle_close_frame_shrinks:
  assumes "handle_close_frame e frame n s = (True, s')"
  shows "not_longer (skipBuffer n s) s'"
proof -
  define code where "code = (if f_payload frame = [] then CloseEventCodeNoStatusRcvd
      else unat (f_payload frame ! 0) * 256 + unat (f_payload frame ! 1))"
  define t where "t = (skipBuffer n (s\<lparr>wc_closeEventCode := code,
      wc_closeEventReason := (if length (f_payload frame) \<ge> 3 then fromUTF8 (map unat (drop 2 (f_payload frame))) else Some [])\<rparr>))
      \<lparr>wc_receivedClosingHandshake := True\<rparr>"
  define u where "u = startClosingHandshake e False (int (wc_closeEventCode t)) (wc_closeEventReason t) t"
  have s': "s' = (if wc_closing u then processOutgoingFrameQueue e (u\<lparr>wc_outgoingFrameQueueStatus := OutgoingFrameQueueClosing\<rparr>) else u)"
    using assms unfolding handle_close_frame_def Let_def u_def t_def code_def by (auto split: if_splits)
  have "not_longer t u" unfolding u_def by (rule shrinks(4))
  moreover have "not_longer u s'"
    using shrinks(3) [of "u\<lparr>wc_outgoingFrameQueueStatus := OutgoingFrameQueueClosing\<rparr>" e]
    by (simp add: s' not_longer_def)
  moreover have "wc_buffer t = wc_buffer (skipBuffer n s)" by (simp add: t_def skipBuffer_def)
  ultimately show ?thesis by (simp add: not_longer_def)
qed

lemma handle_frame_shrinks:
  assumes "handle_frame e frame n s = (True, s')"
  shows "length (wc_buffer s') \<le> length (wc_buffer s) - n"
proof -
  have "not_longer (skipBuffer n s) s'"
  proof (cases "f_opCode frame = OpCodeClose")
    case True
    then have "handle_close_frame e frame n s = (True, s')" using assms by (simp add: handle_frame_def op_codes)
    then show ?thesis by (rule handle_close_frame_shrinks)
  next
    case False
    have dt: "length (wc_buffer (deliver_text d t)) \<le> length (wc_buffer t)" for d t
      using deliver_text_shrinks by (simp add: not_longer_def)
    have ping: "length (wc_buffer (processOutgoingFrameQueue e t)) \<le> length (wc_buffer t)" for t
      using shrinks(3) by (simp add: not_longer_def)
    show ?thesis
      using assms False dt [of _ "skipBuffer n t" for t] ping [of "skipBuffer n t" for t]
      unfolding handle_frame_def not_longer_def
      by (auto simp: handle_continuation_def handle_text_def handle_binary_def handle_ping_def start_continuous_def skipBuffer_def
          enqueueRawFrame_def enqueue_def Let_def split: if_splits intro: order_trans [OF dt] order_trans [OF ping])
  qed
  then show ?thesis by (simp add: not_longer_def skipBuffer_def)
qed

lemma processBuffer_shrinks:
  assumes "processBuffer e s = (True, s')" "wc_buffer s \<noteq> []"
  shows "length (wc_buffer s') < length (wc_buffer s)"
proof (cases "wc_handshakeMode s = Incomplete")
  case True
  then show ?thesis
    using assms by (auto simp: processBuffer_def skipBuffer_def Let_def split: prod.splits if_splits)
next
  case False
  then have "processFrame e s = (True, s')" using assms(1) by (auto simp: processBuffer_def split: if_splits)
  then obtain frame0 n frame d where p: "parseFrame (wc_buffer s) = FrameOK frame0 n"
    and h: "handle_frame e frame n (s\<lparr>wc_deflateFramer := d\<rparr>) = (True, s')"
    unfolding processFrame_def Let_def by (auto split: ParseFrameResult.splits prod.splits sum.splits option.splits)
  have "2 \<le> n" "n \<le> length (wc_buffer s)" using parseFrame_end [OF p] by simp_all
  with handle_frame_shrinks [OF h] show ?thesis by (simp del: length_greater_0_conv)
qed

lemma receive_loop_ends: "length (wc_buffer s) \<le> fuel \<Longrightarrow> \<exists>s'. receive_loop fuel e s = Some s'"
proof (induction fuel arbitrary: s)
  case 0
  then show ?case by (subst receive_loop.simps) simp
next
  case (Suc fuel)
  obtain go t where p: "processBuffer e s = (go, t)" by fastforce
  have "\<exists>s'. receive_loop fuel e t = Some s'" if "go" "wc_buffer s \<noteq> []"
    using processBuffer_shrinks [of e s t] p that Suc by simp
  then show ?case using p by (subst receive_loop.simps) auto
qed

text \<open>
  C19: The loop that handles received data always ends: with as many rounds as there are bytes in the receive buffer
  it comes to a result, in every state and whatever the handshake, the compression and the network do.
\<close>

theorem receive_loop_terminates: "\<exists>s'. receive_loop (length (wc_buffer s)) e s = Some s'"
  by (rule receive_loop_ends) simp

section \<open>Messages\<close>

text \<open>
  The messages of a sequence of frames: \<open>cont\<close> is the kind and the data of a message whose
  first frames have come. \<^const>\<open>None\<close> is a sequence that the protocol forbids, or text that is
  not UTF-8.
\<close>

type_synonym open_message = "(byte \<times> byte list) option"

definition message_of :: "byte \<Rightarrow> byte list \<Rightarrow> client_call option" where
  "message_of opCode data =
     (if opCode = OpCodeText then map_option DidReceiveMessage (text_message data) else Some (DidReceiveBinaryData data))"

definition frame_step :: "open_message \<Rightarrow> ws_frame \<Rightarrow> (client_call list \<times> open_message) option" where
  "frame_step cont f =
     (if f_opCode f = OpCodePong then if f_final f \<and> length (f_payload f) \<le> 125 then Some ([], cont) else None
      else if f_opCode f = OpCodeContinuation then
        (case cont of None \<Rightarrow> None
         | Some (opCode, data) \<Rightarrow>
             if f_final f then map_option (\<lambda>c. ([c], None)) (message_of opCode (data @ f_payload f))
             else Some ([], Some (opCode, data @ f_payload f)))
      else if (f_opCode f = OpCodeText \<or> f_opCode f = OpCodeBinary) \<and> cont = None then
        if f_final f then map_option (\<lambda>c. ([c], None)) (message_of (f_opCode f) (f_payload f))
        else Some ([], Some (f_opCode f, f_payload f))
      else None)"

fun frames_run :: "open_message \<Rightarrow> ws_frame list \<Rightarrow> (client_call list \<times> open_message) option" where
  "frames_run cont [] = Some ([], cont)"
| "frames_run cont (f # fs) =
     (case frame_step cont f of None \<Rightarrow> None
      | Some (cs, cont') \<Rightarrow> map_option (\<lambda>(ds, cont''). (cs @ ds, cont'')) (frames_run cont' fs))"

definition plain_frame :: "ws_frame \<Rightarrow> bool" where
  "plain_frame f \<longleftrightarrow> \<not> f_masked f \<and> \<not> f_compress f \<and> \<not> f_reserved2 f \<and> \<not> f_reserved3 f \<and> length (f_payload f) < 2 ^ 63"

definition frame_bytes :: "ws_frame \<Rightarrow> byte list" where
  "frame_bytes f = makeFrameData [0, 0, 0, 0] f"

text \<open>A connected channel without compression that is waiting for data, inside a message or not.\<close>

definition receiving :: "open_message \<Rightarrow> ws_channel \<Rightarrow> bool" where
  "receiving cont s \<longleftrightarrow> wc_document s \<and> wc_client s \<and> \<not> wc_suspended s \<and> \<not> wc_shouldDiscardReceivedData s
     \<and> \<not> wc_receivedClosingHandshake s \<and> wc_handshakeMode s = Connected \<and> \<not> df_enabled (wc_deflateFramer s)
     \<and> (case cont of None \<Rightarrow> \<not> wc_hasContinuousFrame s \<and> wc_continuousFrameData s = []
        | Some (opCode, data) \<Rightarrow> wc_hasContinuousFrame s \<and> wc_continuousFrameOpCode s = opCode \<and> wc_continuousFrameData s = data
            \<and> (opCode = OpCodeText \<or> opCode = OpCodeBinary))"

lemma frame_bytes_nonempty [simp]: "frame_bytes f \<noteq> []"
  by (simp add: frame_bytes_def makeFrameData_split)

lemma data_op_codes: "frame_step cont f \<noteq> None \<Longrightarrow> take_bit 4 (f_opCode f) = f_opCode f"
  by (auto simp: frame_step_def op_codes split: if_splits)

lemma parse_frame_bytes:
  assumes "plain_frame f" "frame_step cont f \<noteq> None"
  shows "parseFrame (frame_bytes f @ rest) = FrameOK f (length (frame_bytes f))"
  using parseFrame_made [of "[0, 0, 0, 0]" f rest] data_op_codes [OF assms(2)] assms(1)
  by (simp add: frame_bytes_def plain_frame_def)

lemma parse_frame_prefix:
  assumes "plain_frame f" "frame_step cont f \<noteq> None" "frame_bytes f = r @ x" "x \<noteq> []"
  shows "parseFrame r = FrameIncomplete"
proof (rule ccontr)
  assume i: "parseFrame r \<noteq> FrameIncomplete"
  have "parseFrame r = FrameOK f (length (frame_bytes f))"
    using parseFrame_extends [OF i, of x] parse_frame_bytes [OF assms(1,2), of "[]"] assms(3) by simp
  from parseFrame_end [OF this] assms(3,4) show False by simp
qed

lemma processBuffer_receiving: "receiving cont s \<Longrightarrow> processBuffer e s = processFrame e s"
  by (simp add: receiving_def processBuffer_def)

lemma call_client_receiving: "receiving cont s \<Longrightarrow> call_client c s = s\<lparr>wc_calls := wc_calls s @ [c]\<rparr>"
  by (simp add: receiving_def call_client_def)

lemma handle_data_frame:
  assumes r: "receiving cont s" and st: "frame_step cont f = Some (cs, cont')"
  shows "\<exists>s'. handle_frame e f n s = (True, s') \<and> receiving cont' s' \<and> wc_buffer s' = drop n (wc_buffer s)
    \<and> wc_calls s' = wc_calls s @ cs"
proof -
  note defs = handle_frame_def handle_continuation_def handle_text_def handle_binary_def start_continuous_def deliver_text_def
    skipBuffer_def call_client_def message_of_def receiving_def Let_def
  consider "f_opCode f = OpCodePong" | "f_opCode f = OpCodeContinuation" | "f_opCode f = OpCodeText" | "f_opCode f = OpCodeBinary"
    using st by (auto simp: frame_step_def split: if_splits)
  then show ?thesis
  proof cases
    case 1
    then show ?thesis using r st by (auto simp: frame_step_def defs op_codes split: if_splits option.splits)
  next
    case 2
    then obtain opc d where c: "cont = Some (opc, d)" "opc = OpCodeText \<or> opc = OpCodeBinary"
      using r st by (auto simp: frame_step_def receiving_def op_codes split: if_splits option.splits)
    then show ?thesis using r st 2 by (auto simp: frame_step_def defs op_codes split: if_splits option.splits)
  next
    case 3
    then show ?thesis using r st by (auto simp: frame_step_def defs op_codes split: if_splits option.splits)
  next
    case 4
    then show ?thesis using r st by (auto simp: frame_step_def defs op_codes split: if_splits option.splits)
  qed
qed

lemma validate_data_frame:
  assumes "receiving cont s" "plain_frame f" "frame_step cont f = Some (cs, cont')"
  shows "validate_frame f s = None"
  using assms
  by (auto simp: validate_frame_def receiving_def plain_frame_def frame_step_def isReservedOpCode_def isNonControlOpCode_def
      isControlOpCode_def needsExtendedLengthField_def frame_constants op_codes split: if_splits option.splits)

lemma process_data_frame:
  assumes "receiving cont s" "plain_frame f" "frame_step cont f = Some (cs, cont')" "wc_buffer s = frame_bytes f @ rest"
  shows "\<exists>s'. processBuffer e s = (rest \<noteq> [], s') \<and> receiving cont' s' \<and> wc_buffer s' = rest \<and> wc_calls s' = wc_calls s @ cs"
proof -
  have p: "parseFrame (wc_buffer s) = FrameOK f (length (frame_bytes f))"
    using parse_frame_bytes [OF assms(2), of cont rest] assms(3,4) by simp
  have i: "inflate (we_zlib e) f (wc_deflateFramer s) = (Inr f, wc_deflateFramer s)"
    using assms(1,2) by (simp add: inflate_def receiving_def plain_frame_def)
  have v: "validate_frame f s = None" by (rule validate_data_frame [OF assms(1-3)])
  obtain s' where "handle_frame e f (length (frame_bytes f)) s = (True, s')" "receiving cont' s'"
    "wc_buffer s' = drop (length (frame_bytes f)) (wc_buffer s)" "wc_calls s' = wc_calls s @ cs"
    using handle_data_frame [OF assms(1,3)] by blast
  then show ?thesis
    unfolding processBuffer_receiving [OF assms(1)] processFrame_def p by (simp add: i v assms(4))
qed

lemma receive_loop_frames:
  assumes "receiving cont s" "list_all plain_frame fs" "frames_run cont fs = Some (cs, cont')"
    and "wc_buffer s = concat (map frame_bytes fs) @ r" "r \<noteq> [] \<longrightarrow> parseFrame r = FrameIncomplete" "length (wc_buffer s) \<le> fuel"
  shows "\<exists>s'. receive_loop fuel e s = Some s' \<and> receiving cont' s' \<and> wc_buffer s' = r \<and> wc_calls s' = wc_calls s @ cs"
  using assms
proof (induction fs arbitrary: cont s cs fuel)
  case Nil
  show ?case
  proof (cases "r = []")
    case True
    then show ?thesis using Nil by (subst receive_loop.simps) simp
  next
    case False
    then have "processBuffer e s = (False, s)"
      unfolding processBuffer_receiving [OF Nil.prems(1)] using Nil.prems by (simp add: processFrame_def)
    moreover obtain n where "fuel = Suc n" using Nil.prems False by (cases fuel) simp_all
    ultimately show ?thesis using Nil.prems by (subst receive_loop.simps) simp
  qed
next
  case (Cons f fs)
  obtain cs1 cont1 cs2 where st: "frame_step cont f = Some (cs1, cont1)" "frames_run cont1 fs = Some (cs2, cont')" "cs = cs1 @ cs2"
    using Cons.prems(3) by (auto split: option.splits)
  define rest where "rest = concat (map frame_bytes fs) @ r"
  have b: "wc_buffer s = frame_bytes f @ rest" using Cons.prems(4) by (simp add: rest_def)
  obtain t where t: "processBuffer e s = (rest \<noteq> [], t)" "receiving cont1 t" "wc_buffer t = rest" "wc_calls t = wc_calls s @ cs1"
    using process_data_frame [OF Cons.prems(1) _ st(1) b] Cons.prems(2) by auto
  have "wc_buffer s \<noteq> []" using b by simp
  then obtain n where n: "fuel = Suc n" using Cons.prems(6) by (cases fuel) simp_all
  have "length (wc_buffer t) \<le> n"
    using Cons.prems(6) b t(3) n frame_bytes_nonempty [of f] by (cases "frame_bytes f") simp_all
  then obtain u where u: "receive_loop n e t = Some u" "receiving cont' u" "wc_buffer u = r" "wc_calls u = wc_calls t @ cs2"
    using Cons.IH [OF t(2) _ st(2), of n] Cons.prems(2,5) t(3) by (auto simp: rest_def)
  have "\<not> wc_suspended s" "wc_client s" using Cons.prems(1) by (simp_all add: receiving_def)
  then have step: "receive_loop fuel e s = (if rest \<noteq> [] then receive_loop n e t else Some t)"
    using \<open>wc_buffer s \<noteq> []\<close> t(1) n by (subst receive_loop.simps) simp
  show ?case
  proof (cases "rest = []")
    case True
    have "receive_loop n e t = Some t" using True t(3) by (subst receive_loop.simps) simp
    then show ?thesis using step True u t(4) st(3) by simp
  qed (use step u t(4) st(3) in simp)
qed

text \<open>Where a prefix of a sequence of frames ends.\<close>

lemma prefix_of_concat:
  assumes "x @ y = concat xs" "\<forall>z\<in>set xs. z \<noteq> []"
  shows "\<exists>done todo r. xs = done @ todo \<and> x = concat done @ r \<and> (todo = [] \<longrightarrow> r = [])
    \<and> (todo \<noteq> [] \<longrightarrow> (\<exists>z. z \<noteq> [] \<and> hd todo = r @ z))"
  using assms
proof (induction xs arbitrary: x)
  case (Cons a xs)
  show ?case
  proof (cases "length x < length a")
    case True
    then have "take (length x) a = x" using Cons.prems(1) by (auto simp: append_eq_append_conv_if)
    then obtain z where "a = x @ z" using append_take_drop_id [of "length x" a] by metis
    moreover then have "z \<noteq> []" using True by auto
    ultimately show ?thesis by (intro exI [of _ "[]"] exI [of _ "a # xs"] exI [of _ x]) auto
  next
    case False
    then obtain u where x: "x = a @ u" "u @ y = concat xs"
      using Cons.prems(1) by (auto simp: append_eq_append_conv2)
    obtain d t r where "xs = d @ t" "u = concat d @ r" "t = [] \<longrightarrow> r = []"
      "t \<noteq> [] \<longrightarrow> (\<exists>z. z \<noteq> [] \<and> hd t = r @ z)"
      using Cons.IH [OF x(2)] Cons.prems(2) by auto
    then show ?thesis using x(1) by (intro exI [of _ "a # d"] exI [of _ t] exI [of _ r]) auto
  qed
qed (auto intro: exI [of _ "[]"])

lemma frames_run_append:
  "frames_run cont (fs @ gs) = (case frames_run cont fs of None \<Rightarrow> None
     | Some (cs, cont') \<Rightarrow> map_option (\<lambda>(ds, cont''). (cs @ ds, cont'')) (frames_run cont' gs))"
proof (induction fs arbitrary: cont)
  case Nil
  show ?case by (cases "frames_run cont gs") auto
qed (auto split: option.splits simp: option.map_comp comp_def case_prod_unfold)

lemma receiving_buffer [simp]: "receiving cont (s\<lparr>wc_buffer := b\<rparr>) = receiving cont s"
  by (cases cont) (auto simp: receiving_def)

lemma frames_run_step: "frames_run cont (f # fs) = Some x \<Longrightarrow> frame_step cont f \<noteq> None"
  by (auto split: option.splits)

definition waiting :: "ws_channel \<Rightarrow> bool" where
  "waiting s \<longleftrightarrow> (wc_buffer s \<noteq> [] \<longrightarrow> parseFrame (wc_buffer s) = FrameIncomplete)"

lemma receive_chunk:
  assumes "receiving cont s" "list_all plain_frame fs" "frames_run cont fs = Some (cs, cont')" "c \<noteq> []"
    and "wc_buffer s @ c @ y = concat (map frame_bytes fs)" "length (concat (map frame_bytes fs)) < 2 ^ 64"
  shows "\<exists>gs hs cs1 cont1 cs2. fs = gs @ hs \<and> frames_run cont1 hs = Some (cs2, cont') \<and> cs = cs1 @ cs2
    \<and> receiving cont1 (didReceiveSocketStreamData e c s) \<and> wc_calls (didReceiveSocketStreamData e c s) = wc_calls s @ cs1
    \<and> wc_buffer (didReceiveSocketStreamData e c s) @ y = concat (map frame_bytes hs)
    \<and> waiting (didReceiveSocketStreamData e c s)"
proof -
  obtain ds ts r where sp: "map frame_bytes fs = ds @ ts" "wc_buffer s @ c = concat ds @ r" "ts = [] \<longrightarrow> r = []"
    "ts \<noteq> [] \<longrightarrow> (\<exists>z. z \<noteq> [] \<and> hd ts = r @ z)"
    using prefix_of_concat [of "wc_buffer s @ c" y "map frame_bytes fs"] assms(5) by auto
  define gs where "gs = take (length ds) fs"
  define hs where "hs = drop (length ds) fs"
  have fs: "fs = gs @ hs" "map frame_bytes gs = ds" "map frame_bytes hs = ts"
    using sp(1) by (simp_all add: gs_def hs_def take_map [symmetric] drop_map [symmetric])
  obtain cs1 cont1 cs2 where run: "frames_run cont gs = Some (cs1, cont1)" "frames_run cont1 hs = Some (cs2, cont')" "cs = cs1 @ cs2"
    using assms(3) by (auto simp: fs(1) frames_run_append split: option.splits)
  have inc: "parseFrame r = FrameIncomplete" if "r \<noteq> []"
  proof (cases hs)
    case Nil
    then show ?thesis using sp(3) fs(3) that by simp
  next
    case (Cons h hs')
    obtain z where "z \<noteq> []" "frame_bytes h = r @ z" using sp(4) fs(3) Cons by auto
    then show ?thesis
      using parse_frame_prefix [of h cont1 r z] assms(2) run(2) frames_run_step [of cont1 h hs'] by (simp add: fs(1) Cons)
  qed
  define s1 where "s1 = s\<lparr>wc_buffer := wc_buffer s @ c\<rparr>"
  have r1: "receiving cont s1" using assms(1) by (simp add: s1_def)
  have b1: "wc_buffer s1 = concat (map frame_bytes gs) @ r" using sp(2) by (simp add: s1_def fs(2))
  obtain t where t: "receive_loop (length (wc_buffer s1)) e s1 = Some t" "receiving cont1 t" "wc_buffer t = r" "wc_calls t = wc_calls s1 @ cs1"
    using receive_loop_frames [OF r1 _ run(1) b1, of "length (wc_buffer s1)" e] inc assms(2) by (auto simp: fs(1))
  have "length (wc_buffer s) + length c < 2 ^ 64"
    using assms(6) arg_cong [OF assms(5), of length] by simp
  then have d: "didReceiveSocketStreamData e c s = t"
    using assms(1,4) t(1) by (simp add: didReceiveSocketStreamData_def receiving_def appendToBuffer_def process_received_def s1_def)
  have "concat ds @ r @ y = concat ds @ concat ts"
    using assms(5) sp(1,2) by (metis append.assoc concat_append)
  then have "r @ y = concat (map frame_bytes hs)" by (simp add: fs(3))
  moreover have "wc_calls s1 = wc_calls s" by (simp add: s1_def)
  moreover have "waiting t" using inc t(3) by (simp add: waiting_def)
  ultimately show ?thesis using fs(1) run(2,3) t(2,3,4) d by metis
qed

text \<open>
  C8: However the network cuts the stream into pieces, a connected channel delivers exactly the messages of the frames
  sent, in order: fragments are joined, pongs in between are passed over, text is decoded, and nothing is lost,
  repeated or delivered early. The channel is ready for more afterwards.
\<close>

theorem messages_delivered:
  assumes "receiving cont s" "wc_buffer s = []" "list_all plain_frame fs" "frames_run cont fs = Some (cs, cont')"
    and "concat chunks = concat (map frame_bytes fs)" "[] \<notin> set chunks" "length (concat chunks) < 2 ^ 64"
  shows "wc_calls (fold (didReceiveSocketStreamData e) chunks s) = wc_calls s @ cs
    \<and> receiving cont' (fold (didReceiveSocketStreamData e) chunks s) \<and> wc_buffer (fold (didReceiveSocketStreamData e) chunks s) = []"
proof -
  have "wc_calls (fold (didReceiveSocketStreamData e) chunks s) = wc_calls s @ cs
      \<and> receiving cont' (fold (didReceiveSocketStreamData e) chunks s) \<and> wc_buffer (fold (didReceiveSocketStreamData e) chunks s) = []"
    if "receiving cont s" "list_all plain_frame fs" "frames_run cont fs = Some (cs, cont')"
      "wc_buffer s @ concat chunks = concat (map frame_bytes fs)" "[] \<notin> set chunks" "length (concat (map frame_bytes fs)) < 2 ^ 64"
      "waiting s"
    for chunks s fs cont cs
    using that
  proof (induction chunks arbitrary: s fs cont cs)
    case Nil
    have "fs = []"
    proof (cases fs)
      case (Cons f fs')
      then have "parseFrame (wc_buffer s) = FrameOK f (length (frame_bytes f))"
        using Nil parse_frame_bytes [of f cont "concat (map frame_bytes fs')"] frames_run_step [of cont f fs'] by simp
      moreover have "wc_buffer s \<noteq> []" using Nil Cons by auto
      ultimately show ?thesis using Nil by (simp add: waiting_def)
    qed simp
    then show ?case using Nil by simp
  next
    case (Cons c chunks)
    obtain gs hs cs1 cont1 cs2 where h: "fs = gs @ hs" "frames_run cont1 hs = Some (cs2, cont')" "cs = cs1 @ cs2"
      "receiving cont1 (didReceiveSocketStreamData e c s)" "wc_calls (didReceiveSocketStreamData e c s) = wc_calls s @ cs1"
      "wc_buffer (didReceiveSocketStreamData e c s) @ concat chunks = concat (map frame_bytes hs)"
      "waiting (didReceiveSocketStreamData e c s)"
      using receive_chunk [OF Cons.prems(1-3), of c "concat chunks" e] Cons.prems(4-6) by auto
    have "list_all plain_frame hs" "length (concat (map frame_bytes hs)) < 2 ^ 64" "[] \<notin> set chunks"
      using Cons.prems(2,5,6) h(1) by simp_all
    from Cons.IH [OF h(4) this(1) h(2,6) this(3,2) h(7)] show ?case using h(3,5) by simp
  qed
  from this [of cont s fs cs chunks] show ?thesis using assms by (simp add: waiting_def)
qed

definition sample_ws :: ws_env where
  "sample_ws = \<lparr>we_zlib = \<lparr>z_initialize = (\<lambda>_. True), z_deflate = (\<lambda>_ _. None), z_inflate = (\<lambda>_ _. None)\<rparr>, we_clientHandshake = [71],
     we_readServerHandshake = (\<lambda>data. if length data < 4 then (-1, Incomplete, None) else (4, Connected, None)), we_key = (\<lambda>_. [1, 2, 3, 4])\<rparr>"

definition sample_channel :: ws_channel where
  "sample_channel = (ws_connect (WebSocketChannel []))\<lparr>wc_handshakeMode := Connected\<rparr>"

definition sample_frames :: "ws_frame list" where
  "sample_frames = [WebSocketFrame OpCodeText False False False [104], WebSocketFrame OpCodePong True False False [],
     WebSocketFrame OpCodeContinuation True False False [105]]"

theorem messages_delivered_witness:
  "wc_calls (fold (didReceiveSocketStreamData sample_ws) [[1], [1, 104, 138, 0, 128, 1], [105]] sample_channel)
   = [DidReceiveMessage (lit ''hi'')]"
proof -
  have "list_all plain_frame sample_frames"
    by (simp add: sample_frames_def plain_frame_def WebSocketFrame_def)
  moreover have "text_message [104, 105] = Some (lit ''hi'')" by code_simp
  then have "frames_run None sample_frames = Some ([DidReceiveMessage (lit ''hi'')], None)"
    by (simp add: sample_frames_def frame_step_def message_of_def WebSocketFrame_def op_codes)
  moreover have c: "concat (map frame_bytes sample_frames) = [1, 1, 104, 138, 0, 128, 1, 105]"
    by (simp add: sample_frames_def frame_bytes_def makeFrameData_def WebSocketFrame_def op_codes frame_constants appendFramePayload_def Let_def)
  moreover have "receiving None sample_channel" "wc_buffer sample_channel = []" "wc_calls sample_channel = []"
    by (simp_all add: receiving_def sample_channel_def ws_connect_def WebSocketChannel_def WebSocketDeflateFramer_def)
  ultimately show ?thesis
    using messages_delivered [of None sample_channel sample_frames "[DidReceiveMessage (lit ''hi'')]" None
        "[[1], [1, 104, 138, 0, 128, 1], [105]]" sample_ws]
    by (simp add: c)
qed

section \<open>What the client sees\<close>

definition is_close :: "client_call \<Rightarrow> bool" where
  "is_close c \<longleftrightarrow> (case c of DidClose _ _ _ _ \<Rightarrow> True | _ \<Rightarrow> False)"

definition is_message :: "client_call \<Rightarrow> bool" where
  "is_message c \<longleftrightarrow> (case c of DidReceiveMessage _ \<Rightarrow> True | DidReceiveBinaryData _ \<Rightarrow> True | _ \<Rightarrow> False)"

text \<open>Nothing follows the close; the connection is reported once, and before any message.\<close>

fun connect_first :: "bool \<Rightarrow> client_call list \<Rightarrow> bool" where
  "connect_first seen [] = True"
| "connect_first seen (c # cs) = ((is_message c \<longrightarrow> seen) \<and> connect_first (seen \<or> c = DidConnect) cs)"

definition trace_ok :: "client_call list \<Rightarrow> bool" where
  "trace_ok cs \<longleftrightarrow> list_all (\<lambda>c. \<not> is_close c) (butlast cs) \<and> count_list cs DidConnect \<le> 1
     \<and> connect_first False cs"

definition client_inv :: "ws_channel \<Rightarrow> bool" where
  "client_inv s \<longleftrightarrow> trace_ok (wc_calls s) \<and> (wc_client s \<longrightarrow> list_all (\<lambda>c. \<not> is_close c) (wc_calls s))
     \<and> (wc_handshakeMode s = Connected \<longrightarrow> DidConnect \<in> set (wc_calls s))
     \<and> (wc_handshakeMode s = Incomplete \<longrightarrow> DidConnect \<notin> set (wc_calls s))"

definition keeps_inv :: "ws_channel \<Rightarrow> ws_channel \<Rightarrow> bool" where
  "keeps_inv s t \<longleftrightarrow> (client_inv s \<longrightarrow> client_inv t)"

lemma connect_first_append:
  "connect_first seen (cs @ [c]) \<longleftrightarrow> connect_first seen cs \<and> (is_message c \<longrightarrow> seen \<or> DidConnect \<in> set cs)"
  by (induction cs arbitrary: seen) auto

lemma trace_ok_append:
  assumes "trace_ok cs" "list_all (\<lambda>c. \<not> is_close c) cs" "c \<noteq> DidConnect" "is_message c \<longrightarrow> DidConnect \<in> set cs"
  shows "trace_ok (cs @ [c])"
  using assms by (simp add: trace_ok_def connect_first_append)

lemma trace_ok_connect:
  assumes "trace_ok cs" "list_all (\<lambda>c. \<not> is_close c) cs" "DidConnect \<notin> set cs"
  shows "trace_ok (cs @ [DidConnect])"
  using assms by (simp add: trace_ok_def connect_first_append count_list_0_iff is_message_def)

lemma client_inv_call:
  assumes "client_inv s" "wc_client s" "c \<noteq> DidConnect" "\<not> is_close c" "is_message c \<longrightarrow> wc_handshakeMode s = Connected"
  shows "client_inv (s\<lparr>wc_calls := wc_calls s @ [c]\<rparr>)"
  using assms trace_ok_append [of "wc_calls s" c] by (auto simp: client_inv_def)

interpretation protocol: channel_moves keeps_inv
proof
  fix s t :: ws_channel
  show "same_view s t \<Longrightarrow> keeps_inv s t" by (simp add: keeps_inv_def same_view_def client_inv_def)
  show "keeps_inv s (s\<lparr>wc_buffer := drop n (wc_buffer s)\<rparr>)" for n by (simp add: keeps_inv_def client_inv_def)
  show "keeps_inv s (s\<lparr>wc_client := False\<rparr>)" by (simp add: keeps_inv_def client_inv_def)
  show "wc_client s \<Longrightarrow> notice c \<Longrightarrow> keeps_inv s (s\<lparr>wc_calls := wc_calls s @ [c]\<rparr>)" for c
    using client_inv_call [of s c] by (auto simp: keeps_inv_def notice_def is_close_def is_message_def)
  show "wc_client s \<Longrightarrow> keeps_inv s (s\<lparr>wc_client := False, wc_calls := wc_calls s @ [DidClose n b code reason]\<rparr>)" for n b code reason
    using trace_ok_append [of "wc_calls s" "DidClose n b code reason"]
    by (auto simp: keeps_inv_def client_inv_def is_message_def)
qed (auto simp: keeps_inv_def)

lemmas keeps = protocol.R_ws_fail protocol.R_enqueued protocol.R_processOutgoing protocol.R_startClosingHandshake
  protocol.R_handle_disconnect protocol.R_handle_close protocol.R_handle_send protocol.R_didFailSocketStream
  protocol.R_didCloseSocketStream protocol.R_send_blocks

lemmas keeps_client_inv = keeps [unfolded keeps_inv_def, rule_format]

lemma client_inv_view: "client_inv s \<Longrightarrow> same_view s t \<Longrightarrow> client_inv t"
  using protocol.view [of s t] by (simp add: keeps_inv_def)

lemma client_inv_skip [simp]:
  "client_inv (skipBuffer n s) = client_inv s" "wc_handshakeMode (skipBuffer n s) = wc_handshakeMode s"
  by (simp_all add: client_inv_def skipBuffer_def)

lemma client_inv_updates [simp]:
  "client_inv (s\<lparr>wc_continuousFrameData := data\<rparr>) = client_inv s" "client_inv (s\<lparr>wc_hasContinuousFrame := b\<rparr>) = client_inv s"
  "client_inv (s\<lparr>wc_continuousFrameOpCode := c\<rparr>) = client_inv s" "client_inv (s\<lparr>wc_closeEventCode := code\<rparr>) = client_inv s"
  "client_inv (s\<lparr>wc_closeEventReason := reason\<rparr>) = client_inv s" "client_inv (s\<lparr>wc_receivedClosingHandshake := b\<rparr>) = client_inv s"
  "client_inv (s\<lparr>wc_outgoingFrameQueueStatus := q\<rparr>) = client_inv s" "client_inv (s\<lparr>wc_outgoingFrameQueue := fs\<rparr>) = client_inv s"
  "client_inv (s\<lparr>wc_deflateFramer := d\<rparr>) = client_inv s" "client_inv (s\<lparr>wc_shouldDiscardReceivedData := b\<rparr>) = client_inv s"
  "client_inv (s\<lparr>wc_blobLoaderStatus := l\<rparr>) = client_inv s" "client_inv (s\<lparr>wc_blobResult := data\<rparr>) = client_inv s"
  "client_inv (s\<lparr>wc_socket := h\<rparr>) = client_inv s" "client_inv (s\<lparr>wc_closingTimer := b\<rparr>) = client_inv s"
  "client_inv (s\<lparr>wc_resumeTimer := b\<rparr>) = client_inv s" "client_inv (s\<lparr>wc_suspended := b\<rparr>) = client_inv s"
  "client_inv (s\<lparr>wc_buffer := data\<rparr>) = client_inv s" "client_inv (s\<lparr>wc_document := b\<rparr>) = client_inv s"
  by (simp_all add: client_inv_def)

lemma client_inv_message:
  assumes "client_inv s" "wc_handshakeMode s = Connected" "is_message c"
  shows "client_inv (call_client c s)"
proof (cases "wc_client s")
  case True
  then show ?thesis
    using client_inv_call [OF assms(1) True] assms(2,3) by (simp add: call_client_def is_close_def is_message_def split: client_call.splits)
next
  case False
  then show ?thesis using assms(1) by (simp add: call_client_def client_inv_def)
qed

section \<open>Reachable channels\<close>

text \<open>
  The events of a channel: those of the socket, of the timers and of the loader of blobs,
  and the calls of its client, which calls only while it is the client.
\<close>

inductive ws_reachable :: "ws_env \<Rightarrow> ws_channel \<Rightarrow> bool" for e where
  opened: "ws_reachable e (ws_connect (WebSocketChannel answers))"
| connected: "ws_reachable e s \<Longrightarrow> ws_reachable e (handle_connected e error s)"
| readable: "ws_reachable e s \<Longrightarrow> ws_reachable e (readBytes e bytesRead s)"
| writable: "ws_reachable e s \<Longrightarrow> ws_reachable e (writeReady s)"
| send_string: "ws_reachable e s \<Longrightarrow> wc_client s \<Longrightarrow> ws_reachable e (send_string e is8Bit message s)"
| send_binary: "ws_reachable e s \<Longrightarrow> wc_client s \<Longrightarrow> ws_reachable e (send_binary e data s)"
| send_blob: "ws_reachable e s \<Longrightarrow> wc_client s \<Longrightarrow> ws_reachable e (send_blob e blob s)"
| loaded: "ws_reachable e s \<Longrightarrow> wc_blobLoaderStatus s = BlobLoaderStarted \<Longrightarrow> ws_reachable e (didFinishLoading e result s)"
| load_failed: "ws_reachable e s \<Longrightarrow> wc_blobLoaderStatus s = BlobLoaderStarted \<Longrightarrow> ws_reachable e (didFail errorCode s)"
| client_close: "ws_reachable e s \<Longrightarrow> wc_client s \<Longrightarrow> ws_reachable e (ws_close e is8Bit code reason s)"
| client_fail: "ws_reachable e s \<Longrightarrow> wc_client s \<Longrightarrow> ws_reachable e (ws_fail reason s)"
| client_disconnect: "ws_reachable e s \<Longrightarrow> wc_client s \<Longrightarrow> ws_reachable e (ws_disconnect s)"
| suspended: "ws_reachable e s \<Longrightarrow> ws_reachable e (ws_suspend s)"
| resumed: "ws_reachable e s \<Longrightarrow> ws_reachable e (ws_resume s)"
| resume_timer: "ws_reachable e s \<Longrightarrow> wc_resumeTimer s \<Longrightarrow> ws_reachable e (resumeTimerFired e s)"
| closing_timer: "ws_reachable e s \<Longrightarrow> wc_closingTimer s \<Longrightarrow> ws_reachable e (closingTimerFired s)"

text \<open>An answer of the server that is not complete leaves the handshake where it was.\<close>

definition handshake_ok :: "ws_env \<Rightarrow> bool" where
  "handshake_ok e \<longleftrightarrow> (\<forall>data n mode ext. we_readServerHandshake e data = (n, mode, ext) \<longrightarrow> n \<le> 0 \<longrightarrow> mode = Incomplete)"

lemma deliver_text_inv: "client_inv s \<Longrightarrow> wc_handshakeMode s = Connected \<Longrightarrow> client_inv (deliver_text data s)"
  using keeps_client_inv(1) client_inv_message [of s "DidReceiveMessage m" for m]
  by (auto simp: deliver_text_def is_message_def split: option.splits)

lemma handle_close_frame_inv: "client_inv s \<Longrightarrow> client_inv (snd (handle_close_frame e frame n s))"
  by (simp add: handle_close_frame_def Let_def keeps_client_inv)

lemma handle_frame_inv:
  assumes "client_inv s" "wc_handshakeMode s = Connected"
  shows "client_inv (snd (handle_frame e frame n s))"
  using assms
  by (simp add: handle_frame_def handle_close_frame_inv)
    (simp add: handle_continuation_def handle_text_def handle_binary_def start_continuous_def handle_ping_def enqueueRawFrame_def
      enqueue_def keeps_client_inv deliver_text_inv client_inv_message is_message_def Let_def)

lemma processBuffer_inv:
  assumes "handshake_ok e" "client_inv s" "wc_client s"
  shows "client_inv (snd (processBuffer e s))"
proof (cases "wc_handshakeMode s = Incomplete")
  case True
  obtain n mode ext where h: "we_readServerHandshake e (wc_buffer s) = (n, mode, ext)" by (metis prod_cases3)
  define d where "d = (case ext of None \<Rightarrow> wc_deflateFramer s
    | Some (windowBits, takeOver) \<Rightarrow> enableDeflate (we_zlib e) windowBits takeOver (wc_deflateFramer s))"
  have inc: "n \<le> 0 \<Longrightarrow> mode = Incomplete" using assms(1) h by (auto simp: handshake_ok_def)
  have no: "DidConnect \<notin> set (wc_calls s)" "list_all (\<lambda>c. \<not> is_close c) (wc_calls s)" "trace_ok (wc_calls s)"
    using assms(2,3) True by (simp_all add: client_inv_def)
  have fail: "client_inv (s\<lparr>wc_handshakeMode := mode\<rparr>)" if "mode \<noteq> Connected"
    using no that by (simp add: client_inv_def)
  have conn: "client_inv (call_client DidConnect (skipBuffer k (s\<lparr>wc_handshakeMode := Connected, wc_deflateFramer := d\<rparr>)))" for k
    using no assms(3) trace_ok_connect [OF no(3,2,1)] by (simp add: client_inv_def call_client_def skipBuffer_def is_close_def)
  show ?thesis
    using True assms(2) inc fail conn keeps_client_inv(1)
    by (cases "n \<le> 0") (simp_all add: processBuffer_def h d_def [symmetric] Let_def)
next
  case False
  have "client_inv (snd (processFrame e s))" if "wc_handshakeMode s = Connected"
    using assms(2) that handle_frame_inv [of "s\<lparr>wc_deflateFramer := d\<rparr>" e f n for d f n] keeps_client_inv(1)
    by (auto simp: processFrame_def Let_def split: ParseFrameResult.splits prod.splits sum.splits option.splits) (metis snd_conv)+
  then show ?thesis using False assms(2) by (simp add: processBuffer_def)
qed

lemma process_received_inv:
  assumes "handshake_ok e" "client_inv s"
  shows "client_inv (process_received e s)"
proof -
  have "client_inv t" if "receive_loop fuel e s = Some t" "client_inv s" for fuel s t
    using that
  proof (induction fuel arbitrary: s)
    case 0
    then show ?case by (subst (asm) receive_loop.simps) (auto split: if_splits)
  next
    case (Suc fuel)
    then show ?case
      using processBuffer_inv [OF assms(1), of s]
      by (subst (asm) (2) receive_loop.simps) (auto split: if_splits prod.splits)
  qed
  moreover obtain t where "receive_loop (length (wc_buffer s)) e s = Some t"
    using receive_loop_ends [of s "length (wc_buffer s)" e] by auto
  ultimately show ?thesis using assms(2) by (simp add: process_received_def)
qed

lemma channel_operations_inv:
  assumes "handshake_ok e" "client_inv s"
  shows "client_inv (didReceiveSocketStreamData e data s)" "client_inv (handle_connected e error s)" "client_inv (readBytes e bytesRead s)"
    "client_inv (writeReady s)" "client_inv (send_string e is8Bit message s)" "client_inv (send_binary e data s)"
    "client_inv (send_blob e blob s)" "client_inv (didFinishLoading e data s)" "client_inv (didFail errorCode s)"
    "client_inv (ws_close e is8Bit code reason s)" "client_inv (ws_fail fr s)" "client_inv (ws_disconnect s)"
    "client_inv (ws_suspend s)" "client_inv (ws_resume s)" "client_inv (resumeTimerFired e s)" "client_inv (closingTimerFired s)"
proof -
  note defs = didReceiveSocketStreamData_def appendToBuffer_def handle_connected_def didOpenSocketStream_def
    readBytes_def writeReady_def sendPendingData_def send_string_def send_binary_def send_blob_def enqueueTextFrame_def enqueueRawFrame_def
    enqueueBlobFrame_def didFinishLoading_def didFail_def ws_close_def ws_disconnect_def ws_suspend_def ws_resume_def resumeTimerFired_def
    closingTimerFired_def Let_def
  have gone: "client_inv (s\<lparr>wc_client := False\<rparr>)" using assms(2) by (simp add: client_inv_def)
  show data: "client_inv (didReceiveSocketStreamData e data s)" for data
    using assms by (simp add: defs keeps_client_inv process_received_inv)
  show "client_inv (handle_connected e error s)"
    using assms by (simp add: defs keeps_client_inv split_beta)
  show "client_inv (readBytes e bytesRead s)" using assms data by (simp add: readBytes_def keeps_client_inv split: option.splits)
  show "client_inv (ws_disconnect s)" using gone keeps_client_inv(5) [of "s\<lparr>wc_client := False, wc_document := False\<rparr>"] by (simp add: defs)
  show "client_inv (resumeTimerFired e s)"
    using assms process_received_inv [of e "s\<lparr>wc_resumeTimer := False\<rparr>"] by (simp add: defs keeps_client_inv)
qed (use assms in \<open>simp_all add: writeReady_def sendPendingData_def send_string_def send_binary_def send_blob_def enqueueTextFrame_def
    enqueueRawFrame_def enqueueBlobFrame_def didFinishLoading_def didFail_def ws_close_def ws_suspend_def ws_resume_def
    closingTimerFired_def Let_def keeps_client_inv\<close>)

text \<open>
  C14: In every reachable state the calls to the client follow the protocol of the interface: the connection is reported
  at most once and before any message, and nothing is ever reported after the close, whatever the network, the
  server, the timers and the client do, suspension included.
\<close>

theorem client_protocol:
  assumes "handshake_ok e" "ws_reachable e s"
  shows "trace_ok (wc_calls s)"
proof -
  have "client_inv s"
    using assms(2)
  proof (induction rule: ws_reachable.induct)
    case (opened answers)
    show ?case by (simp add: client_inv_def trace_ok_def ws_connect_def WebSocketChannel_def)
  qed (simp_all add: channel_operations_inv [OF assms(1)])
  then show ?thesis by (simp add: client_inv_def)
qed

theorem client_protocol_witness:
  "trace_ok (wc_calls (handle_connected sample_ws True (ws_connect (WebSocketChannel []))))
   \<and> wc_calls (handle_connected sample_ws True (ws_connect (WebSocketChannel []))) = [DidClose 0 False 1006 None]"
proof -
  have "handshake_ok sample_ws" by (auto simp: handshake_ok_def sample_ws_def split: if_splits)
  moreover have "ws_reachable sample_ws (handle_connected sample_ws True (ws_connect (WebSocketChannel [])))"
    by (intro ws_reachable.intros)
  moreover have "wc_calls (handle_connected sample_ws True (ws_connect (WebSocketChannel []))) = [DidClose 0 False 1006 None]"
    by code_simp
  ultimately show ?thesis using client_protocol by blast
qed

section \<open>Where the code and its comments part\<close>

text \<open>
  A channel that is disconnected while a blob is read uses its client after it was cleared.
\<close>

lemma disconnect_while_loading: "wc_crashed (ws_disconnect (send_blob sample_ws 0 sample_channel))"
  by code_simp

text \<open>A frame that cannot be compressed fails the channel twice; the second time the client is gone.\<close>

lemma compression_fails_twice:
  "wc_crashed (send_binary sample_ws [1] (sample_channel\<lparr>wc_deflateFramer := WebSocketDeflateFramer\<lparr>df_enabled := True\<rparr>\<rparr>))"
  by code_simp

text \<open>
  \<open>close\<close> is to disconnect once the pending data are sent; but the event that would do it
  stops waiting as soon as nothing is pending. As long as writes do not fail, a closing handle
  is never disconnected by them.
\<close>

definition writes_work :: "ws_channel \<Rightarrow> bool" where
  "writes_work s \<longleftrightarrow> WriteFailed \<notin> set (sh_network (wc_socket s))"

lemma platformSend_state:
  assumes "writes_work s"
  shows "sh_state (wc_socket (snd (platformSend data s))) = sh_state (wc_socket s) \<and> writes_work (snd (platformSend data s))"
  using assms by (cases "sh_network (wc_socket s)")
    (auto simp: platformSend_def writes_work_def Let_def split: write_result.splits)

lemma tell_client_socket [simp]: "wc_socket (tell_client c s) = wc_socket s"
  by (simp add: tell_client_def)

lemma send_blocks_state:
  "writes_work s \<Longrightarrow> sh_state (wc_socket (snd (send_blocks s))) = sh_state (wc_socket s) \<and> writes_work (snd (send_blocks s))"
proof (induction s rule: send_blocks.induct)
  case (1 s)
  define p where "p = platformSend (firstBlock (sh_buffer (wc_socket s))) s"
  define t where "t = consume_pending (fst p) (snd p)"
  have "sh_state (wc_socket (snd p)) = sh_state (wc_socket s) \<and> writes_work (snd p)"
    unfolding p_def by (rule platformSend_state [OF "1.prems"])
  moreover from this have "sh_state (wc_socket t) = sh_state (wc_socket s) \<and> writes_work t"
    by (simp add: t_def consume_pending_def writes_work_def)
  moreover have "send_blocks s = (if fst p = 0 then (False, snd p)
      else if fst p = length (firstBlock (sh_buffer (wc_socket s))) \<and> \<not> sb_isEmpty (sh_buffer (wc_socket t)) then send_blocks t
      else (True, tell_client (DidUpdateBufferedAmount (bufferedAmount t)) t))"
    unfolding t_def p_def by (subst send_blocks.simps) (simp only: Let_def)
  ultimately show ?case using "1.IH" [folded p_def, OF _ refl t_def] by (simp add: writes_work_def)
qed

lemma closing_never_finishes:
  "sh_state (wc_socket s) = SocketClosing \<Longrightarrow> writes_work s \<Longrightarrow>
     sh_state (wc_socket ((writeReady ^^ n) s)) = SocketClosing \<and> writes_work ((writeReady ^^ n) s)"
proof (induction n)
  case (Suc n)
  have "sh_state (wc_socket (writeReady t)) = SocketClosing \<and> writes_work (writeReady t)"
    if "sh_state (wc_socket t) = SocketClosing" "writes_work t" for t
    using that send_blocks_state [of t]
    by (simp add: writeReady_def sendPendingData_def bufferedAmount_def sb_isEmpty_def) (simp add: writes_work_def)
  then show ?case using Suc by simp
qed simp

end
