(* ===== verification/Wtf_Digest.thy ===== *)
theory Wtf_Digest
  imports Prelude
begin

text \<open>
  What the digests of WTF have in common: a message consumed in blocks of 64 bytes, the padding
  with its one bit, its zeros and its length, and the locale of a digest whose input arrives in
  pieces. Its instances are in \<open>Wtf_Sha1\<close> and \<open>Wtf_Md5\<close>.
\<close>

section \<open>Blocks of 64 bytes\<close>

text \<open>The full blocks of a message, and what is left over.\<close>

fun blocks :: "byte list \<Rightarrow> byte list list" where
  "blocks xs = (if length xs < 64 then [] else take 64 xs # blocks (drop 64 xs))"

fun remainder :: "byte list \<Rightarrow> byte list" where
  "remainder xs = (if length xs < 64 then xs else remainder (drop 64 xs))"

declare blocks.simps [simp del] remainder.simps [simp del]

lemma blocks_short [simp]: "length xs < 64 \<Longrightarrow> blocks xs = []"
  by (simp add: blocks.simps)

lemma remainder_short [simp]: "length xs < 64 \<Longrightarrow> remainder xs = xs"
  by (simp add: remainder.simps)

lemma blocks_one: "length xs = 64 \<Longrightarrow> blocks (xs @ ys) = xs # blocks ys"
  by (simp add: blocks.simps [of "xs @ ys"])

lemma remainder_one: "length xs = 64 \<Longrightarrow> remainder (xs @ ys) = remainder ys"
  by (simp add: remainder.simps [of "xs @ ys"])

lemma blocks_append: "blocks (xs @ ys) = blocks xs @ blocks (remainder xs @ ys)"
proof (induction xs rule: blocks.induct)
  case (1 xs)
  show ?case
  proof (cases "length xs < 64")
    case False
    then have "blocks (xs @ ys) = take 64 xs # blocks (drop 64 xs @ ys)"
      using blocks_one [of "take 64 xs" "drop 64 xs @ ys"] by (simp flip: append_assoc)
    with False 1 show ?thesis by (simp add: blocks.simps [of xs] remainder.simps [of xs])
  qed simp
qed

lemma remainder_append: "remainder (xs @ ys) = remainder (remainder xs @ ys)"
proof (induction xs rule: blocks.induct)
  case (1 xs)
  show ?case
  proof (cases "length xs < 64")
    case False
    then have "remainder (xs @ ys) = remainder (drop 64 xs @ ys)"
      using remainder_one [of "take 64 xs" "drop 64 xs @ ys"] by (simp flip: append_assoc)
    with False 1 show ?thesis by (simp add: remainder.simps [of xs])
  qed simp
qed

lemma length_remainder: "length (remainder xs) = length xs mod 64"
proof (induction xs rule: remainder.induct)
  case (1 xs)
  then show ?case by (cases "length xs < 64") (simp_all add: remainder.simps [of xs] mod_if [of "length xs" 64])
qed

lemma length_remainder_less [simp]: "length (remainder xs) < 64"
  by (simp add: length_remainder)

section \<open>Digests of a stream\<close>

text \<open>
  The bytes that complete a message: a one bit, zeros up to eight bytes below a block
  boundary, and the length as the algorithm writes it.
\<close>

definition padding :: "(64 word \<Rightarrow> byte list) \<Rightarrow> nat \<Rightarrow> byte list" where
  "padding len n = 0x80 # replicate (nat ((55 - int n) mod 64)) 0 @ len (of_nat (8 * n))"

text \<open>Behind what is pending, the padding fills one block or two.\<close>

lemma padded_one:
  assumes "length p < 56" "length l = 8"
  shows "blocks (p @ x # replicate (nat ((55 - int (length p)) mod 64)) 0 @ l) = [p @ x # replicate (55 - length p) 0 @ l]"
proof -
  have "nat ((55 - int (length p)) mod 64) = 55 - length p" using assms by (simp add: nat_diff_distrib)
  then show ?thesis using blocks_one [of "p @ x # replicate (55 - length p) 0 @ l" "[]"] assms by simp
qed

lemma padded_two:
  assumes "56 \<le> length p" "length p < 64" "length l = 8"
  shows "blocks (p @ x # replicate (nat ((55 - int (length p)) mod 64)) 0 @ l) = [p @ x # replicate (63 - length p) 0, replicate 56 0 @ l]"
proof -
  have "(55 - int (length p)) mod 64 = (55 - int (length p) + 64) mod 64" by (simp only: mod_add_self2)
  also have "\<dots> = 119 - int (length p)" using assms by (simp add: algebra_simps)
  finally have "nat ((55 - int (length p)) mod 64) = 119 - length p" using assms by simp
  moreover have "replicate (119 - length p) (0 :: byte) = replicate (63 - length p) 0 @ replicate 56 0"
    using assms by (simp flip: replicate_add)
  ultimately show ?thesis
    using blocks_one [of "p @ x # replicate (63 - length p) 0" "replicate 56 0 @ l"] blocks_one [of "replicate 56 0 @ l" "[]"] assms by simp
qed

text \<open>
  A digest that is fed piece by piece: the state has compressed the full blocks so far, keeps the
  rest, and counts the bits. Then the result only depends on the concatenation of the pieces, and
  is the iterated compression of the padded message.
\<close>

locale stream_digest =
  fixes compress :: "byte list \<Rightarrow> 'h \<Rightarrow> 'h" and start :: 's and add :: "byte list \<Rightarrow> 's \<Rightarrow> 's" and finish :: "'s \<Rightarrow> 'd"
    and len :: "64 word \<Rightarrow> byte list" and out :: "'h \<Rightarrow> 'd"
    and wf :: "'s \<Rightarrow> bool" and hash :: "'s \<Rightarrow> 'h" and pending :: "'s \<Rightarrow> byte list" and bits :: "'s \<Rightarrow> 64 word"
  assumes start: "wf start" "pending start = []" "bits start = 0"
    and length_len: "length (len n) = 8"
    and add: "wf s \<Longrightarrow> wf (add xs s) \<and> hash (add xs s) = fold compress (blocks (pending s @ xs)) (hash s)
      \<and> pending (add xs s) = remainder (pending s @ xs) \<and> bits (add xs s) = bits s + of_nat (8 * length xs)"
    and finish: "wf s \<Longrightarrow> finish s = out (fold compress (blocks (pending s @ 0x80 #
      replicate (nat ((55 - int (length (pending s))) mod 64)) 0 @ len (bits s))) (hash s))"
begin

lemma absorbed:
  "wf (fold add chunks start) \<and> hash (fold add chunks start) = fold compress (blocks (concat chunks)) (hash start)
   \<and> pending (fold add chunks start) = remainder (concat chunks) \<and> bits (fold add chunks start) = of_nat (8 * length (concat chunks))"
proof (induction chunks rule: rev_induct)
  case Nil
  show ?case by (simp add: start)
next
  case (snoc xs chunks)
  then show ?case using add [of "fold add chunks start" xs]
    by (simp add: blocks_append [of "concat chunks"] remainder_append [of "concat chunks"] algebra_simps)
qed

lemma digest:
  "finish (fold add chunks start)
   = out (fold compress (blocks (concat chunks @ padding len (length (concat chunks)))) (hash start))"
proof -
  let ?m = "concat chunks"
  have "(55 - int (length ?m mod 64)) mod 64 = (55 - int (length ?m)) mod 64"
    by (simp add: mod_diff_right_eq zmod_int)
  then show ?thesis
    using absorbed [of chunks] finish [of "fold add chunks start"]
    by (simp add: blocks_append [of ?m] padding_def length_remainder)
qed

end

section \<open>Big-endian bytes\<close>

text \<open>
  \<open>for (j = 0; j < n; ++j) { d[k + (n - 1 - j)] = h & 0xFF; h >>= 8; }\<close>: the loop counts down in
  its second argument.
\<close>

fun store_be :: "nat \<Rightarrow> nat \<Rightarrow> 'a::len word \<Rightarrow> byte list \<Rightarrow> byte list" where
  "store_be k 0 h d = d"
| "store_be k (Suc j) h d = store_be k j (drop_bit 8 h) (d[k + j := ucast (h AND 0xFF)])"

fun be_bytes :: "nat \<Rightarrow> 'a::len word \<Rightarrow> byte list" where
  "be_bytes 0 h = []"
| "be_bytes (Suc j) h = be_bytes j (drop_bit 8 h) @ [ucast (h AND 0xFF)]"

lemma ucast_low_byte [simp]: "ucast (h AND 0xFF) = (ucast h :: byte)" for h :: "'a::len word"
proof -
  have mask: "(0xFF :: 'a word) = mask 8" by (simp add: mask_eq_exp_minus_1)
  show ?thesis unfolding mask by (rule bit_word_eqI) (auto simp: bit_simps dest: bit_imp_le_length)
qed

lemma length_be_bytes [simp]: "length (be_bytes n h) = n"
  by (induction n arbitrary: h) simp_all

lemma store_be_eq: "k + n \<le> length d \<Longrightarrow> store_be k n h d = take k d @ be_bytes n h @ drop (k + n) d"
proof (induction n arbitrary: h d)
  case (Suc j)
  let ?x = "ucast (h AND 0xFF)"
  have "drop (k + j) (d[k + j := ?x]) = ?x # drop (Suc (k + j)) d"
    using Suc.prems by (simp add: drop_update_swap Cons_nth_drop_Suc [symmetric])
  moreover have "take k (d[k + j := ?x]) = take k d" by (simp add: take_update_cancel)
  ultimately show ?case using Suc by simp
qed simp

lemma store_be_tail: "length y = k \<Longrightarrow> length d = n \<Longrightarrow> store_be k n h (y @ d) = y @ be_bytes n h"
  by (simp add: store_be_eq)

end
