(* ===== verification/Wtf_Sha1.thy ===== *)
theory Wtf_Sha1
  imports Wtf_Digest Wtf_Text
begin

text \<open>
  The SHA-1 hash of \<open>WTF/wtf/SHA1.cpp\<close>: the state with its block buffer, the operations that
  fill it, and the hash of a whole message as FIPS 180 gives it.
\<close>

section \<open>SHA-1\<close>

record sha1 =
  s_buffer :: "byte list"
  s_cursor :: nat
  s_totalBytes :: "64 word"
  s_hash :: "32 word list"

definition sha1_f :: "nat \<Rightarrow> 32 word \<Rightarrow> 32 word \<Rightarrow> 32 word \<Rightarrow> 32 word" where
  "sha1_f t b c d =
     (if t < 20 then (b AND c) OR (NOT b AND d)
      else if t < 40 then b XOR c XOR d
      else if t < 60 then (b AND c) OR (b AND d) OR (c AND d)
      else b XOR c XOR d)"

definition sha1_k :: "nat \<Rightarrow> 32 word" where
  "sha1_k t = (if t < 20 then 0x5a827999 else if t < 40 then 0x6ed9eba1 else if t < 60 then 0x8f1bbcdc else 0xca62c1d6)"

definition rotateLeft :: "nat \<Rightarrow> 32 word \<Rightarrow> 32 word" where
  "rotateLeft n x = push_bit n x OR drop_bit (32 - n) x"

definition sha1_reset :: sha1 where
  "sha1_reset = \<lparr>s_buffer = replicate 64 0, s_cursor = 0, s_totalBytes = 0,
     s_hash = [0x67452301, 0xefcdab89, 0x98badcfe, 0x10325476, 0xc3d2e1f0]\<rparr>"

text \<open>The two loops that fill the array \<open>w\<close>.\<close>

definition sha1_word :: "byte list \<Rightarrow> nat \<Rightarrow> 32 word" where
  "sha1_word buffer t = push_bit 24 (ucast (buffer ! (t * 4))) OR push_bit 16 (ucast (buffer ! (t * 4 + 1)))
     OR push_bit 8 (ucast (buffer ! (t * 4 + 2))) OR ucast (buffer ! (t * 4 + 3))"

definition sha1_schedule :: "byte list \<Rightarrow> 32 word list" where
  "sha1_schedule buffer =
     fold (\<lambda>t w. w[t := rotateLeft 1 (w ! (t - 3) XOR w ! (t - 8) XOR w ! (t - 14) XOR w ! (t - 16))]) [16..<80]
       (fold (\<lambda>t w. w[t := sha1_word buffer t]) [0..<16] (replicate 80 0))"

type_synonym sha1_regs = "32 word \<times> 32 word \<times> 32 word \<times> 32 word \<times> 32 word"

fun sha1_round :: "32 word list \<Rightarrow> nat \<Rightarrow> sha1_regs \<Rightarrow> sha1_regs" where
  "sha1_round w t (a, b, c, d, e) = (rotateLeft 5 a + sha1_f t b c d + e + w ! t + sha1_k t, a, rotateLeft 30 b, c, d)"

definition sha1_processBlock :: "sha1 \<Rightarrow> sha1" where
  "sha1_processBlock s =
     (let w = sha1_schedule (s_buffer s); h = s_hash s;
          (a, b, c, d, e) = fold (sha1_round w) [0..<80] (h ! 0, h ! 1, h ! 2, h ! 3, h ! 4)
      in s\<lparr>s_hash := [h ! 0 + a, h ! 1 + b, h ! 2 + c, h ! 3 + d, h ! 4 + e], s_cursor := 0\<rparr>)"

definition sha1_put :: "byte \<Rightarrow> sha1 \<Rightarrow> sha1" where
  "sha1_put x s =
     (let s = s\<lparr>s_buffer := (s_buffer s)[s_cursor s := x], s_cursor := s_cursor s + 1, s_totalBytes := s_totalBytes s + 1\<rparr>
      in if s_cursor s = 64 then sha1_processBlock s else s)"

definition sha1_addBytes :: "byte list \<Rightarrow> sha1 \<Rightarrow> sha1" where
  "sha1_addBytes input s = fold sha1_put input s"

definition sha1_finalize :: "sha1 \<Rightarrow> sha1" where
  "sha1_finalize s =
     (let s = s\<lparr>s_buffer := (s_buffer s)[s_cursor s := 0x80], s_cursor := s_cursor s + 1\<rparr>;
          s = (if s_cursor s > 56
               then sha1_processBlock (s\<lparr>s_buffer := fold (\<lambda>i b. b[i := 0]) [s_cursor s..<64] (s_buffer s), s_cursor := 64\<rparr>)
               else s);
          b = fold (\<lambda>i b. b[i := 0]) [s_cursor s..<56] (s_buffer s);
          bits = s_totalBytes s * 8
      in sha1_processBlock (s\<lparr>s_buffer := store_be 56 8 bits b, s_cursor := 64\<rparr>))"

definition sha1_computeHash :: "sha1 \<Rightarrow> byte list \<times> sha1" where
  "sha1_computeHash s =
     (let s = sha1_finalize s
      in (fold (\<lambda>i digest. store_be (4 * i) 4 (s_hash s ! i) digest) [0..<5] (replicate 20 0), sha1_reset))"

definition hexDigest :: "byte list \<Rightarrow> wtf_string" where
  "hexDigest digest = concat (map (\<lambda>x. [upperHexDigits ! (unat x div 16), upperHexDigits ! (unat x mod 16)]) digest)"

definition computeHexDigest :: "sha1 \<Rightarrow> wtf_string \<times> sha1" where
  "computeHexDigest s = (let (digest, s) = sha1_computeHash s in (hexDigest digest, s))"

section \<open>The standard\<close>

text \<open>
  The message schedule by recursion, the compression of one block and the digest of a whole
  message, as FIPS 180 states them.
\<close>

fun sha1_W :: "byte list \<Rightarrow> nat \<Rightarrow> 32 word" where
  "sha1_W blk t =
     (if t < 16 then of_nat (2 ^ 24 * unat (blk ! (4 * t)) + 2 ^ 16 * unat (blk ! (4 * t + 1)) + 2 ^ 8 * unat (blk ! (4 * t + 2)) + unat (blk ! (4 * t + 3)))
      else rotateLeft 1 (sha1_W blk (t - 3) XOR sha1_W blk (t - 8) XOR sha1_W blk (t - 14) XOR sha1_W blk (t - 16)))"

declare sha1_W.simps [simp del]

fun sha1_compress :: "byte list \<Rightarrow> sha1_regs \<Rightarrow> sha1_regs" where
  "sha1_compress blk (h0, h1, h2, h3, h4) =
     (case fold (sha1_round (map (sha1_W blk) [0..<80])) [0..<80] (h0, h1, h2, h3, h4) of
       (a, b, c, d, e) \<Rightarrow> (h0 + a, h1 + b, h2 + c, h3 + d, h4 + e))"

fun sha1_out :: "sha1_regs \<Rightarrow> byte list" where
  "sha1_out (h0, h1, h2, h3, h4) = be_bytes 4 h0 @ be_bytes 4 h1 @ be_bytes 4 h2 @ be_bytes 4 h3 @ be_bytes 4 h4"

definition sha1_spec :: "byte list \<Rightarrow> byte list" where
  "sha1_spec m = sha1_out (fold sha1_compress (blocks (m @ padding (be_bytes 8) (length m)))
     (0x67452301, 0xefcdab89, 0x98badcfe, 0x10325476, 0xc3d2e1f0))"

lemma or_low_byte: "push_bit 8 y OR ucast d = 2 ^ 8 * y + (ucast d :: 32 word)" for d :: byte
proof -
  have "push_bit 8 y + (ucast d :: 32 word) = push_bit 8 y OR ucast d"
    by (rule disjunctive_add) (auto simp: bit_simps dest: bit_imp_le_length)
  then show ?thesis by (simp add: push_bit_eq_mult mult.commute)
qed

lemma or_four_bytes:
  "push_bit 24 (ucast a) OR push_bit 16 (ucast b) OR push_bit 8 (ucast c) OR ucast d
   = (of_nat (2 ^ 24 * unat a + 2 ^ 16 * unat b + 2 ^ 8 * unat c + unat d) :: 32 word)"
  for a b c d :: byte
proof -
  have "push_bit 24 (ucast a) OR push_bit 16 (ucast b) OR push_bit 8 (ucast c) OR ucast d
      = (push_bit 8 (push_bit 8 (push_bit 8 (ucast a) OR ucast b) OR ucast c) OR ucast d :: 32 word)"
    by (simp add: push_bit_or or.assoc)
  also have "\<dots> = 2 ^ 8 * (2 ^ 8 * (2 ^ 8 * ucast a + ucast b) + ucast c) + ucast d"
    by (simp only: or_low_byte)
  finally show ?thesis by (simp add: algebra_simps unsigned_of_nat of_nat_unat)
qed

lemma schedule_fold:
  assumes "length w = 80" "n \<le> 80" "16 \<le> n" "\<And>t. t < 16 \<Longrightarrow> w ! t = sha1_W blk t"
  shows "length (fold (\<lambda>t w. w[t := rotateLeft 1 (w ! (t - 3) XOR w ! (t - 8) XOR w ! (t - 14) XOR w ! (t - 16))]) [16..<n] w) = 80
    \<and> (\<forall>t < n. fold (\<lambda>t w. w[t := rotateLeft 1 (w ! (t - 3) XOR w ! (t - 8) XOR w ! (t - 14) XOR w ! (t - 16))]) [16..<n] w ! t = sha1_W blk t)"
  using assms(2,3)
proof (induction n)
  case (Suc n)
  show ?case
  proof (cases "n = 15")
    case True
    then show ?thesis using assms by simp
  next
    case False
    then show ?thesis using Suc by (auto simp: nth_list_update less_Suc_eq sha1_W.simps [of blk n])
  qed
qed simp

lemma fill_fold:
  "n \<le> length w \<Longrightarrow> length (fold (\<lambda>t w. w[t := f t]) [0..<n] w) = length w
     \<and> (\<forall>t < n. fold (\<lambda>t w. w[t := f t]) [0..<n] w ! t = f t)"
  by (induction n) (simp_all add: nth_list_update less_Suc_eq)

lemma sha1_schedule_eq: "sha1_schedule blk = map (sha1_W blk) [0..<80]"
proof (rule nth_equalityI)
  define w :: "32 word list" where "w = fold (\<lambda>t w. w[t := sha1_word blk t]) [0..<16] (replicate 80 0)"
  have "sha1_word blk t = sha1_W blk t" if "t < 16" for t
    using that unfolding sha1_word_def sha1_W.simps [of blk t] or_four_bytes by (simp add: mult.commute)
  moreover have "length w = length (replicate 80 (0 :: 32 word)) \<and> (\<forall>t < 16. w ! t = sha1_word blk t)"
    unfolding w_def by (rule fill_fold) (simp only: length_replicate)
  ultimately have "length w = 80" "\<And>t. t < 16 \<Longrightarrow> w ! t = sha1_W blk t" by (simp_all only: length_replicate)
  then have "length (sha1_schedule blk) = 80 \<and> (\<forall>t < 80. sha1_schedule blk ! t = sha1_W blk t)"
    unfolding sha1_schedule_def w_def [symmetric] by (intro schedule_fold order_refl) simp_all
  then show "length (sha1_schedule blk) = length (map (sha1_W blk) [0..<80])"
    and "\<And>t. t < length (sha1_schedule blk) \<Longrightarrow> sha1_schedule blk ! t = map (sha1_W blk) [0..<80] ! t"
    by (simp_all only: length_map length_upt nth_map nth_upt) (simp_all only: diff_zero add_0)
qed

section \<open>The implementation computes the standard\<close>

definition sha1_ok :: "sha1 \<Rightarrow> bool" where
  "sha1_ok s \<longleftrightarrow> length (s_buffer s) = 64 \<and> s_cursor s < 64"

definition sha1_regs :: "sha1 \<Rightarrow> sha1_regs" where
  "sha1_regs s = (s_hash s ! 0, s_hash s ! 1, s_hash s ! 2, s_hash s ! 3, s_hash s ! 4)"

definition sha1_pending :: "sha1 \<Rightarrow> byte list" where
  "sha1_pending s = take (s_cursor s) (s_buffer s)"

lemma processBlock_simps:
  "sha1_regs (sha1_processBlock s) = sha1_compress (s_buffer s) (sha1_regs s)"
  "s_buffer (sha1_processBlock s) = s_buffer s" "s_cursor (sha1_processBlock s) = 0"
  "s_totalBytes (sha1_processBlock s) = s_totalBytes s"
  unfolding sha1_processBlock_def sha1_regs_def sha1_compress.simps sha1_schedule_eq Let_def
  by (simp_all add: case_prod_beta del: upt_rec_numeral)

lemma sha1_put_step:
  assumes "sha1_ok s"
  shows "sha1_ok (sha1_put x s) \<and> sha1_regs (sha1_put x s) = fold sha1_compress (blocks (sha1_pending s @ [x])) (sha1_regs s)
    \<and> sha1_pending (sha1_put x s) = remainder (sha1_pending s @ [x]) \<and> s_totalBytes (sha1_put x s) = s_totalBytes s + 1"
proof -
  let ?s = "s\<lparr>s_buffer := (s_buffer s)[s_cursor s := x], s_cursor := s_cursor s + 1, s_totalBytes := s_totalBytes s + 1\<rparr>"
  have p: "take (Suc (s_cursor s)) ((s_buffer s)[s_cursor s := x]) = sha1_pending s @ [x]" "length (sha1_pending s) = s_cursor s"
    using assms by (simp_all add: sha1_ok_def sha1_pending_def take_Suc_conv_app_nth)
  show ?thesis
  proof (cases "s_cursor s = 63")
    case True
    then have "s_buffer ?s = sha1_pending s @ [x]"
      using p(1) assms by (simp add: sha1_ok_def)
    moreover have "sha1_put x s = sha1_processBlock ?s" using True by (simp add: sha1_put_def)
    moreover have "blocks (sha1_pending s @ [x]) = [sha1_pending s @ [x]]" "remainder (sha1_pending s @ [x]) = []"
      using p(2) True blocks_one [of "sha1_pending s @ [x]" "[]"] remainder_one [of "sha1_pending s @ [x]" "[]"] by simp_all
    moreover have "sha1_regs ?s = sha1_regs s" by (simp add: sha1_regs_def)
    ultimately show ?thesis using p(2) True
      by (simp add: processBlock_simps sha1_ok_def sha1_pending_def)
  next
    case False
    then have "sha1_put x s = ?s" "s_cursor s < 63" using assms by (simp_all add: sha1_put_def sha1_ok_def)
    then show ?thesis using p assms
      by (simp add: sha1_ok_def sha1_pending_def sha1_regs_def)
  qed
qed

lemma sha1_addBytes_step:
  "sha1_ok s \<Longrightarrow> sha1_ok (sha1_addBytes xs s)
    \<and> sha1_regs (sha1_addBytes xs s) = fold sha1_compress (blocks (sha1_pending s @ xs)) (sha1_regs s)
    \<and> sha1_pending (sha1_addBytes xs s) = remainder (sha1_pending s @ xs)
    \<and> s_totalBytes (sha1_addBytes xs s) = s_totalBytes s + of_nat (length xs)"
proof (induction xs arbitrary: s)
  case Nil
  then have "length (sha1_pending s) < 64" by (simp add: sha1_ok_def sha1_pending_def)
  with Nil show ?case by (simp add: sha1_addBytes_def)
next
  case (Cons x xs)
  have "blocks (sha1_pending s @ x # xs) = blocks (sha1_pending s @ [x]) @ blocks (remainder (sha1_pending s @ [x]) @ xs)"
    "remainder (sha1_pending s @ x # xs) = remainder (remainder (sha1_pending s @ [x]) @ xs)"
    using blocks_append [of "sha1_pending s @ [x]" xs] remainder_append [of "sha1_pending s @ [x]" xs] by simp_all
  moreover have "sha1_addBytes (x # xs) s = sha1_addBytes xs (sha1_put x s)" by (simp add: sha1_addBytes_def)
  ultimately show ?case using Cons.IH [of "sha1_put x s"] sha1_put_step [OF Cons.prems, of x] by simp
qed

lemma zero_fold: "k \<le> n \<Longrightarrow> n \<le> length b \<Longrightarrow> fold (\<lambda>i b. b[i := 0]) [k..<n] b = take k b @ replicate (n - k) (0 :: byte) @ drop n b"
proof (induction n)
  case (Suc n)
  show ?case
  proof (cases "k = Suc n")
    case False
    then have "drop n b = b ! n # drop (Suc n) b" using Suc.prems by (simp add: Cons_nth_drop_Suc)
    with False Suc show ?thesis by (simp add: list_update_append Suc_diff_le replicate_app_Cons_same [symmetric])
  qed simp
qed simp

text \<open>The buffer once the first padding byte is written: what was pending, that byte, and old bytes.\<close>

lemma first_padding:
  assumes "length b = 64" "c < 64"
  shows "b[c := x] = take c b @ x # drop (Suc c) b"
  using assms by (simp add: upd_conv_take_nth_drop)

lemma sha1_finalize_step:
  assumes "sha1_ok s"
  shows "sha1_regs (sha1_finalize s) = fold sha1_compress (blocks (sha1_pending s @ 0x80 #
    replicate (nat ((55 - int (length (sha1_pending s))) mod 64)) 0 @ be_bytes 8 (s_totalBytes s * 8))) (sha1_regs s)"
proof -
  define p where "p = sha1_pending s"
  define c where "c = s_cursor s"
  define b where "b = (s_buffer s)[c := 0x80]"
  let ?len = "be_bytes 8 (s_totalBytes s * 8)"
  have lp: "length p = c" "c < 64" "length b = 64" using assms by (simp_all add: p_def c_def b_def sha1_ok_def sha1_pending_def)
  have b: "b = p @ 0x80 # drop (Suc c) (s_buffer s)"
    unfolding b_def p_def sha1_pending_def c_def using assms by (intro first_padding) (simp_all add: sha1_ok_def)
  have regs: "sha1_regs (s\<lparr>s_buffer := x, s_cursor := y\<rparr>) = sha1_regs s" for x y by (simp add: sha1_regs_def)
  show ?thesis
  proof (cases "c < 56")
    case True
    have z: "fold (\<lambda>i b. b[i := 0]) [Suc c..<56] b = p @ 0x80 # replicate (55 - c) 0 @ drop 56 b"
      using zero_fold [of "Suc c" 56 b] True lp b by simp
    have "sha1_finalize s = sha1_processBlock (s\<lparr>s_buffer := store_be 56 8 (s_totalBytes s * 8) (fold (\<lambda>i b. b[i := 0]) [Suc c..<56] b), s_cursor := 64\<rparr>)"
      using True by (simp add: sha1_finalize_def b_def c_def Let_def del: upt_rec_numeral)
    moreover have "store_be 56 8 (s_totalBytes s * 8) (fold (\<lambda>i b. b[i := 0]) [Suc c..<56] b) = p @ 0x80 # replicate (55 - c) 0 @ ?len"
      unfolding z using True lp store_be_tail [of "p @ 0x80 # replicate (55 - c) 0" 56 "drop 56 b" 8 "s_totalBytes s * 8"] by simp
    moreover note padded_one [of p ?len]
    ultimately show ?thesis
      using True by (simp add: processBlock_simps regs p_def [symmetric] lp)
  next
    case False
    let ?b1 = "p @ 0x80 # replicate (63 - c) 0"
    have z: "fold (\<lambda>i b. b[i := 0]) [Suc c..<64] b = ?b1"
      using zero_fold [of "Suc c" 64 b] lp b by simp
    have z': "fold (\<lambda>i b. b[i := 0]) [0..<56] ?b1 = replicate 56 0 @ drop 56 ?b1"
      using zero_fold [of 0 56 ?b1] lp by (simp del: upt_rec_numeral)
    have d: "length ?b1 - 56 = 8" using lp by simp
    let ?t = "sha1_processBlock (s\<lparr>s_buffer := ?b1, s_cursor := 64\<rparr>)"
    have "sha1_finalize s = sha1_processBlock (?t\<lparr>s_buffer := store_be 56 8 (s_totalBytes s * 8) (fold (\<lambda>i b. b[i := 0]) [0..<56] ?b1), s_cursor := 64\<rparr>)"
      using False by (simp add: sha1_finalize_def Let_def c_def [symmetric] b_def [symmetric] z processBlock_simps del: upt_rec_numeral)
    moreover have "store_be 56 8 (s_totalBytes s * 8) (fold (\<lambda>i b. b[i := 0]) [0..<56] ?b1) = replicate 56 0 @ ?len"
      unfolding z' by (rule store_be_tail) (simp_all only: length_replicate length_drop d)
    moreover have "sha1_regs (?t\<lparr>s_buffer := x, s_cursor := y\<rparr>) = sha1_regs ?t" for x y by (simp add: sha1_regs_def)
    moreover note padded_two [of p ?len]
    ultimately show ?thesis
      using False by (simp add: processBlock_simps regs p_def [symmetric] lp)
  qed
qed

lemma sha1_digest_bytes:
  "fold (\<lambda>i digest. store_be (4 * i) 4 (h ! i) digest) [0..<5] (replicate 20 0)
   = sha1_out (h ! 0, h ! 1, h ! 2, h ! 3, h ! 4)"
proof -
  have "[0..<5] = [0, 1, 2, 3, 4 :: nat]" by (simp add: upt_rec)
  then show ?thesis by (simp add: store_be_eq)
qed

interpretation sha1: stream_digest sha1_compress sha1_reset sha1_addBytes "\<lambda>s. fst (sha1_computeHash s)" "be_bytes 8" sha1_out
  sha1_ok sha1_regs sha1_pending "\<lambda>s. s_totalBytes s * 8"
proof unfold_locales
  show "sha1_ok sha1_reset" "sha1_pending sha1_reset = []" "s_totalBytes sha1_reset * 8 = 0"
    by (simp_all add: sha1_ok_def sha1_reset_def sha1_pending_def)
next
  fix s xs assume "sha1_ok s"
  then show "sha1_ok (sha1_addBytes xs s) \<and> sha1_regs (sha1_addBytes xs s) = fold sha1_compress (blocks (sha1_pending s @ xs)) (sha1_regs s)
      \<and> sha1_pending (sha1_addBytes xs s) = remainder (sha1_pending s @ xs)
      \<and> s_totalBytes (sha1_addBytes xs s) * 8 = s_totalBytes s * 8 + of_nat (8 * length xs)"
    using sha1_addBytes_step [of s xs] by (simp add: algebra_simps)
next
  fix s assume "sha1_ok s"
  from sha1_finalize_step [OF this]
  show "fst (sha1_computeHash s) = sha1_out (fold sha1_compress (blocks (sha1_pending s @ 0x80 #
      replicate (nat ((55 - int (length (sha1_pending s))) mod 64)) 0 @ be_bytes 8 (s_totalBytes s * 8))) (sha1_regs s))"
    unfolding sha1_computeHash_def Let_def fst_conv sha1_digest_bytes by (simp only: sha1_regs_def)
qed simp

text \<open>
  C0: However a message is split over calls of \<open>addBytes\<close>, \<open>computeHash\<close> returns the SHA-1 digest
  of the standard for the whole message, for every length, and leaves the object as new.
\<close>

theorem sha1_streaming:
  "sha1_computeHash (fold sha1_addBytes chunks sha1_reset) = (sha1_spec (concat chunks), sha1_reset)"
proof -
  have "sha1_regs sha1_reset = (0x67452301, 0xefcdab89, 0x98badcfe, 0x10325476, 0xc3d2e1f0)"
    by (simp add: sha1_regs_def sha1_reset_def)
  moreover have "snd (sha1_computeHash s) = sha1_reset" for s by (simp add: sha1_computeHash_def Let_def)
  ultimately show ?thesis using sha1.digest [of chunks] by (intro prod_eqI) (simp_all add: sha1_spec_def)
qed

end
