(* ===== verification/Wtf_Md5.thy ===== *)
theory Wtf_Md5
  imports Wtf_Digest
begin

text \<open>
  The MD5 hash of \<open>WTF/wtf/MD5.cpp\<close> on hosts of either byte order, and the hash of a whole
  message as RFC 1321 gives it.
\<close>

section \<open>MD5\<close>

record md5 =
  d_buf :: "32 word list"
  d_bits0 :: "32 word"
  d_bits1 :: "32 word"
  d_in :: "byte list"

text \<open>The memory of a 32-bit word, for a machine with the given byte order, and its value as little-endian bytes.\<close>

definition host_bytes :: "bool \<Rightarrow> 32 word \<Rightarrow> byte list" where
  "host_bytes big w = (if big then be_bytes 4 w else rev (be_bytes 4 w))"

definition le_word :: "byte \<Rightarrow> byte \<Rightarrow> byte \<Rightarrow> byte \<Rightarrow> 32 word" where
  "le_word b0 b1 b2 b3 = push_bit 16 (push_bit 8 (ucast b3) OR ucast b2) OR push_bit 8 (ucast b1) OR ucast b0"

definition host_word :: "bool \<Rightarrow> byte \<Rightarrow> byte \<Rightarrow> byte \<Rightarrow> byte \<Rightarrow> 32 word" where
  "host_word big b0 b1 b2 b3 = (if big then le_word b3 b2 b1 b0 else le_word b0 b1 b2 b3)"

fun toLittleEndian :: "bool \<Rightarrow> byte list \<Rightarrow> nat \<Rightarrow> byte list" where
  "toLittleEndian big (b0 # b1 # b2 # b3 # bs) (Suc longs) = host_bytes big (le_word b0 b1 b2 b3) @ toLittleEndian big bs longs"
| "toLittleEndian big bs longs = bs"

text \<open>\<open>reinterpret_cast<uint32_t*>\<close>: the words at the addresses of the bytes.\<close>

fun host_words :: "bool \<Rightarrow> byte list \<Rightarrow> 32 word list" where
  "host_words big (b0 # b1 # b2 # b3 # bs) = host_word big b0 b1 b2 b3 # host_words big bs"
| "host_words big bs = []"

datatype md5_function = F1 | F2 | F3 | F4
datatype md5_register = RA | RB | RC | RD

fun md5_apply :: "md5_function \<Rightarrow> 32 word \<Rightarrow> 32 word \<Rightarrow> 32 word \<Rightarrow> 32 word" where
  "md5_apply F1 x y z = z XOR (x AND (y XOR z))"
| "md5_apply F2 x y z = y XOR (z AND (x XOR y))"
| "md5_apply F3 x y z = x XOR y XOR z"
| "md5_apply F4 x y z = y XOR (x OR NOT z)"

text \<open>\<open>MD5STEP(f, w, x, y, z, data, s)\<close> with \<open>data\<close> as an index of the input and a constant.\<close>

type_synonym md5_step = "md5_function \<times> md5_register \<times> md5_register \<times> md5_register \<times> md5_register \<times> nat \<times> 32 word \<times> nat"

fun MD5STEP :: "32 word list \<Rightarrow> md5_step \<Rightarrow> (md5_register \<Rightarrow> 32 word) \<Rightarrow> md5_register \<Rightarrow> 32 word" where
  "MD5STEP input (f, w, x, y, z, i, k, s) r =
     (let r = r(w := r w + (md5_apply f (r x) (r y) (r z) + (input ! i + k)));
          r = r(w := push_bit s (r w) OR drop_bit (32 - s) (r w))
      in r(w := r w + r x))"

definition md5_steps :: "md5_step list" where
  "md5_steps =
    [(F1, RA, RB, RC, RD, 0, 0xd76aa478, 7), (F1, RD, RA, RB, RC, 1, 0xe8c7b756, 12),
     (F1, RC, RD, RA, RB, 2, 0x242070db, 17), (F1, RB, RC, RD, RA, 3, 0xc1bdceee, 22),
     (F1, RA, RB, RC, RD, 4, 0xf57c0faf, 7), (F1, RD, RA, RB, RC, 5, 0x4787c62a, 12),
     (F1, RC, RD, RA, RB, 6, 0xa8304613, 17), (F1, RB, RC, RD, RA, 7, 0xfd469501, 22),
     (F1, RA, RB, RC, RD, 8, 0x698098d8, 7), (F1, RD, RA, RB, RC, 9, 0x8b44f7af, 12),
     (F1, RC, RD, RA, RB, 10, 0xffff5bb1, 17), (F1, RB, RC, RD, RA, 11, 0x895cd7be, 22),
     (F1, RA, RB, RC, RD, 12, 0x6b901122, 7), (F1, RD, RA, RB, RC, 13, 0xfd987193, 12),
     (F1, RC, RD, RA, RB, 14, 0xa679438e, 17), (F1, RB, RC, RD, RA, 15, 0x49b40821, 22),
     (F2, RA, RB, RC, RD, 1, 0xf61e2562, 5), (F2, RD, RA, RB, RC, 6, 0xc040b340, 9),
     (F2, RC, RD, RA, RB, 11, 0x265e5a51, 14), (F2, RB, RC, RD, RA, 0, 0xe9b6c7aa, 20),
     (F2, RA, RB, RC, RD, 5, 0xd62f105d, 5), (F2, RD, RA, RB, RC, 10, 0x02441453, 9),
     (F2, RC, RD, RA, RB, 15, 0xd8a1e681, 14), (F2, RB, RC, RD, RA, 4, 0xe7d3fbc8, 20),
     (F2, RA, RB, RC, RD, 9, 0x21e1cde6, 5), (F2, RD, RA, RB, RC, 14, 0xc33707d6, 9),
     (F2, RC, RD, RA, RB, 3, 0xf4d50d87, 14), (F2, RB, RC, RD, RA, 8, 0x455a14ed, 20),
     (F2, RA, RB, RC, RD, 13, 0xa9e3e905, 5), (F2, RD, RA, RB, RC, 2, 0xfcefa3f8, 9),
     (F2, RC, RD, RA, RB, 7, 0x676f02d9, 14), (F2, RB, RC, RD, RA, 12, 0x8d2a4c8a, 20),
     (F3, RA, RB, RC, RD, 5, 0xfffa3942, 4), (F3, RD, RA, RB, RC, 8, 0x8771f681, 11),
     (F3, RC, RD, RA, RB, 11, 0x6d9d6122, 16), (F3, RB, RC, RD, RA, 14, 0xfde5380c, 23),
     (F3, RA, RB, RC, RD, 1, 0xa4beea44, 4), (F3, RD, RA, RB, RC, 4, 0x4bdecfa9, 11),
     (F3, RC, RD, RA, RB, 7, 0xf6bb4b60, 16), (F3, RB, RC, RD, RA, 10, 0xbebfbc70, 23),
     (F3, RA, RB, RC, RD, 13, 0x289b7ec6, 4), (F3, RD, RA, RB, RC, 0, 0xeaa127fa, 11),
     (F3, RC, RD, RA, RB, 3, 0xd4ef3085, 16), (F3, RB, RC, RD, RA, 6, 0x04881d05, 23),
     (F3, RA, RB, RC, RD, 9, 0xd9d4d039, 4), (F3, RD, RA, RB, RC, 12, 0xe6db99e5, 11),
     (F3, RC, RD, RA, RB, 15, 0x1fa27cf8, 16), (F3, RB, RC, RD, RA, 2, 0xc4ac5665, 23),
     (F4, RA, RB, RC, RD, 0, 0xf4292244, 6), (F4, RD, RA, RB, RC, 7, 0x432aff97, 10),
     (F4, RC, RD, RA, RB, 14, 0xab9423a7, 15), (F4, RB, RC, RD, RA, 5, 0xfc93a039, 21),
     (F4, RA, RB, RC, RD, 12, 0x655b59c3, 6), (F4, RD, RA, RB, RC, 3, 0x8f0ccc92, 10),
     (F4, RC, RD, RA, RB, 10, 0xffeff47d, 15), (F4, RB, RC, RD, RA, 1, 0x85845dd1, 21),
     (F4, RA, RB, RC, RD, 8, 0x6fa87e4f, 6), (F4, RD, RA, RB, RC, 15, 0xfe2ce6e0, 10),
     (F4, RC, RD, RA, RB, 6, 0xa3014314, 15), (F4, RB, RC, RD, RA, 13, 0x4e0811a1, 21),
     (F4, RA, RB, RC, RD, 4, 0xf7537e82, 6), (F4, RD, RA, RB, RC, 11, 0xbd3af235, 10),
     (F4, RC, RD, RA, RB, 2, 0x2ad7d2bb, 15), (F4, RB, RC, RD, RA, 9, 0xeb86d391, 21)]"

definition MD5Transform :: "32 word list \<Rightarrow> 32 word list \<Rightarrow> 32 word list" where
  "MD5Transform buf input =
     (let r = fold (MD5STEP input) md5_steps ((\<lambda>_. 0)(RA := buf ! 0, RB := buf ! 1, RC := buf ! 2, RD := buf ! 3))
      in [buf ! 0 + r RA, buf ! 1 + r RB, buf ! 2 + r RC, buf ! 3 + r RD])"

definition MD5 :: md5 where
  "MD5 = \<lparr>d_buf = [0x67452301, 0xefcdab89, 0x98badcfe, 0x10325476], d_bits0 = 0, d_bits1 = 0, d_in = replicate 64 0\<rparr>"

text \<open>\<open>memcpy(m_in + k, xs, n)\<close>\<close>

definition write_at :: "nat \<Rightarrow> byte list \<Rightarrow> byte list \<Rightarrow> byte list" where
  "write_at k xs b = take k b @ xs @ drop (k + length xs) b"

definition md5_transform_in :: "bool \<Rightarrow> md5 \<Rightarrow> md5" where
  "md5_transform_in big s =
     (let b = toLittleEndian big (d_in s) 16 in s\<lparr>d_in := b, d_buf := MD5Transform (d_buf s) (host_words big b)\<rparr>)"

function md5_chunks :: "bool \<Rightarrow> byte list \<Rightarrow> md5 \<Rightarrow> md5" where
  "md5_chunks big buf s =
     (if length buf \<ge> 64
      then md5_chunks big (drop 64 buf) (md5_transform_in big (s\<lparr>d_in := write_at 0 (take 64 buf) (d_in s)\<rparr>))
      else s\<lparr>d_in := write_at 0 buf (d_in s)\<rparr>)"
  by pat_completeness auto
termination
  by (relation "measure (\<lambda>(_, buf, _). length buf)") auto

declare md5_chunks.simps [simp del]

definition md5_addBytes :: "bool \<Rightarrow> byte list \<Rightarrow> md5 \<Rightarrow> md5" where
  "md5_addBytes big input s =
     (let t = d_bits0 s;
          s = s\<lparr>d_bits0 := t + of_nat (length input * 8)\<rparr>;
          s = (if d_bits0 s < t then s\<lparr>d_bits1 := d_bits1 s + 1\<rparr> else s);
          s = s\<lparr>d_bits1 := d_bits1 s + of_nat (length input div 2 ^ 29)\<rparr>;
          t = unat (drop_bit 3 t AND 0x3f)
      in if t \<noteq> 0
         then let n = 64 - t
              in if length input < n then s\<lparr>d_in := write_at t input (d_in s)\<rparr>
                 else md5_chunks big (drop n input) (md5_transform_in big (s\<lparr>d_in := write_at t (take n input) (d_in s)\<rparr>))
         else md5_chunks big input s)"

definition md5_checksum :: "bool \<Rightarrow> md5 \<Rightarrow> byte list \<times> md5" where
  "md5_checksum big s =
     (let count = unat (drop_bit 3 (d_bits0 s) AND 0x3F);
          s = s\<lparr>d_in := (d_in s)[count := 0x80]\<rparr>;
          p = count + 1;
          count = 64 - 1 - count;
          s = (if count < 8
               then let s = md5_transform_in big (s\<lparr>d_in := write_at p (replicate count 0) (d_in s)\<rparr>)
                    in s\<lparr>d_in := write_at 0 (replicate 56 0) (d_in s)\<rparr>
               else s\<lparr>d_in := write_at p (replicate (count - 8) 0) (d_in s)\<rparr>);
          b = write_at 56 (host_bytes big (d_bits0 s) @ host_bytes big (d_bits1 s)) (toLittleEndian big (d_in s) 14);
          buf = MD5Transform (d_buf s) (host_words big b)
      in (toLittleEndian big (concat (map (host_bytes big) buf)) 4,
          \<lparr>d_buf = replicate 4 0, d_bits0 = 0, d_bits1 = 0, d_in = replicate 64 0\<rparr>))"

section \<open>The standard\<close>

text \<open>RFC 1321: the four functions, the table, and the order in which a round reads the block.\<close>

definition md5_T :: "32 word list" where
  "md5_T =
    [0xd76aa478, 0xe8c7b756, 0x242070db, 0xc1bdceee, 0xf57c0faf, 0x4787c62a, 0xa8304613, 0xfd469501,
     0x698098d8, 0x8b44f7af, 0xffff5bb1, 0x895cd7be, 0x6b901122, 0xfd987193, 0xa679438e, 0x49b40821,
     0xf61e2562, 0xc040b340, 0x265e5a51, 0xe9b6c7aa, 0xd62f105d, 0x02441453, 0xd8a1e681, 0xe7d3fbc8,
     0x21e1cde6, 0xc33707d6, 0xf4d50d87, 0x455a14ed, 0xa9e3e905, 0xfcefa3f8, 0x676f02d9, 0x8d2a4c8a,
     0xfffa3942, 0x8771f681, 0x6d9d6122, 0xfde5380c, 0xa4beea44, 0x4bdecfa9, 0xf6bb4b60, 0xbebfbc70,
     0x289b7ec6, 0xeaa127fa, 0xd4ef3085, 0x04881d05, 0xd9d4d039, 0xe6db99e5, 0x1fa27cf8, 0xc4ac5665,
     0xf4292244, 0x432aff97, 0xab9423a7, 0xfc93a039, 0x655b59c3, 0x8f0ccc92, 0xffeff47d, 0x85845dd1,
     0x6fa87e4f, 0xfe2ce6e0, 0xa3014314, 0x4e0811a1, 0xf7537e82, 0xbd3af235, 0x2ad7d2bb, 0xeb86d391]"

definition md5_shift :: "nat \<Rightarrow> nat" where
  "md5_shift i = [[7, 12, 17, 22], [5, 9, 14, 20], [4, 11, 16, 23], [6, 10, 15, 21]] ! (i div 16) ! (i mod 4)"

definition md5_index :: "nat \<Rightarrow> nat" where
  "md5_index i = (if i < 16 then i else if i < 32 then (5 * i + 1) mod 16 else if i < 48 then (3 * i + 5) mod 16 else 7 * i mod 16)"

definition md5_mix :: "nat \<Rightarrow> 32 word \<Rightarrow> 32 word \<Rightarrow> 32 word \<Rightarrow> 32 word" where
  "md5_mix i b c d =
     (if i < 16 then (b AND c) OR (NOT b AND d)
      else if i < 32 then (b AND d) OR (c AND NOT d)
      else if i < 48 then b XOR c XOR d
      else c XOR (b OR NOT d))"

type_synonym md5_regs = "32 word \<times> 32 word \<times> 32 word \<times> 32 word"

definition md5_rotate :: "nat \<Rightarrow> 32 word \<Rightarrow> 32 word" where
  "md5_rotate n x = push_bit n x OR drop_bit (32 - n) x"

fun md5_round :: "32 word list \<Rightarrow> nat \<Rightarrow> md5_regs \<Rightarrow> md5_regs" where
  "md5_round x i (a, b, c, d) =
     (d, b + md5_rotate (md5_shift i) (a + md5_mix i b c d + x ! md5_index i + md5_T ! i), b, c)"

fun le_words :: "byte list \<Rightarrow> 32 word list" where
  "le_words (b0 # b1 # b2 # b3 # bs) = le_word b0 b1 b2 b3 # le_words bs"
| "le_words bs = []"

fun md5_compress :: "byte list \<Rightarrow> md5_regs \<Rightarrow> md5_regs" where
  "md5_compress blk (a, b, c, d) =
     (case fold (md5_round (le_words blk)) [0..<64] (a, b, c, d) of (a', b', c', d') \<Rightarrow> (a + a', b + b', c + c', d + d'))"

fun md5_out :: "md5_regs \<Rightarrow> byte list" where
  "md5_out (a, b, c, d) = rev (be_bytes 4 a) @ rev (be_bytes 4 b) @ rev (be_bytes 4 c) @ rev (be_bytes 4 d)"

definition md5_spec :: "byte list \<Rightarrow> byte list" where
  "md5_spec m = md5_out (fold md5_compress (blocks (m @ padding (\<lambda>n. rev (be_bytes 8 n)) (length m)))
     (0x67452301, 0xefcdab89, 0x98badcfe, 0x10325476))"

section \<open>The unrolled rounds\<close>

text \<open>The register that plays each part in step \<open>i\<close>, and the function of its round.\<close>

definition md5_part :: "nat \<Rightarrow> nat \<Rightarrow> md5_register" where
  "md5_part i k = rotate (3 * i) [RA, RB, RC, RD] ! k"

definition md5_function_of :: "nat \<Rightarrow> md5_function" where
  "md5_function_of i = [F1, F2, F3, F4] ! (i div 16)"

lemma md5_steps_eq:
  "md5_steps = map (\<lambda>i. (md5_function_of i, md5_part i 0, md5_part i 1, md5_part i 2, md5_part i 3, md5_index i, md5_T ! i, md5_shift i)) [0..<64]"
  by (simp add: upt_rec rotate_drop_take md5_steps_def md5_function_of_def md5_part_def md5_index_def md5_T_def md5_shift_def)

lemma md5_apply_mix: "i < 64 \<Longrightarrow> md5_apply (md5_function_of i) b c d = md5_mix i b c d"
proof -
  have f1: "d XOR (b AND (c XOR d)) = (b AND c) OR (NOT b AND d)" and f2: "c XOR (d AND (b XOR c)) = (b AND d) OR (c AND NOT d)"
    by (rule bit_word_eqI, auto simp: bit_simps)+
  assume "i < 64"
  then consider "i div 16 = 0" "i < 16" | "i div 16 = 1" "16 \<le> i" "i < 32" | "i div 16 = 2" "32 \<le> i" "i < 48" | "i div 16 = 3" "48 \<le> i"
    by linarith
  then show ?thesis
  proof cases
    case 1
    then show ?thesis unfolding md5_function_of_def md5_mix_def by (simp only: nth_Cons_0 md5_apply.simps f1 if_True)
  next
    case 2
    then show ?thesis unfolding md5_function_of_def md5_mix_def by (simp only: nth_Cons_0 nth_Cons_Suc One_nat_def md5_apply.simps f2 if_True) simp
  qed (simp_all add: md5_function_of_def md5_mix_def)
qed

lemma md5_part_Suc:
  "md5_part (Suc i) 0 = md5_part i 3" "md5_part (Suc i) 1 = md5_part i 0" "md5_part (Suc i) 2 = md5_part i 1" "md5_part (Suc i) 3 = md5_part i 2"
proof -
  define xs where "xs = rotate (3 * i) [RA, RB, RC, RD]"
  have "rotate (3 * Suc i) [RA, RB, RC, RD] = rotate 3 xs" by (simp only: xs_def rotate_rotate mult_Suc_right)
  moreover have "length xs = 4" by (simp add: xs_def)
  then obtain a b c d where "xs = [a, b, c, d]" by (auto simp: length_Suc_conv numeral_eq_Suc)
  ultimately show "md5_part (Suc i) 0 = md5_part i 3" "md5_part (Suc i) 1 = md5_part i 0" "md5_part (Suc i) 2 = md5_part i 1" "md5_part (Suc i) 3 = md5_part i 2"
    unfolding md5_part_def xs_def [symmetric] by (simp_all add: rotate_drop_take)
qed

lemma md5_part_distinct: "j < 4 \<Longrightarrow> k < 4 \<Longrightarrow> md5_part i j = md5_part i k \<longleftrightarrow> j = k"
  unfolding md5_part_def by (rule nth_eq_iff_index_eq) simp_all

text \<open>Running the steps on the registers is running the rounds on the tuple, seen through the parts.\<close>

definition md5_view :: "nat \<Rightarrow> (md5_register \<Rightarrow> 32 word) \<Rightarrow> md5_regs" where
  "md5_view i r = (r (md5_part i 0), r (md5_part i 1), r (md5_part i 2), r (md5_part i 3))"

lemma MD5STEP_round:
  assumes "i < 64"
  shows "md5_view (Suc i) (MD5STEP x (md5_steps ! i) r) = md5_round x i (md5_view i r)"
proof -
  have "md5_steps ! i = (md5_function_of i, md5_part i 0, md5_part i 1, md5_part i 2, md5_part i 3, md5_index i, md5_T ! i, md5_shift i)"
    using assms by (simp add: md5_steps_eq)
  then show ?thesis using assms
    by (simp add: md5_view_def md5_part_Suc [simplified] md5_part_distinct md5_apply_mix md5_rotate_def Let_def add_ac)
qed

lemma md5_rounds:
  "n \<le> 64 \<Longrightarrow> md5_view n (fold (MD5STEP x) (take n md5_steps) r) = fold (md5_round x) [0..<n] (md5_view 0 r)"
proof (induction n)
  case (Suc n)
  moreover have "n < length md5_steps" using Suc.prems by (simp add: md5_steps_eq)
  ultimately show ?case by (simp add: take_Suc_conv_app_nth MD5STEP_round)
qed simp

lemma MD5Transform_eq:
  assumes "words = le_words blk"
  shows "MD5Transform [a, b, c, d] words = (case md5_compress blk (a, b, c, d) of (a, b, c, d) \<Rightarrow> [a, b, c, d])"
proof -
  let ?r = "(\<lambda>_. 0)(RA := a, RB := b, RC := c, RD := d)"
  have "take 64 md5_steps = md5_steps" by (simp add: md5_steps_eq)
  then have "md5_view 64 (fold (MD5STEP words) md5_steps ?r) = fold (md5_round words) [0..<64] (md5_view 0 ?r)"
    using md5_rounds [of 64 words ?r] by (simp only: order_refl)
  moreover have "md5_view 64 r = (r RA, r RB, r RC, r RD)" "md5_view 0 r = (r RA, r RB, r RC, r RD)" for r
    by (simp_all add: md5_view_def md5_part_def rotate_drop_take)
  ultimately have "fold (md5_round words) [0..<64] (a, b, c, d)
      = (fold (MD5STEP words) md5_steps ?r RA, fold (MD5STEP words) md5_steps ?r RB, fold (MD5STEP words) md5_steps ?r RC, fold (MD5STEP words) md5_steps ?r RD)"
    by simp
  then show ?thesis unfolding assms by (simp add: MD5Transform_def Let_def)
qed

section \<open>Byte order\<close>

lemma be_bytes_4: "be_bytes 4 w = [ucast (drop_bit 24 w), ucast (drop_bit 16 w), ucast (drop_bit 8 w), ucast w]" for w :: "32 word"
  by (simp add: numeral_eq_Suc)

lemma le_word_bytes:
  "ucast (le_word a b c d) = a" "ucast (drop_bit 8 (le_word a b c d)) = b"
  "ucast (drop_bit 16 (le_word a b c d)) = c" "ucast (drop_bit 24 (le_word a b c d)) = d"
  unfolding le_word_def by (rule bit_word_eqI, auto simp: bit_simps dest: bit_imp_le_length)+

lemma le_word_ucast: "le_word (ucast w) (ucast (drop_bit 8 w)) (ucast (drop_bit 16 w)) (ucast (drop_bit 24 w)) = w" for w :: "32 word"
proof (rule bit_word_eqI)
  fix n assume "n < LENGTH(32)"
  then consider "n < 8" | "8 \<le> n" "n < 16" | "16 \<le> n" "n < 24" | "24 \<le> n" "n < 32" by fastforce
  then show "bit (le_word (ucast w) (ucast (drop_bit 8 w)) (ucast (drop_bit 16 w)) (ucast (drop_bit 24 w))) n = bit w n"
    by cases (auto simp: le_word_def bit_simps)
qed

lemma host_bytes_cases: "host_bytes big w = (if big then [ucast (drop_bit 24 w), ucast (drop_bit 16 w), ucast (drop_bit 8 w), ucast w]
    else [ucast w, ucast (drop_bit 8 w), ucast (drop_bit 16 w), ucast (drop_bit 24 w)])"
  by (simp add: host_bytes_def be_bytes_4)

lemma length_host_bytes [simp]: "length (host_bytes big w) = 4"
  by (simp add: host_bytes_cases)

lemma host_words_host_bytes: "host_words big (host_bytes big w @ bs) = w # host_words big bs"
  by (simp add: host_bytes_cases host_word_def le_word_ucast)

lemma toLittleEndian_host_bytes: "toLittleEndian big (host_bytes big w @ bs) (Suc n) = rev (be_bytes 4 w) @ toLittleEndian big bs n"
  by (simp add: host_bytes_cases be_bytes_4 le_word_bytes)


lemma length_toLittleEndian [simp]: "length (toLittleEndian big bs n) = length bs"
  by (induction big bs n rule: toLittleEndian.induct) simp_all

lemma host_words_toLittleEndian: "length bs = 4 * n \<Longrightarrow> host_words big (toLittleEndian big bs n @ cs) = le_words bs @ host_words big cs"
proof (induction n arbitrary: bs)
  case (Suc n)
  then obtain b0 b1 b2 b3 bs' where "bs = b0 # b1 # b2 # b3 # bs'" "length bs' = 4 * n"
    by (auto simp: length_Suc_conv numeral_eq_Suc)
  with Suc.IH [of bs'] show ?case by (simp add: host_words_host_bytes)
qed simp

lemma toLittleEndian_append: "length bs = 4 * n \<Longrightarrow> toLittleEndian big (bs @ cs) n = toLittleEndian big bs n @ cs"
proof (induction n arbitrary: bs)
  case 0
  then show ?case by simp
next
  case (Suc n)
  then obtain b0 b1 b2 b3 bs' where "bs = b0 # b1 # b2 # b3 # bs'" "length bs' = 4 * n"
    by (auto simp: length_Suc_conv numeral_eq_Suc)
  with Suc.IH [of bs'] show ?case by simp
qed

lemma le_words_append: "length bs = 4 * n \<Longrightarrow> le_words (bs @ cs) = le_words bs @ le_words cs"
proof (induction n arbitrary: bs)
  case (Suc n)
  then obtain b0 b1 b2 b3 bs' where "bs = b0 # b1 # b2 # b3 # bs'" "length bs' = 4 * n"
    by (auto simp: length_Suc_conv numeral_eq_Suc)
  with Suc.IH [of bs'] show ?case by simp
qed simp

lemma le_words_length_field:
  "le_words (rev (be_bytes 8 (push_bit 32 (ucast hi) OR ucast lo :: 64 word))) = [lo, hi]" for hi lo :: "32 word"
proof -
  have "be_bytes 8 n = [ucast (drop_bit 56 n), ucast (drop_bit 48 n), ucast (drop_bit 40 n), ucast (drop_bit 32 n),
      ucast (drop_bit 24 n), ucast (drop_bit 16 n), ucast (drop_bit 8 n), ucast n]" for n :: "64 word"
    by (simp add: numeral_eq_Suc)
  moreover have "ucast (drop_bit k (push_bit 32 (ucast hi) OR ucast lo :: 64 word)) = (ucast (drop_bit k lo) :: byte)"
    "ucast (drop_bit (k + 32) (push_bit 32 (ucast hi) OR ucast lo :: 64 word)) = (ucast (drop_bit k hi) :: byte)" if "k \<le> 24" for k
    using that by (intro bit_word_eqI; auto simp: bit_simps dest: bit_imp_le_length)+
  from this [of 0] this [of 8] this [of 16] this [of 24] calculation
  show ?thesis by (simp add: le_word_ucast)
qed

section \<open>The implementation computes the standard\<close>

definition md5_ok :: "md5 \<Rightarrow> bool" where
  "md5_ok s \<longleftrightarrow> length (d_in s) = 64 \<and> length (d_buf s) = 4 \<and> unat (d_bits0 s) mod 8 = 0"

definition md5_regs :: "md5 \<Rightarrow> md5_regs" where
  "md5_regs s = (d_buf s ! 0, d_buf s ! 1, d_buf s ! 2, d_buf s ! 3)"

definition md5_count :: "md5 \<Rightarrow> nat" where
  "md5_count s = unat (drop_bit 3 (d_bits0 s) AND 0x3f)"

definition md5_pending :: "md5 \<Rightarrow> byte list" where
  "md5_pending s = take (md5_count s) (d_in s)"

definition md5_bits :: "md5 \<Rightarrow> 64 word" where
  "md5_bits s = push_bit 32 (ucast (d_bits1 s)) OR ucast (d_bits0 s)"

lemma md5_count_eq: "md5_count s = unat (d_bits0 s) div 8 mod 64"
proof -
  have "x AND 0x3f = take_bit 6 x" for x :: "32 word" by (simp add: take_bit_eq_mask mask_eq_exp_minus_1)
  then have "md5_count s = take_bit 6 (drop_bit 3 (unat (d_bits0 s)))"
    by (simp only: md5_count_def unsigned_take_bit_eq unat_drop_bit_eq)
  then show ?thesis by (simp add: take_bit_eq_mod drop_bit_eq_div)
qed

lemma md5_count_less: "md5_count s < 64"
  by (simp add: md5_count_eq)

lemma md5_bits_eq: "md5_bits s = of_nat (unat (d_bits0 s) + 2 ^ 32 * unat (d_bits1 s))"
proof -
  have "push_bit 32 (ucast (d_bits1 s)) + ucast (d_bits0 s) = md5_bits s"
    unfolding md5_bits_def by (rule disjunctive_add) (auto simp: bit_simps dest: bit_imp_le_length)
  then show ?thesis by (simp add: push_bit_eq_mult of_nat_unat algebra_simps)
qed

lemma buf_eq: "length (d_buf s) = 4 \<Longrightarrow> d_buf s = (case md5_regs s of (a, b, c, d) \<Rightarrow> [a, b, c, d])"
  by (auto simp: md5_regs_def length_Suc_conv numeral_eq_Suc)

lemma md5_transform_step:
  assumes "length (d_buf s) = 4" "words = le_words blk" 
  shows "length (MD5Transform (d_buf s) words) = 4 \<and> md5_regs (s\<lparr>d_buf := MD5Transform (d_buf s) words\<rparr>) = md5_compress blk (md5_regs s)"
proof -
  obtain a b c d where r: "md5_regs s = (a, b, c, d)" by (cases "md5_regs s")
  then have "MD5Transform (d_buf s) words = (case md5_compress blk (a, b, c, d) of (a, b, c, d) \<Rightarrow> [a, b, c, d])"
    using buf_eq [OF assms(1)] MD5Transform_eq [OF assms(2), of a b c d] by simp
  then show ?thesis unfolding r by (cases "md5_compress blk (a, b, c, d)") (simp add: md5_regs_def)
qed

lemma md5_transform_in_step:
  assumes "length (d_in s) = 64" "length (d_buf s) = 4"
  shows "length (d_in (md5_transform_in big s)) = 64 \<and> length (d_buf (md5_transform_in big s)) = 4
    \<and> md5_regs (md5_transform_in big s) = md5_compress (d_in s) (md5_regs s)
    \<and> d_bits0 (md5_transform_in big s) = d_bits0 s \<and> d_bits1 (md5_transform_in big s) = d_bits1 s"
proof -
  have "host_words big (toLittleEndian big (d_in s) 16) = le_words (d_in s)"
    using host_words_toLittleEndian [of "d_in s" 16 big "[]"] assms by simp
  from md5_transform_step [OF assms(2) this] show ?thesis
    using assms by (simp add: md5_transform_in_def Let_def md5_regs_def)
qed

lemma md5_chunks_step:
  "length (d_in s) = 64 \<Longrightarrow> length (d_buf s) = 4 \<Longrightarrow>
     length (d_in (md5_chunks big buf s)) = 64 \<and> length (d_buf (md5_chunks big buf s)) = 4
     \<and> md5_regs (md5_chunks big buf s) = fold md5_compress (blocks buf) (md5_regs s)
     \<and> take (length buf mod 64) (d_in (md5_chunks big buf s)) = remainder buf
     \<and> d_bits0 (md5_chunks big buf s) = d_bits0 s \<and> d_bits1 (md5_chunks big buf s) = d_bits1 s"
proof (induction big buf s rule: md5_chunks.induct)
  case (1 big buf s)
  show ?case
  proof (cases "length buf \<ge> 64")
    case True
    let ?s = "s\<lparr>d_in := write_at 0 (take 64 buf) (d_in s)\<rparr>"
    have "d_in ?s = take 64 buf" "length (d_in ?s) = 64" "md5_regs ?s = md5_regs s"
      using True "1.prems" by (simp_all add: write_at_def md5_regs_def)
    with "1.IH" [OF True] md5_transform_in_step [of ?s big] True "1.prems" show ?thesis
      by (simp add: md5_chunks.simps [of big buf s] blocks.simps [of buf] remainder.simps [of buf] le_mod_geq)
  next
    case False
    then show ?thesis using "1.prems"
      by (simp add: md5_chunks.simps [of big buf s] write_at_def md5_regs_def)
  qed
qed

text \<open>The bit count of \<open>addBytes\<close>: two words with a carry.\<close>

definition count_bits :: "nat \<Rightarrow> md5 \<Rightarrow> md5" where
  "count_bits n s =
     s\<lparr>d_bits0 := d_bits0 s + of_nat (n * 8),
       d_bits1 := (if d_bits0 s + of_nat (n * 8) < d_bits0 s then d_bits1 s + 1 else d_bits1 s) + of_nat (n div 2 ^ 29)\<rparr>"

lemma md5_addBytes_alt:
  "md5_addBytes big input s =
     (let s' = count_bits (length input) s; t = md5_count s
      in if t \<noteq> 0
         then if length input < 64 - t then s'\<lparr>d_in := write_at t input (d_in s)\<rparr>
              else md5_chunks big (drop (64 - t) input) (md5_transform_in big (s'\<lparr>d_in := write_at t (take (64 - t) input) (d_in s)\<rparr>))
         else md5_chunks big input s')"
  by (simp add: md5_addBytes_def count_bits_def md5_count_def Let_def)

lemma carry_add:
  fixes lo hi n :: nat
  assumes "lo < 2 ^ 32"
  shows "(lo + n) mod 2 ^ 32 + 2 ^ 32 * ((if (lo + n) mod 2 ^ 32 < lo then hi + 1 else hi) + n div 2 ^ 32) = lo + 2 ^ 32 * hi + n"
proof -
  define q r where "q = n div 2 ^ 32" and "r = n mod 2 ^ 32"
  have n: "n = 2 ^ 32 * q + r" "r < 2 ^ 32" by (simp_all add: q_def r_def)
  have "(lo + n) mod 2 ^ 32 = (lo + r) mod 2 ^ 32" by (simp add: r_def mod_add_right_eq)
  also have "\<dots> = (if lo + r < 2 ^ 32 then lo + r else lo + r - 2 ^ 32)"
    using assms n(2) by (simp add: mod_if)
  finally show ?thesis using n assms unfolding q_def [symmetric] by (auto simp: algebra_simps)
qed

lemma shifted_truncate: "(of_nat (2 ^ 32 * unat (of_nat m :: 32 word)) :: 64 word) = of_nat (2 ^ 32 * m)"
proof -
  have "2 ^ 32 * m = 2 ^ 32 * (m mod 2 ^ 32) + 2 ^ 64 * (m div 2 ^ 32)"
  proof -
    define q r where "q = m div 2 ^ 32" and "r = m mod 2 ^ 32"
    then have "m = 2 ^ 32 * q + r" by simp
    then show ?thesis unfolding q_def [symmetric] r_def [symmetric] by (simp add: distrib_left)
  qed
  then have "(of_nat (2 ^ 32 * m) :: 64 word) = of_nat (2 ^ 32 * (m mod 2 ^ 32)) + of_nat (2 ^ 64) * of_nat (m div 2 ^ 32)"
    by (simp only: of_nat_add of_nat_mult)
  moreover have "of_nat (2 ^ 64) = (0 :: 64 word)" by simp
  moreover have "unat (of_nat m :: 32 word) = m mod 2 ^ 32" by (simp add: unsigned_of_nat take_bit_eq_mod)
  ultimately show ?thesis by (simp only: mult_zero_left add_0_right)
qed

lemma count_bits_step:
  shows "md5_bits (count_bits n s) = md5_bits s + of_nat (8 * n)"
    and "md5_ok s \<Longrightarrow> unat (d_bits0 (count_bits n s)) mod 8 = 0"
    and "md5_ok s \<Longrightarrow> md5_count (count_bits n s) = (md5_count s + n) mod 64"
proof -
  let ?lo = "unat (d_bits0 s)" and ?hi = "unat (d_bits1 s)"
  define b where "b = d_bits0 s + of_nat (n * 8)"
  have lo: "unat b = (?lo + 8 * n) mod 2 ^ 32"
    by (simp add: b_def unat_word_ariths unsigned_of_nat take_bit_eq_mod mod_simps mult.commute)
  define hi where "hi = (if b < d_bits0 s then d_bits1 s + 1 else d_bits1 s) + of_nat (n div 2 ^ 29)"
  have fields: "d_bits0 (count_bits n s) = b" "d_bits1 (count_bits n s) = hi" by (simp_all add: count_bits_def b_def hi_def)
  have "hi = of_nat ((if (?lo + 8 * n) mod 2 ^ 32 < ?lo then ?hi + 1 else ?hi) + 8 * n div 2 ^ 32)"
    by (simp add: hi_def word_less_nat_alt lo)
  then have "(of_nat (2 ^ 32 * unat hi) :: 64 word)
      = of_nat (2 ^ 32 * ((if (?lo + 8 * n) mod 2 ^ 32 < ?lo then ?hi + 1 else ?hi) + 8 * n div 2 ^ 32))"
    by (simp only: shifted_truncate)
  then have "md5_bits (count_bits n s) = of_nat ((?lo + 8 * n) mod 2 ^ 32 + 2 ^ 32 *
      ((if (?lo + 8 * n) mod 2 ^ 32 < ?lo then ?hi + 1 else ?hi) + 8 * n div 2 ^ 32))"
    by (simp only: md5_bits_eq fields of_nat_add lo)
  also have "\<dots> = of_nat (?lo + 2 ^ 32 * ?hi + 8 * n)"
  proof -
    have "?lo < 2 ^ 32" using unsigned_less [of "d_bits0 s"] by simp
    then show ?thesis by (simp only: carry_add)
  qed
  finally show "md5_bits (count_bits n s) = md5_bits s + of_nat (8 * n)" by (simp add: md5_bits_eq)
  assume "md5_ok s"
  then obtain k where k: "?lo = 8 * k" by (auto simp: md5_ok_def)
  then show "unat (d_bits0 (count_bits n s)) mod 8 = 0"
    by (simp add: fields lo mod_mod_cancel)
  have "(8 * k + 8 * n) mod 2 ^ 32 = 8 * ((k + n) mod 2 ^ 29)"
    using mult_mod_right [of 8 "k + n" "2 ^ 29"] by (simp add: distrib_left)
  then have "md5_count (count_bits n s) = (k + n) mod 2 ^ 29 mod 64"
    by (simp only: md5_count_eq fields lo k nonzero_mult_div_cancel_left [OF zero_neq_numeral [symmetric]])
  moreover have "(k + n) mod 2 ^ 29 mod 64 = (k + n) mod 64" by (rule mod_mod_cancel) simp
  moreover have "md5_count s = k mod 64" by (simp add: md5_count_eq k)
  ultimately show "md5_count (count_bits n s) = (md5_count s + n) mod 64" by (simp only: mod_add_left_eq)
qed

lemma write_at_take: "k \<le> length b \<Longrightarrow> write_at k xs b = take k b @ xs @ drop (k + length xs) b"
  by (simp add: write_at_def)

lemma length_pending: "md5_ok s \<Longrightarrow> length (md5_pending s) = md5_count s"
  using md5_count_less [of s] by (simp add: md5_pending_def md5_ok_def)

lemma md5_pending_bits: "d_bits0 s = d_bits0 t \<Longrightarrow> md5_count s = md5_count t"
  by (simp add: md5_count_def)

lemma md5_bits_fields: "d_bits0 s = d_bits0 t \<Longrightarrow> d_bits1 s = d_bits1 t \<Longrightarrow> md5_bits s = md5_bits t"
  by (simp add: md5_bits_def)

lemma md5_addBytes_step:
  assumes "md5_ok s"
  shows "md5_ok (md5_addBytes big xs s) \<and> md5_regs (md5_addBytes big xs s) = fold md5_compress (blocks (md5_pending s @ xs)) (md5_regs s)
    \<and> md5_pending (md5_addBytes big xs s) = remainder (md5_pending s @ xs)
    \<and> md5_bits (md5_addBytes big xs s) = md5_bits s + of_nat (8 * length xs)"
proof -
  let ?t = "md5_count s" and ?n = "length xs" and ?r = "md5_addBytes big xs s" and ?p = "md5_pending s"
  let ?s = "count_bits ?n s"
  have same: "d_in ?s = d_in s" "d_buf ?s = d_buf s" by (simp_all add: count_bits_def)
  have ok: "length (d_in s) = 64" "length (d_buf s) = 4" "?t < 64" "length ?p = ?t" "take ?t (d_in s) = ?p"
    using assms md5_count_less [of s] length_pending [OF assms] by (simp_all add: md5_ok_def md5_pending_def)
  have regs: "md5_regs (?s\<lparr>d_in := b\<rparr>) = md5_regs s" for b by (simp add: md5_regs_def same)
  have "length (d_in ?r) = 64 \<and> length (d_buf ?r) = 4 \<and> d_bits0 ?r = d_bits0 ?s \<and> d_bits1 ?r = d_bits1 ?s
    \<and> md5_regs ?r = fold md5_compress (blocks (?p @ xs)) (md5_regs s) \<and> take ((?t + ?n) mod 64) (d_in ?r) = remainder (?p @ xs)"
  proof (cases "?n < 64 - ?t")
    case True
    then have "?r = ?s\<lparr>d_in := write_at ?t xs (d_in s)\<rparr> \<or> ?t = 0 \<and> ?r = md5_chunks big xs ?s"
      by (auto simp: md5_addBytes_alt Let_def)
    moreover have "md5_chunks big xs ?s = ?s\<lparr>d_in := write_at 0 xs (d_in s)\<rparr>" if "?t = 0"
      using True that by (simp add: md5_chunks.simps same)
    ultimately have "?r = ?s\<lparr>d_in := ?p @ xs @ drop (?t + ?n) (d_in s)\<rparr>"
      using ok by (auto simp: write_at_def)
    then show ?thesis using True ok regs by (simp add: same)
  next
    case False
    let ?k = "64 - ?t"
    let ?u = "?s\<lparr>d_in := ?p @ take ?k xs\<rparr>"
    have full: "length (?p @ take ?k xs) = 64" using False ok by simp
    have split: "blocks (?p @ xs) = (?p @ take ?k xs) # blocks (drop ?k xs)" "remainder (?p @ xs) = remainder (drop ?k xs)"
      using blocks_one [OF full, of "drop ?k xs"] remainder_one [OF full, of "drop ?k xs"] by simp_all
    have "?r = md5_chunks big (drop ?k xs) (md5_transform_in big ?u)"
    proof (cases "?t = 0")
      case True
      then have "64 \<le> ?n" "?p = []" using False by (simp_all add: md5_pending_def)
      with True ok(1) show ?thesis
        by (simp add: md5_addBytes_alt Let_def md5_chunks.simps [of big xs] write_at_def same)
    next
      case False
      with \<open>\<not> ?n < 64 - ?t\<close> ok show ?thesis
        by (simp add: md5_addBytes_alt Let_def write_at_def)
    qed
    moreover have "(?t + ?n) mod 64 = length (drop ?k xs) mod 64"
    proof -
      have "?t + ?n = length (drop ?k xs) + 64" using False ok(3) by simp
      then show ?thesis by (simp only: mod_add_self2)
    qed
    ultimately show ?thesis
      using md5_transform_in_step [of ?u big] md5_chunks_step [of "md5_transform_in big ?u" big "drop ?k xs"] full ok(2)
      by (simp add: split regs same)
  qed
  then show ?thesis
    using count_bits_step(1) [of ?n s] count_bits_step(2,3) [of s ?n] assms md5_pending_bits [of ?r ?s] md5_bits_fields [of ?r ?s] by (simp add: md5_ok_def md5_pending_def)
qed

text \<open>The last block: 56 bytes in the order of the machine's words, and the two words of the bit count.\<close>

lemma md5_last_block:
  assumes "length b = 64" "length buf = 4"
  shows "MD5Transform buf (host_words big (write_at 56 (host_bytes big lo @ host_bytes big hi) (toLittleEndian big b 14)))
    = (case md5_compress (take 56 b @ rev (be_bytes 8 (push_bit 32 (ucast hi) OR ucast lo :: 64 word))) (buf ! 0, buf ! 1, buf ! 2, buf ! 3) of
        (a, b, c, d) \<Rightarrow> [a, b, c, d])"
proof -
  have "toLittleEndian big b 14 = toLittleEndian big (take 56 b) 14 @ drop 56 b"
    using toLittleEndian_append [of "take 56 b" 14 big "drop 56 b"] assms by simp
  then have "write_at 56 (host_bytes big lo @ host_bytes big hi) (toLittleEndian big b 14)
      = toLittleEndian big (take 56 b) 14 @ host_bytes big lo @ host_bytes big hi"
    using assms by (simp add: write_at_def)
  then have "host_words big (write_at 56 (host_bytes big lo @ host_bytes big hi) (toLittleEndian big b 14))
      = le_words (take 56 b) @ [lo, hi]"
    using host_words_toLittleEndian [of "take 56 b" 14 big "host_bytes big lo @ host_bytes big hi"] assms
      host_words_host_bytes [of big hi "[]"] by (simp add: host_words_host_bytes)
  also have "\<dots> = le_words (take 56 b @ rev (be_bytes 8 (push_bit 32 (ucast hi) OR ucast lo :: 64 word)))"
    using le_words_append [of "take 56 b" 14] assms by (simp add: le_words_length_field)
  finally have "host_words big (write_at 56 (host_bytes big lo @ host_bytes big hi) (toLittleEndian big b 14))
      = le_words (take 56 b @ rev (be_bytes 8 (push_bit 32 (ucast hi) OR ucast lo :: 64 word)))" .
  moreover obtain a b c d where "buf = [a, b, c, d]" using assms(2) by (auto simp: length_Suc_conv numeral_eq_Suc)
  ultimately show ?thesis using MD5Transform_eq by simp
qed

lemma md5_output: "toLittleEndian big (concat (map (host_bytes big) [a, b, c, d])) 4 = md5_out (a, b, c, d)"
proof -
  have "toLittleEndian big (host_bytes big a @ host_bytes big b @ host_bytes big c @ host_bytes big d @ []) (Suc (Suc (Suc (Suc 0))))
      = md5_out (a, b, c, d)"
    by (simp only: toLittleEndian_host_bytes) simp
  then show ?thesis by (simp add: numeral_eq_Suc)
qed

text \<open>The state of \<open>checksum\<close> when only the length is missing.\<close>

definition md5_padded :: "bool \<Rightarrow> md5 \<Rightarrow> md5" where
  "md5_padded big s =
     (let c = md5_count s; b = (d_in s)[c := 0x80]
      in if 63 - c < 8
         then let t = md5_transform_in big (s\<lparr>d_in := write_at (c + 1) (replicate (63 - c) 0) b\<rparr>)
              in t\<lparr>d_in := write_at 0 (replicate 56 0) (d_in t)\<rparr>
         else s\<lparr>d_in := write_at (c + 1) (replicate (63 - c - 8) 0) b\<rparr>)"

lemma md5_checksum_padded:
  assumes "t = md5_padded big s" "length (d_in t) = 64" "length (d_buf t) = 4" "d_bits0 t = d_bits0 s" "d_bits1 t = d_bits1 s"
  shows "fst (md5_checksum big s) = md5_out (md5_compress (take 56 (d_in t) @ rev (be_bytes 8 (md5_bits s))) (md5_regs t))"
proof -
  have "fst (md5_checksum big s) = toLittleEndian big (concat (map (host_bytes big) (MD5Transform (d_buf t)
      (host_words big (write_at 56 (host_bytes big (d_bits0 t) @ host_bytes big (d_bits1 t)) (toLittleEndian big (d_in t) 14)))))) 4"
    unfolding assms(1) md5_padded_def by (simp add: md5_checksum_def md5_count_def [symmetric] Let_def)
  then show ?thesis
    unfolding md5_last_block [OF assms(2,3)] md5_regs_def [of t, symmetric] assms(4,5) md5_bits_def [symmetric]
    by (cases "md5_compress (take 56 (d_in t) @ rev (be_bytes 8 (md5_bits s))) (md5_regs t)") (simp only: prod.case md5_output)
qed

lemma md5_checksum_step:
  assumes "md5_ok s"
  shows "fst (md5_checksum big s) = md5_out (fold md5_compress (blocks (md5_pending s @ 0x80 #
    replicate (nat ((55 - int (length (md5_pending s))) mod 64)) 0 @ rev (be_bytes 8 (md5_bits s)))) (md5_regs s))"
proof -
  let ?c = "md5_count s" and ?p = "md5_pending s" and ?len = "rev (be_bytes 8 (md5_bits s))" and ?t = "md5_padded big s"
  have ok: "length (d_in s) = 64" "length (d_buf s) = 4" "?c < 64" "length ?p = ?c"
    using assms md5_count_less [of s] length_pending [OF assms] by (simp_all add: md5_ok_def)
  have b: "(d_in s)[?c := 0x80] = ?p @ 0x80 # drop (Suc ?c) (d_in s)"
    using ok by (simp add: md5_pending_def upd_conv_take_nth_drop)
  have regs: "md5_regs (t\<lparr>d_in := x\<rparr>) = md5_regs t" for t x by (simp add: md5_regs_def)
  show ?thesis
  proof (cases "?c < 56")
    case True
    then have t: "?t = s\<lparr>d_in := ?p @ 0x80 # replicate (55 - ?c) 0 @ drop 56 (d_in s)\<rparr>"
      using ok b by (simp add: md5_padded_def Let_def write_at_def drop_Cons')
    moreover have "length (d_in ?t) = 64" "take 56 (d_in ?t) = ?p @ 0x80 # replicate (55 - ?c) 0"
      using True ok by (simp_all add: t take_Cons')
    ultimately show ?thesis
      using md5_checksum_padded [OF refl, of big s] padded_one [of ?p ?len] True ok by (simp add: regs)
  next
    case False
    let ?b1 = "?p @ 0x80 # replicate (63 - ?c) 0"
    let ?u = "md5_transform_in big (s\<lparr>d_in := ?b1\<rparr>)"
    have b1: "length ?b1 = 64" using ok by simp
    have u: "length (d_in ?u) = 64" "length (d_buf ?u) = 4" "md5_regs ?u = md5_compress ?b1 (md5_regs s)" "d_bits0 ?u = d_bits0 s" "d_bits1 ?u = d_bits1 s"
      using md5_transform_in_step [of "s\<lparr>d_in := ?b1\<rparr>" big] b1 ok(2) by (simp_all add: regs)
    have "?t = ?u\<lparr>d_in := replicate 56 0 @ drop 56 (d_in ?u)\<rparr>"
      using False ok b by (simp add: md5_padded_def Let_def write_at_def)
    then show ?thesis
      using md5_checksum_padded [OF refl, of big s] padded_two [of ?p ?len] False ok u by (simp add: regs)
  qed
qed

interpretation md5: stream_digest md5_compress MD5 "md5_addBytes big" "\<lambda>s. fst (md5_checksum big s)" "\<lambda>n. rev (be_bytes 8 n)" md5_out
  md5_ok md5_regs md5_pending md5_bits for big
proof unfold_locales
  show "md5_ok MD5" "md5_pending MD5 = []" "md5_bits MD5 = 0"
    by (simp_all add: md5_ok_def MD5_def md5_pending_def md5_count_def md5_bits_def)
qed (simp_all only: md5_addBytes_step md5_checksum_step length_rev length_be_bytes simp_thms)

text \<open>
  C0: However a message is split over calls of \<open>addBytes\<close>, \<open>checksum\<close> returns the MD5 digest of RFC 1321
  for the whole message, for every length, on machines of either byte order.
\<close>

theorem md5_streaming: "fst (md5_checksum big (fold (md5_addBytes big) chunks MD5)) = md5_spec (concat chunks)"
proof -
  have "md5_regs MD5 = (0x67452301, 0xefcdab89, 0x98badcfe, 0x10325476)"
    by (simp add: md5_regs_def MD5_def)
  then show ?thesis using md5.digest [of big chunks] by (simp add: md5_spec_def)
qed

text \<open>The object is not as new after \<open>checksum\<close>.\<close>

lemma checksum_does_not_reset: "snd (md5_checksum big s) \<noteq> MD5"
proof -
  have "d_buf (snd (md5_checksum big s)) ! 0 = 0" "d_buf MD5 ! 0 = 0x67452301" by (simp_all add: md5_checksum_def MD5_def Let_def)
  moreover have "(0 :: 32 word) \<noteq> 0x67452301" by simp
  ultimately show ?thesis by metis
qed

end
