(* ===== verification/Wtf_Base64.thy ===== *)
theory Wtf_Base64
  imports Url_Access
begin

text \<open>
  The encoders and decoders of \<open>WTF/wtf/text/Base64.cpp\<close> for both alphabets and all policies,
  with the byte buffers they grow and shrink.
\<close>

section \<open>Encoding\<close>

datatype Base64EncodePolicy = Base64DoNotInsertLFs | Base64InsertLFs | Base64URLPolicy

datatype Base64DecodePolicy =
  Base64FailOnInvalidCharacterOrExcessPadding | Base64FailOnInvalidCharacter | Base64IgnoreWhitespace | Base64IgnoreInvalidCharacters

definition base64EncMap :: wtf_string where
  "base64EncMap =
    [0x41, 0x42, 0x43, 0x44, 0x45, 0x46, 0x47, 0x48,
     0x49, 0x4A, 0x4B, 0x4C, 0x4D, 0x4E, 0x4F, 0x50,
     0x51, 0x52, 0x53, 0x54, 0x55, 0x56, 0x57, 0x58,
     0x59, 0x5A, 0x61, 0x62, 0x63, 0x64, 0x65, 0x66,
     0x67, 0x68, 0x69, 0x6A, 0x6B, 0x6C, 0x6D, 0x6E,
     0x6F, 0x70, 0x71, 0x72, 0x73, 0x74, 0x75, 0x76,
     0x77, 0x78, 0x79, 0x7A, 0x30, 0x31, 0x32, 0x33,
     0x34, 0x35, 0x36, 0x37, 0x38, 0x39, 0x2B, 0x2F]"

definition nonAlphabet :: byte where "nonAlphabet = -1"

definition base64DecMap :: "byte list" where
  "base64DecMap = replicate 43 nonAlphabet @
    [0x3E, nonAlphabet, nonAlphabet, nonAlphabet, 0x3F,
     0x34, 0x35, 0x36, 0x37, 0x38, 0x39, 0x3A, 0x3B,
     0x3C, 0x3D, nonAlphabet, nonAlphabet, nonAlphabet, nonAlphabet, nonAlphabet, nonAlphabet,
     nonAlphabet, 0x00, 0x01, 0x02, 0x03, 0x04, 0x05, 0x06,
     0x07, 0x08, 0x09, 0x0A, 0x0B, 0x0C, 0x0D, 0x0E,
     0x0F, 0x10, 0x11, 0x12, 0x13, 0x14, 0x15, 0x16,
     0x17, 0x18, 0x19, nonAlphabet, nonAlphabet, nonAlphabet, nonAlphabet, nonAlphabet,
     nonAlphabet, 0x1A, 0x1B, 0x1C, 0x1D, 0x1E, 0x1F, 0x20,
     0x21, 0x22, 0x23, 0x24, 0x25, 0x26, 0x27, 0x28,
     0x29, 0x2A, 0x2B, 0x2C, 0x2D, 0x2E, 0x2F, 0x30,
     0x31, 0x32, 0x33, nonAlphabet, nonAlphabet, nonAlphabet, nonAlphabet, nonAlphabet]"

definition base64URLEncMap :: wtf_string where
  "base64URLEncMap =
    [0x41, 0x42, 0x43, 0x44, 0x45, 0x46, 0x47, 0x48,
     0x49, 0x4A, 0x4B, 0x4C, 0x4D, 0x4E, 0x4F, 0x50,
     0x51, 0x52, 0x53, 0x54, 0x55, 0x56, 0x57, 0x58,
     0x59, 0x5A, 0x61, 0x62, 0x63, 0x64, 0x65, 0x66,
     0x67, 0x68, 0x69, 0x6A, 0x6B, 0x6C, 0x6D, 0x6E,
     0x6F, 0x70, 0x71, 0x72, 0x73, 0x74, 0x75, 0x76,
     0x77, 0x78, 0x79, 0x7A, 0x30, 0x31, 0x32, 0x33,
     0x34, 0x35, 0x36, 0x37, 0x38, 0x39, 0x2D, 0x5F]"

definition base64URLDecMap :: "byte list" where
  "base64URLDecMap = replicate 45 nonAlphabet @
    [0x3E, nonAlphabet, nonAlphabet,
     0x34, 0x35, 0x36, 0x37, 0x38, 0x39, 0x3A, 0x3B,
     0x3C, 0x3D, nonAlphabet, nonAlphabet, nonAlphabet, nonAlphabet, nonAlphabet, nonAlphabet,
     nonAlphabet, 0x00, 0x01, 0x02, 0x03, 0x04, 0x05, 0x06,
     0x07, 0x08, 0x09, 0x0A, 0x0B, 0x0C, 0x0D, 0x0E,
     0x0F, 0x10, 0x11, 0x12, 0x13, 0x14, 0x15, 0x16,
     0x17, 0x18, 0x19, nonAlphabet, nonAlphabet, nonAlphabet, nonAlphabet, 0x3F,
     nonAlphabet, 0x1A, 0x1B, 0x1C, 0x1D, 0x1E, 0x1F, 0x20,
     0x21, 0x22, 0x23, 0x24, 0x25, 0x26, 0x27, 0x28,
     0x29, 0x2A, 0x2B, 0x2C, 0x2D, 0x2E, 0x2F, 0x30,
     0x31, 0x32, 0x33, nonAlphabet, nonAlphabet, nonAlphabet, nonAlphabet, nonAlphabet]"

definition maxInputBufferSize :: nat where
  "maxInputBufferSize = (2 ^ 32 - 1) div 77 * 76 div 4 * 3 - 2"

definition encode_char :: "wtf_string \<Rightarrow> byte \<Rightarrow> code_unit" where
  "encode_char encodeMap x = encodeMap ! unat x"

text \<open>
  The loop over groups of three bytes; the result has what is written, the count of characters
  since the start for the line breaks, and the bytes that are left.
\<close>

fun encode_groups :: "wtf_string \<Rightarrow> bool \<Rightarrow> byte list \<Rightarrow> nat \<Rightarrow> wtf_string \<times> nat \<times> byte list" where
  "encode_groups encodeMap insertLFs (a # b # c # data) count =
     (let newline = (if insertLFs \<and> count \<noteq> 0 \<and> count mod 76 = 0 then [0x0A] else []);
          count = (if insertLFs then count + 4 else count);
          group = map (encode_char encodeMap)
            [drop_bit 2 a AND 0x3F, (drop_bit 4 b AND 0x0F) OR (push_bit 4 a AND 0x3F),
             (drop_bit 6 c AND 0x03) OR (push_bit 2 b AND 0x3F), c AND 0x3F];
          (out, count, rest) = encode_groups encodeMap insertLFs data count
      in (newline @ group @ out, count, rest))"
| "encode_groups encodeMap insertLFs data count = ([], count, data)"

definition encode_rest :: "wtf_string \<Rightarrow> byte list \<Rightarrow> wtf_string" where
  "encode_rest encodeMap data =
     (case data of
       [] \<Rightarrow> []
     | [a] \<Rightarrow> map (encode_char encodeMap) [drop_bit 2 a AND 0x3F, push_bit 4 a AND 0x3F]
     | a # b # _ \<Rightarrow> map (encode_char encodeMap)
         [drop_bit 2 a AND 0x3F, (drop_bit 4 b AND 0x0F) OR (push_bit 4 a AND 0x3F), push_bit 2 b AND 0x3F])"

definition base64EncodeInternal :: "byte list \<Rightarrow> Base64EncodePolicy \<Rightarrow> wtf_string \<Rightarrow> wtf_string" where
  "base64EncodeInternal data policy encodeMap =
     (let len = length data
      in if len = 0 then []
         else if len > maxInputBufferSize then []
         else let outLength = (len + 2) div 3 * 4;
                  insertLFs = (policy = Base64InsertLFs \<and> outLength > 76);
                  outLength = (if insertLFs then outLength + (outLength - 1) div 76 else outLength);
                  (out, count, rest) = encode_groups encodeMap insertLFs data 0;
                  out = out @ (if rest \<noteq> [] \<and> insertLFs \<and> count > 0 \<and> count mod 76 = 0 then [0x0A] else []) @ encode_rest encodeMap rest
              in if policy = Base64URLPolicy then out else out @ replicate (outLength - length out) (ch CHR ''=''))"

definition base64Encode :: "byte list \<Rightarrow> Base64EncodePolicy \<Rightarrow> wtf_string" where
  "base64Encode data policy = base64EncodeInternal data policy base64EncMap"

definition base64URLEncode :: "byte list \<Rightarrow> wtf_string" where
  "base64URLEncode data = base64EncodeInternal data Base64URLPolicy base64URLEncMap"

section \<open>Decoding\<close>

text \<open>
  The vector is grown to the length of the input, which does not initialise it: \<open>mem\<close> is what
  its memory holds. The loop over the characters writes the decoded ones to the front; it is
  \<^const>\<open>None\<close> when it returns false, otherwise the vector, the number of decoded characters and the
  number of equals signs.
\<close>

fun decode_chars :: "icu \<Rightarrow> Base64DecodePolicy \<Rightarrow> byte list \<Rightarrow> nat \<Rightarrow> wtf_string \<Rightarrow> nat \<Rightarrow> byte list \<Rightarrow> nat \<Rightarrow> (byte list \<times> nat \<times> nat) option" where
  "decode_chars e policy decodeMap len [] equalsSignCount out outLength = Some (out, outLength, equalsSignCount)"
| "decode_chars e policy decodeMap len (c # cs) equalsSignCount out outLength =
     (if c = ch CHR ''='' then
        if policy = Base64FailOnInvalidCharacterOrExcessPadding \<and> (len mod 4 \<noteq> 0 \<or> equalsSignCount + 1 > 2) then None
        else decode_chars e policy decodeMap len cs (equalsSignCount + 1) out outLength
      else let decodedCharacter = (if c < 128 then decodeMap ! c else nonAlphabet)
           in if decodedCharacter \<noteq> nonAlphabet then
                if equalsSignCount \<noteq> 0 then None
                else decode_chars e policy decodeMap len cs equalsSignCount (out[outLength := decodedCharacter]) (outLength + 1)
              else if policy = Base64FailOnInvalidCharacterOrExcessPadding \<or> policy = Base64FailOnInvalidCharacter
                \<or> policy = Base64IgnoreWhitespace \<and> \<not> isSpaceOrNewline e c then None
              else decode_chars e policy decodeMap len cs equalsSignCount out outLength)"

text \<open>The conversion of four characters to three bytes, in place.\<close>

definition first_byte :: "byte list \<Rightarrow> nat \<Rightarrow> byte" where
  "first_byte out sidx = push_bit 2 (out ! sidx) OR (drop_bit 4 (out ! (sidx + 1)) AND 0x03)"

definition second_byte :: "byte list \<Rightarrow> nat \<Rightarrow> byte" where
  "second_byte out sidx = push_bit 4 (out ! (sidx + 1)) OR (drop_bit 2 (out ! (sidx + 2)) AND 0x0F)"

definition third_byte :: "byte list \<Rightarrow> nat \<Rightarrow> byte" where
  "third_byte out sidx = push_bit 6 (out ! (sidx + 2)) OR (out ! (sidx + 3) AND 0x3F)"

function decode_groups :: "nat \<Rightarrow> nat \<Rightarrow> nat \<Rightarrow> byte list \<Rightarrow> nat \<times> nat \<times> byte list" where
  "decode_groups outLength sidx didx out =
     (if didx < outLength - 2
      then let out = out[didx := first_byte out sidx];
               out = out[didx + 1 := second_byte out sidx];
               out = out[didx + 2 := third_byte out sidx]
           in decode_groups outLength (sidx + 4) (didx + 3) out
      else (sidx, didx, out))"
  by pat_completeness auto
termination
  by (relation "measure (\<lambda>(outLength, _, didx, _). outLength - didx)") auto

declare decode_groups.simps [simp del]

definition decode_rest :: "nat \<Rightarrow> nat \<times> nat \<times> byte list \<Rightarrow> byte list" where
  "decode_rest outLength p =
     (let (sidx, didx, out) = p;
          out = (if didx < outLength then out[didx := first_byte out sidx] else out);
          didx = didx + 1
      in if didx < outLength then out[didx := second_byte out sidx] else out)"

definition base64DecodeInternal :: "icu \<Rightarrow> (nat \<Rightarrow> byte list) \<Rightarrow> wtf_string \<Rightarrow> Base64DecodePolicy \<Rightarrow> byte list \<Rightarrow> byte list option" where
  "base64DecodeInternal e mem data policy decodeMap =
     (if data = [] then Some []
      else case decode_chars e policy decodeMap (length data) data 0 (mem (length data)) 0 of
        None \<Rightarrow> None
      | Some (out, outLength, equalsSignCount) \<Rightarrow>
          if outLength = 0 then (if equalsSignCount = 0 then Some out else None)
          else if outLength mod 4 = 1 then None
          else let outLength = outLength - (outLength + 3) div 4
               in if outLength = 0 then None
                  else let out = decode_rest outLength (if outLength > 1 then decode_groups outLength 0 0 out else (0, 0, out))
                       in Some (if outLength < length out then take outLength out else out))"

definition base64Decode :: "icu \<Rightarrow> (nat \<Rightarrow> byte list) \<Rightarrow> wtf_string \<Rightarrow> Base64DecodePolicy \<Rightarrow> byte list option" where
  "base64Decode e mem s policy = base64DecodeInternal e mem s policy base64DecMap"

definition base64URLDecode :: "icu \<Rightarrow> (nat \<Rightarrow> byte list) \<Rightarrow> wtf_string \<Rightarrow> byte list option" where
  "base64URLDecode e mem s = base64DecodeInternal e mem s Base64FailOnInvalidCharacter base64URLDecMap"

section \<open>Groups of six bits\<close>

text \<open>The six-bit values of a sequence of bytes, and the bytes of a sequence of such values.\<close>

fun sextets :: "byte list \<Rightarrow> byte list" where
  "sextets (a # b # c # data) =
     [drop_bit 2 a AND 0x3F, (drop_bit 4 b AND 0x0F) OR (push_bit 4 a AND 0x3F), (drop_bit 6 c AND 0x03) OR (push_bit 2 b AND 0x3F), c AND 0x3F]
     @ sextets data"
| "sextets [a, b] = [drop_bit 2 a AND 0x3F, (drop_bit 4 b AND 0x0F) OR (push_bit 4 a AND 0x3F), push_bit 2 b AND 0x3F]"
| "sextets [a] = [drop_bit 2 a AND 0x3F, push_bit 4 a AND 0x3F]"
| "sextets [] = []"

fun octets :: "byte list \<Rightarrow> byte list" where
  "octets (p # q # r # s # xs) =
     [push_bit 2 p OR (drop_bit 4 q AND 0x03), push_bit 4 q OR (drop_bit 2 r AND 0x0F), push_bit 6 r OR (s AND 0x3F)] @ octets xs"
| "octets [p, q, r] = [push_bit 2 p OR (drop_bit 4 q AND 0x03), push_bit 4 q OR (drop_bit 2 r AND 0x0F)]"
| "octets [p, q] = [push_bit 2 p OR (drop_bit 4 q AND 0x03)]"
| "octets [p] = []"
| "octets [] = []"

lemma byte_masks: "(0x03 :: byte) = mask 2" "(0x0F :: byte) = mask 4" "(0x3F :: byte) = mask 6"
  by (simp_all add: mask_eq_exp_minus_1)

lemma nat_less_8_cases: "n < 8 \<Longrightarrow> n \<in> {0, 1, 2, 3, 4, 5, 6, 7 :: nat}"
  by auto

lemma regroup:
  "push_bit 2 (drop_bit 2 a AND 0x3F) OR (drop_bit 4 ((drop_bit 4 b AND 0x0F) OR (push_bit 4 a AND 0x3F)) AND 0x03) = a"
  "push_bit 2 (drop_bit 2 a AND 0x3F) OR (drop_bit 4 (push_bit 4 a AND 0x3F) AND 0x03) = a"
  "push_bit 4 ((drop_bit 4 b AND 0x0F) OR (push_bit 4 a AND 0x3F)) OR (drop_bit 2 ((drop_bit 6 c AND 0x03) OR (push_bit 2 b AND 0x3F)) AND 0x0F) = b"
  "push_bit 4 ((drop_bit 4 b AND 0x0F) OR (push_bit 4 a AND 0x3F)) OR (drop_bit 2 (push_bit 2 b AND 0x3F) AND 0x0F) = b"
  "push_bit 6 ((drop_bit 6 c AND 0x03) OR (push_bit 2 b AND 0x3F)) OR ((c AND 0x3F) AND 0x3F) = c"
  for a b c :: byte
  unfolding byte_masks by (rule bit_word_eqI, auto simp: bit_simps dest!: nat_less_8_cases simp flip: numeral_2_eq_2 numeral_3_eq_3)+

lemma octets_sextets: "octets (sextets data) = data"
  by (induction data rule: sextets.induct) (simp_all only: sextets.simps octets.simps append.simps regroup)

lemma sextets_small: "list_all (\<lambda>x. unat x < 64) (sextets data)"
proof -
  have "unat (take_bit 6 y) < 64" for y :: byte
    using take_bit_nat_less_exp [of 6 "unat y"] by (simp add: unsigned_take_bit_eq)
  then have small: "unat (y AND 0x3F) < 64" for y :: byte by (simp add: byte_masks flip: take_bit_eq_mask)
  have "(y AND 0x0F) OR (z AND 0x3F) = ((y AND 0x0F) OR z) AND 0x3F" "(y AND 0x03) OR (z AND 0x3F) = ((y AND 0x03) OR z) AND 0x3F" for y z :: byte
    unfolding byte_masks by (rule bit_word_eqI, auto simp: bit_simps)+
  then show ?thesis by (induction data rule: sextets.induct) (simp_all add: small)
qed

lemma length_octets: "length xs mod 4 \<noteq> 1 \<Longrightarrow> length (octets xs) = length xs - (length xs + 3) div 4"
  by (induction xs rule: octets.induct) simp_all

lemma length_sextets: "length (sextets data) = length data div 3 * 4 + (if length data mod 3 = 0 then 0 else length data mod 3 + 1)"
  proof (induction data rule: sextets.induct)
  case (1 a b c data)
  have "(3 + length data) div 3 = Suc (length data div 3)" by simp
  with 1 show ?case by simp
qed simp_all

section \<open>What the encoder writes\<close>

text \<open>Line breaks before the groups \<open>19, 38, ...\<close>: as many before group \<open>n\<close> as there are full lines.\<close>

lemma full_lines_Suc: "n div 19 = (n - 1) div 19 + (if n \<noteq> 0 \<and> n mod 19 = 0 then 1 else 0)" for n :: nat
  using div_Suc [of "n - 1" 19] by (cases n) auto

lemma break_iff: "4 * n mod 76 = 0 \<longleftrightarrow> n mod 19 = 0" for n :: nat
proof -
  have "4 * n mod 76 = 4 * (n mod 19)" using mult_mod_right [of 4 n 19] by simp
  then show ?thesis by simp
qed

text \<open>Everything that is written before the padding.\<close>

definition encoded_text :: "wtf_string \<Rightarrow> bool \<Rightarrow> byte list \<Rightarrow> nat \<Rightarrow> wtf_string" where
  "encoded_text encodeMap insertLFs data count =
     (case encode_groups encodeMap insertLFs data count of (out, count, rest) \<Rightarrow>
        out @ (if rest \<noteq> [] \<and> insertLFs \<and> count > 0 \<and> count mod 76 = 0 then [0x0A] else []) @ encode_rest encodeMap rest)"

lemma encoded_text_Cons:
  "encoded_text encodeMap insertLFs (a # b # c # data) count =
     (if insertLFs \<and> count \<noteq> 0 \<and> count mod 76 = 0 then [0x0A] else [])
     @ map (encode_char encodeMap) (take 4 (sextets [a, b, c]))
     @ encoded_text encodeMap insertLFs data (if insertLFs then count + 4 else count)"
  by (simp add: encoded_text_def Let_def case_prod_beta)

lemma encoded_text_short:
  "length data < 3 \<Longrightarrow> encoded_text encodeMap insertLFs data count =
     (if data \<noteq> [] \<and> insertLFs \<and> count \<noteq> 0 \<and> count mod 76 = 0 then [0x0A] else []) @ map (encode_char encodeMap) (sextets data)"
  by (cases data rule: sextets.cases) (simp_all add: encoded_text_def encode_rest_def)

lemma length_encoded_text_no_breaks: "length (encoded_text encodeMap False data count) = length (sextets data)"
proof (induction data arbitrary: count rule: sextets.induct)
  case (1 a b c data)
  then show ?case by (simp add: encoded_text_Cons)
qed (simp_all add: encoded_text_short)

lemma length_encoded_text:
  "length (encoded_text encodeMap True data (4 * n)) + (n - 1) div 19
   = length (sextets data) + (n + (length data + 2) div 3 - 1) div 19"
proof (induction data arbitrary: n rule: sextets.induct)
  case (1 a b c data)
  from 1 [of "Suc n"] have "length (encoded_text encodeMap True data (4 * n + 4)) + n div 19
      = length (sextets data) + (n + (length data + 2) div 3) div 19" by (simp add: add.commute)
  moreover have "(length (a # b # c # data) + 2) div 3 = Suc ((length data + 2) div 3)" by simp
  ultimately show ?case using full_lines_Suc [of n] by (auto simp: encoded_text_Cons break_iff split: if_splits)
next
  case (2 a b)
  then show ?case using full_lines_Suc [of n] by (simp add: encoded_text_short break_iff)
next
  case (3 a)
  then show ?case using full_lines_Suc [of n] by (simp add: encoded_text_short break_iff)
qed (simp add: encoded_text_short)

definition no_breaks :: "wtf_string \<Rightarrow> wtf_string" where
  "no_breaks s = filter (\<lambda>c. c \<noteq> 0x0A) s"

locale base64_alphabet =
  fixes encodeMap :: wtf_string and decodeMap :: "byte list"
  assumes alphabet: "i < 64 \<Longrightarrow> encodeMap ! i < 128 \<and> encodeMap ! i \<noteq> ch CHR ''='' \<and> decodeMap ! (encodeMap ! i) = of_nat i"
    and break: "decodeMap ! 0x0A = nonAlphabet"
begin

lemma encoded:
  assumes "unat x < 64"
  shows "encode_char encodeMap x < 128" "encode_char encodeMap x \<noteq> ch CHR ''=''" "decodeMap ! encode_char encodeMap x = x"
    "x \<noteq> nonAlphabet" "encode_char encodeMap x \<noteq> 0x0A"
proof -
  show "encode_char encodeMap x < 128" "encode_char encodeMap x \<noteq> ch CHR ''=''" and d: "decodeMap ! encode_char encodeMap x = x"
    using alphabet [OF assms] by (simp_all add: encode_char_def)
  show n: "x \<noteq> nonAlphabet" using assms by (auto simp: nonAlphabet_def unsigned_minus_1_eq_mask mask_eq_exp_minus_1)
  show "encode_char encodeMap x \<noteq> 0x0A" using break d n by auto
qed

lemma encoded_text_chars: "no_breaks (encoded_text encodeMap lf data count) = map (encode_char encodeMap) (sextets data)"
proof -
  have "no_breaks (map (encode_char encodeMap) xs) = map (encode_char encodeMap) xs" if "list_all (\<lambda>x. unat x < 64) xs" for xs
    using that encoded by (induction xs) (simp_all add: no_breaks_def)
  then have sextets: "no_breaks (map (encode_char encodeMap) (sextets xs)) = map (encode_char encodeMap) (sextets xs)" for xs
    using sextets_small by blast
  have append: "no_breaks (xs @ ys) = no_breaks xs @ no_breaks ys" "no_breaks [0x0A] = []" "no_breaks [] = []" for xs ys
    by (simp_all add: no_breaks_def)
  show ?thesis
  proof (induction data arbitrary: count rule: sextets.induct)
    case (1 a b c data)
    have "take 4 (sextets [a, b, c]) = sextets [a, b, c]" "sextets (a # b # c # data) = sextets [a, b, c] @ sextets data" by simp_all
    with 1 show ?case by (simp only: encoded_text_Cons append sextets if_distrib [of no_breaks] map_append) simp
  qed (simp_all add: encoded_text_short append sextets if_distrib [of no_breaks] del: sextets.simps)
qed

end

section \<open>What the decoder reads\<close>

text \<open>The conversion in place writes behind what it reads: the bytes of the values in front.\<close>

lemma update_three:
  assumes "didx + 2 < length out" "didx \<le> sidx"
  shows "take (didx + 3) (out[didx := x, didx + 1 := y, didx + 2 := z]) = take didx out @ [x, y, z]"
    and "drop (sidx + 4) (out[didx := x, didx + 1 := y, didx + 2 := z]) = drop (sidx + 4) out"
proof -
  obtain as a b c bs where out: "out = as @ a # b # c # bs" "length as = didx"
  proof -
    have "out = take didx out @ out ! didx # out ! Suc didx # out ! Suc (Suc didx) # drop (Suc (Suc (Suc didx))) out"
      using assms(1) by (simp add: Cons_nth_drop_Suc)
    then show thesis using that assms(1) by (metis length_take min.absorb2 less_imp_le_nat add_lessD1)
  qed
  then show "take (didx + 3) (out[didx := x, didx + 1 := y, didx + 2 := z]) = take didx out @ [x, y, z]"
    by (simp add: list_update_append)
  show "drop (sidx + 4) (out[didx := x, didx + 1 := y, didx + 2 := z]) = drop (sidx + 4) out"
    using assms(2) by simp
qed

lemma decode_groups_stop: "\<not> didx < outLength - 2 \<Longrightarrow> decode_groups outLength sidx didx out = (sidx, didx, out)"
  by (simp add: decode_groups.simps)

lemma decode_in_place:
  assumes "didx \<le> sidx" "drop sidx out = xs @ zs" "length xs mod 4 \<noteq> 1"
    and "outLength = didx + length (octets xs)" "sidx \<le> length out"
  shows "take outLength (decode_rest outLength (decode_groups outLength sidx didx out)) = take didx out @ octets xs
    \<and> length (decode_rest outLength (decode_groups outLength sidx didx out)) = length out"
  using assms
proof (induction xs arbitrary: sidx didx out rule: octets.induct)
  case (1 p q r s xs)
  let ?out = "out[didx := first_byte out sidx, didx + 1 := second_byte out sidx, didx + 2 := third_byte out sidx]"
  have nth: "out ! sidx = p" "out ! (sidx + 1) = q" "out ! (sidx + 2) = r" "out ! (sidx + 3) = s"
    using "1.prems"(2,5) nth_drop [of sidx out 0] nth_drop [of sidx out 1] nth_drop [of sidx out 2] nth_drop [of sidx out 3] by simp_all
  have long: "sidx + 4 \<le> length out" using arg_cong [OF "1.prems"(2), of length] by simp
  have step: "decode_groups outLength sidx didx out = decode_groups outLength (sidx + 4) (didx + 3) ?out"
    using "1.prems"(1,4) by (subst decode_groups.simps) (simp add: Let_def first_byte_def second_byte_def third_byte_def)
  have bytes: "take (didx + 3) ?out = take didx out @ take 3 (octets [p, q, r, s])" and rest: "drop (sidx + 4) ?out = drop (sidx + 4) out"
    using update_three [of didx out sidx] "1.prems"(1) long by (simp_all add: first_byte_def second_byte_def third_byte_def nth nth [simplified])
  have "drop 4 (drop sidx out) = xs @ zs" unfolding "1.prems"(2) by simp
  then have "drop (sidx + 4) out = xs @ zs" by (simp add: add.commute)
  then have "take outLength (decode_rest outLength (decode_groups outLength (sidx + 4) (didx + 3) ?out)) = take (didx + 3) ?out @ octets xs
      \<and> length (decode_rest outLength (decode_groups outLength (sidx + 4) (didx + 3) ?out)) = length ?out"
    using "1.prems" long rest by (intro "1.IH") simp_all
  then show ?case unfolding step bytes by simp
next
  case (2 p q r)
  have "out ! sidx = p" "out ! (sidx + 1) = q" "out ! (sidx + 2) = r"
    using "2.prems"(2,5) nth_drop [of sidx out 0] nth_drop [of sidx out 1] nth_drop [of sidx out 2] by simp_all
  moreover have "sidx + 3 \<le> length out" using arg_cong [OF "2.prems"(2), of length] by simp
  moreover from this have "take (didx + 2) (out[didx := x, didx + 1 := y]) = take didx out @ [x, y]" for x y
    using "2.prems"(1) by (simp add: take_Suc_conv_app_nth)
  moreover have "decode_groups outLength sidx didx out = (sidx, didx, out)"
    using "2.prems"(4) by (intro decode_groups_stop) simp
  ultimately show ?case
    using "2.prems"(1,4) by (simp add: decode_rest_def Let_def first_byte_def second_byte_def)
next
  case (3 p q)
  have "out ! sidx = p" "out ! (sidx + 1) = q"
    using "3.prems"(2,5) nth_drop [of sidx out 0] nth_drop [of sidx out 1] by simp_all
  moreover have "sidx + 2 \<le> length out" using arg_cong [OF "3.prems"(2), of length] by simp
  moreover from this have "take (didx + 1) (out[didx := x]) = take didx out @ [x]" for x
    using "3.prems"(1) by (simp add: take_Suc_conv_app_nth)
  moreover have "decode_groups outLength sidx didx out = (sidx, didx, out)"
    using "3.prems"(4) by (intro decode_groups_stop) simp
  ultimately show ?case
    using "3.prems"(4) by (simp add: decode_rest_def Let_def first_byte_def)
next
  case 5
  then have "decode_groups outLength sidx didx out = (sidx, didx, out)"
    by (intro decode_groups_stop) simp
  then show ?case using "5.prems"(4) by (simp add: decode_rest_def Let_def)
qed simp


context base64_alphabet
begin

lemma decode_chars_text:
  assumes "list_all (\<lambda>x. unat x < 64) xs" "no_breaks s = map (encode_char encodeMap) xs" "length out \<ge> n + length xs"
    and "0x0A \<in> set s \<Longrightarrow> policy = Base64IgnoreInvalidCharacters \<or> policy = Base64IgnoreWhitespace \<and> isSpaceOrNewline e 0x0A"
  shows "decode_chars e policy decodeMap len (s @ t) 0 out n
    = decode_chars e policy decodeMap len t 0 (take n out @ xs @ drop (n + length xs) out) (n + length xs)"
  using assms
proof (induction s arbitrary: xs out n)
  case Nil
  then show ?case by (simp add: no_breaks_def)
next
  case (Cons c s)
  show ?case
  proof (cases "c = 0x0A")
    case True
    then have "decode_chars e policy decodeMap len ((c # s) @ t) 0 out n = decode_chars e policy decodeMap len (s @ t) 0 out n"
      using Cons.prems(4) break by auto
    with Cons True show ?thesis by (simp add: no_breaks_def)
  next
    case False
    then obtain x xs' where xs: "xs = x # xs'" "c = encode_char encodeMap x" "no_breaks s = map (encode_char encodeMap) xs'"
      using Cons.prems(2) by (auto simp: no_breaks_def)
    then have x: "unat x < 64" using Cons.prems(1) by simp
    have "decode_chars e policy decodeMap len ((c # s) @ t) 0 out n = decode_chars e policy decodeMap len (s @ t) 0 (out[n := x]) (n + 1)"
      using encoded [OF x] by (simp add: xs(2))
    moreover have "take (Suc n) (out[n := x]) = take n out @ [x]"
      using Cons.prems(3) xs(1) by (simp add: take_Suc_conv_app_nth)
    moreover have "drop (Suc (n + length xs')) (out[n := x]) = drop (Suc (n + length xs')) out" by simp
    ultimately show ?thesis
      using Cons.IH [of xs' "Suc n" "out[n := x]"] Cons.prems xs by simp
  qed
qed

lemma decode_chars_padding:
  "policy \<noteq> Base64FailOnInvalidCharacterOrExcessPadding \<or> len mod 4 = 0 \<and> k + count \<le> 2 \<Longrightarrow>
     decode_chars e policy decodeMap len (replicate k (ch CHR ''='')) count out n = Some (out, n, count + k)"
  by (induction k arbitrary: count) auto

text \<open>Encoded text with its padding decodes to the data.\<close>

lemma decode_encoded:
  assumes enc: "no_breaks s = map (encode_char encodeMap) (sextets data)" and "data \<noteq> []"
    and breaks: "0x0A \<in> set s \<Longrightarrow> policy = Base64IgnoreInvalidCharacters \<or> policy = Base64IgnoreWhitespace \<and> isSpaceOrNewline e 0x0A"
    and padding: "policy \<noteq> Base64FailOnInvalidCharacterOrExcessPadding \<or> (length s + k) mod 4 = 0 \<and> k \<le> 2"
    and mem: "\<And>n. length (mem n) = n"
  shows "base64DecodeInternal e mem (s @ replicate k (ch CHR ''='')) policy decodeMap = Some data"
proof -
  let ?xs = "sextets data" and ?n = "length s + k"
  let ?m = "length ?xs" and ?out = "?xs @ drop (length ?xs) (mem ?n)"
  have "?m = length (no_breaks s)" by (simp add: enc)
  also have "\<dots> \<le> length s" by (simp add: no_breaks_def)
  finally have m: "?m \<le> length s" .
  have ne: "?xs \<noteq> []" using assms(2) octets_sextets [of data] by auto
  have mod: "?m mod 4 \<noteq> 1"
    by (simp add: length_sextets mod_simps)
  have chars: "decode_chars e policy decodeMap ?n (s @ replicate k (ch CHR ''='')) 0 (mem ?n) 0 = Some (?out, ?m, k)"
  proof (rule trans)
    show "decode_chars e policy decodeMap ?n (s @ replicate k (ch CHR ''='')) 0 (mem ?n) 0
        = decode_chars e policy decodeMap ?n (replicate k (ch CHR ''='')) 0 ?out ?m"
      using decode_chars_text [OF sextets_small enc, of 0 "mem ?n" policy e ?n "replicate k (ch CHR ''='')"] breaks mem m by simp
    show "decode_chars e policy decodeMap ?n (replicate k (ch CHR ''='')) 0 ?out ?m = Some (?out, ?m, k)"
      using decode_chars_padding [of policy ?n k 0] padding by simp
  qed
  define L where "L = ?m - (?m + 3) div 4"
  have L: "L = length data" using length_octets [OF mod] by (simp add: L_def octets_sextets)
  have "take L (decode_rest L (decode_groups L 0 0 ?out)) = data \<and> length (decode_rest L (decode_groups L 0 0 ?out)) = length ?out"
    using decode_in_place [of 0 0 ?out ?xs "drop ?m (mem ?n)" L] mod by (simp add: octets_sextets L)
  moreover have "(if L > 1 then decode_groups L 0 0 ?out else (0, 0, ?out)) = decode_groups L 0 0 ?out"
    by (simp add: decode_groups.simps [of L 0 0])
  moreover have "s @ replicate k (ch CHR ''='') \<noteq> []" using m ne by auto
  ultimately show ?thesis
    using chars ne mod assms(2) L unfolding base64DecodeInternal_def
    by (auto simp: Let_def L_def [symmetric])
qed

end

interpretation base64: base64_alphabet base64EncMap base64DecMap
proof unfold_locales
  have "list_all (\<lambda>i. base64EncMap ! i < 128 \<and> base64EncMap ! i \<noteq> ch CHR ''='' \<and> base64DecMap ! (base64EncMap ! i) = of_nat i) [0..<64]"
    by code_simp
  then show "i < 64 \<Longrightarrow> base64EncMap ! i < 128 \<and> base64EncMap ! i \<noteq> ch CHR ''='' \<and> base64DecMap ! (base64EncMap ! i) = of_nat i" for i
    by (rule enum_range) simp_all
  show "base64DecMap ! 0x0A = nonAlphabet" by code_simp
qed

interpretation base64url: base64_alphabet base64URLEncMap base64URLDecMap
proof unfold_locales
  have "list_all (\<lambda>i. base64URLEncMap ! i < 128 \<and> base64URLEncMap ! i \<noteq> ch CHR ''='' \<and> base64URLDecMap ! (base64URLEncMap ! i) = of_nat i) [0..<64]"
    by code_simp
  then show "i < 64 \<Longrightarrow> base64URLEncMap ! i < 128 \<and> base64URLEncMap ! i \<noteq> ch CHR ''='' \<and> base64URLDecMap ! (base64URLEncMap ! i) = of_nat i" for i
    by (rule enum_range) simp_all
  show "base64URLDecMap ! 0x0A = nonAlphabet" by code_simp
qed

lemma encode_eq:
  assumes "data \<noteq> []" "length data \<le> maxInputBufferSize"
  shows "base64EncodeInternal data policy m =
    (let n = (length data + 2) div 3 * 4; lf = (policy = Base64InsertLFs \<and> n > 76); s = encoded_text m lf data 0
     in if policy = Base64URLPolicy then s else s @ replicate ((if lf then n + (n - 1) div 76 else n) - length s) (ch CHR ''=''))"
  using assms by (simp add: base64EncodeInternal_def encoded_text_def Let_def case_prod_beta)

text \<open>The characters of the last group: with the padding, a multiple of four.\<close>

lemma length_with_padding:
  "length (sextets data) \<le> (length data + 2) div 3 * 4" "(length data + 2) div 3 * 4 - length (sextets data) \<le> 2"
proof -
  obtain q r where d: "length data = 3 * q + r" "r < 3" by (metis mod_less_divisor mult_div_mod_eq zero_less_numeral)
  then have "length data div 3 = q" "length data mod 3 = r" by simp_all
  moreover have "(length data + 2) div 3 = (if r = 0 then q else Suc q)" using d by auto
  ultimately show "length (sextets data) \<le> (length data + 2) div 3 * 4" "(length data + 2) div 3 * 4 - length (sextets data) \<le> 2"
    using d(2) by (auto simp: length_sextets)
qed

lemma newline_space: "isSpaceOrNewline e 0x0A"
  by (simp add: isSpaceOrNewline_def isASCIISpace_def)

text \<open>
  C0: What is encoded is decoded again: plain base64 under every decoding policy, base64 with line breaks under the
  policies that skip white space, as long as the character count of the breaks fits an \<open>int\<close>, and the
  URL alphabet without padding, whatever the memory of the output vector held before.
\<close>

theorem base64_roundtrip:
  assumes "length data \<le> maxInputBufferSize" "\<And>n. length (mem n) = n"
  shows "base64Decode e mem (base64Encode data Base64DoNotInsertLFs) policy = Some data
    \<and> base64URLDecode e mem (base64URLEncode data) = Some data
    \<and> (length data < 1610612736 \<and> policy \<in> {Base64IgnoreWhitespace, Base64IgnoreInvalidCharacters} \<longrightarrow>
      base64Decode e mem (base64Encode data Base64InsertLFs) policy = Some data)"
proof (cases "data = []")
  case True
  then show ?thesis
    by (simp add: base64Encode_def base64URLEncode_def base64EncodeInternal_def base64Decode_def base64URLDecode_def base64DecodeInternal_def)
next
  case False
  let ?n = "(length data + 2) div 3 * 4"
  have no_break: "0x0A \<notin> set (encoded_text m False data 0)" if "base64_alphabet m d" for m d
  proof -
    have "length (no_breaks (encoded_text m False data 0)) = length (encoded_text m False data 0)"
      by (simp add: base64_alphabet.encoded_text_chars [OF that] length_encoded_text_no_breaks)
    then show ?thesis unfolding no_breaks_def by (metis (mono_tags, lifting) length_filter_less nat_neq_iff)
  qed
  have plain: "(length (encoded_text m False data 0) + (?n - length (encoded_text m False data 0))) mod 4 = 0"
    "?n - length (encoded_text m False data 0) \<le> 2" for m
    using length_with_padding [of data] by (simp_all add: length_encoded_text_no_breaks)
  have "base64Decode e mem (base64Encode data Base64DoNotInsertLFs) policy = Some data"
    unfolding base64Decode_def base64Encode_def encode_eq [OF False assms(1)] Let_def
    using base64.decode_encoded [OF base64.encoded_text_chars False _ _ assms(2), of False 0 policy e] no_break [OF base64.base64_alphabet_axioms] plain
    by simp
  moreover have "base64URLDecode e mem (base64URLEncode data) = Some data"
    unfolding base64URLDecode_def base64URLEncode_def encode_eq [OF False assms(1)] Let_def
    using base64url.decode_encoded [OF base64url.encoded_text_chars False _ _ assms(2), of False 0 Base64FailOnInvalidCharacter e 0] no_break [OF base64url.base64_alphabet_axioms]
    by simp
  moreover have "base64Decode e mem (base64Encode data Base64InsertLFs) policy = Some data"
    if "policy \<in> {Base64IgnoreWhitespace, Base64IgnoreInvalidCharacters}"
    unfolding base64Decode_def base64Encode_def encode_eq [OF False assms(1)] Let_def
    using base64.decode_encoded [OF base64.encoded_text_chars False _ _ assms(2), of _ 0 policy e] that newline_space [of e]
    by auto
  ultimately show ?thesis by blast
qed

definition sample_bytes :: "byte list" where
  "sample_bytes = [0x00, 0xFF, 0x10, 0x83]"

theorem base64_roundtrip_witness:
  "base64Encode sample_bytes Base64DoNotInsertLFs = lit ''AP8Qgw==''
   \<and> base64Decode ascii_icu (\<lambda>n. replicate n 0xAA) (base64Encode sample_bytes Base64DoNotInsertLFs) Base64FailOnInvalidCharacter = Some sample_bytes"
proof -
  have "length sample_bytes \<le> maxInputBufferSize" by (simp add: sample_bytes_def maxInputBufferSize_def)
  moreover have "replicate 2 c = [c, c]" for c :: code_unit by (simp add: numeral_2_eq_2)
  with calculation have "base64Encode sample_bytes Base64DoNotInsertLFs = lit ''AP8Qgw==''"
    by (simp add: base64Encode_def encode_eq encoded_text_def encode_rest_def encode_char_def base64EncMap_def sample_bytes_def lit_def Let_def)
  ultimately show ?thesis using base64_roundtrip [of sample_bytes "\<lambda>n. replicate n 0xAA"] by simp
qed

text \<open>
  C0: The encoder fills its output vector exactly: four characters for every three bytes begun, and a line break
  after every 76 characters where they are asked for. No write is outside the vector, and its length does not
  wrap in 32 bits.
\<close>

theorem base64_length:
  assumes "0 < length data" "length data \<le> maxInputBufferSize" "policy \<noteq> Base64URLPolicy"
    and "n = (length data + 2) div 3 * 4" "lines = (if policy = Base64InsertLFs then (n - 1) div 76 else 0)"
  shows "length (base64Encode data policy) = n + lines \<and> n + lines < 2 ^ 32"
proof -
  define g where "g = (length data + 2) div 3"
  have "3 div 3 \<le> (length data + 2) div 3" using assms(1) by (intro div_le_mono) linarith
  then have n: "n = 4 * g" "0 < g" using assms(4) by (simp_all add: g_def)
  have lines: "(4 * g - 1) div 76 = (g - 1) div 19"
  proof -
    obtain h where "g = Suc h" using n(2) by (cases g) auto
    then have "(4 * g - 1) div 76 = (4 * h + 3) div 4 div 19" using div_mult2_eq [of "4 * h + 3" 4 19] by simp
    also have "(4 * h + 3) div 4 = h" by simp
    finally show ?thesis using \<open>g = Suc h\<close> by simp
  qed
  have sext: "length (sextets data) \<le> n" using length_with_padding(1) [of data] assms(4) by simp
  have "length (encoded_text base64EncMap True data 0) = length (sextets data) + (n - 1) div 76"
    unfolding n(1) lines using length_encoded_text [of base64EncMap data 0, folded g_def] by simp
  moreover have "(n - 1) div 76 = 0" if "\<not> n > 76" using that by simp
  ultimately have "length (base64Encode data policy) = n + lines"
    unfolding base64Encode_def using assms sext
    by (auto simp: encode_eq Let_def length_encoded_text_no_breaks)
  moreover have "n + lines < 2 ^ 32"
  proof -
    have "length data \<le> 3179391370" using assms(2) by (simp add: maxInputBufferSize_def)
    then have "g \<le> 1059797124" by (simp add: g_def)
    moreover from this have "(g - 1) div 19 \<le> 55778795" by simp
    ultimately show ?thesis using assms(5) by (auto simp: n(1) lines)
  qed
  ultimately show ?thesis by simp
qed

theorem base64_length_witness: "length (base64Encode sample_bytes Base64InsertLFs) = 8"
proof -
  have "length sample_bytes \<le> maxInputBufferSize" by (simp add: sample_bytes_def maxInputBufferSize_def)
  then show ?thesis
    using base64_length [of sample_bytes Base64InsertLFs 8 0] by (simp add: sample_bytes_def)
qed

text \<open>
  Input of nothing but white space is accepted, and the result is uninitialised memory.
\<close>

lemma blank_base64_uninitialised: "base64Decode e mem (lit ''  '') Base64IgnoreWhitespace = Some (mem 2)"
proof -
  have "base64DecMap ! 32 = nonAlphabet" by code_simp
  then show ?thesis
    by (simp add: base64Decode_def base64DecodeInternal_def lit_def isSpaceOrNewline_def isASCIISpace_def flip: numeral_2_eq_2)
qed

end
