(* ===== verification/Wtf_Search.thy ===== *)
theory Wtf_Search
  imports Wtf_Text
begin

text \<open>
  Searching, splitting and joining strings: \<open>findInner\<close> with its rolling sum,
  \<open>String::split\<close>, \<open>String::stripWhiteSpace\<close> and \<open>String::ascii\<close>.
\<close>

section \<open>Searching\<close>

text \<open>
  \<open>findInner\<close>: a running sum of the characters in the window, in 32 bits, is compared before the
  characters are. The loop is entered with the window at \<open>i\<close>.
\<close>

definition char_sum :: "wtf_string \<Rightarrow> 32 word" where
  "char_sum s = sum_list (map of_nat s)"

function find_loop :: "wtf_string \<Rightarrow> wtf_string \<Rightarrow> nat \<Rightarrow> 32 word \<Rightarrow> 32 word \<Rightarrow> nat \<Rightarrow> nat option" where
  "find_loop s t delta searchHash matchHash i =
     (if searchHash \<noteq> matchHash \<or> take (length t) (drop i s) \<noteq> t
      then if i \<ge> delta then None
           else find_loop s t delta (searchHash + of_nat (s ! (i + length t)) - of_nat (s ! i)) matchHash (i + 1)
      else Some i)"
  by pat_completeness auto
termination
  by (relation "measure (\<lambda>(_, _, delta, _, _, i). delta - i)") auto

declare find_loop.simps [simp del]

definition findInner :: "wtf_string \<Rightarrow> wtf_string \<Rightarrow> nat \<Rightarrow> nat option" where
  "findInner searchCharacters matchCharacters index =
     map_option (\<lambda>i. index + i)
       (find_loop searchCharacters matchCharacters (length searchCharacters - length matchCharacters)
         (char_sum (take (length matchCharacters) searchCharacters)) (char_sum matchCharacters) 0)"

definition find_string :: "wtf_string \<Rightarrow> wtf_string \<Rightarrow> nat \<Rightarrow> nat option" where
  "find_string s matchString index =
     (if length matchString = 1 then find_char (matchString ! 0) s index
      else if matchString = [] then Some (min index (length s))
      else if index > length s then None
      else if length matchString > length s - index then None
      else findInner (drop index s) matchString index)"

text \<open>The first place at or behind \<open>index\<close> where the text occurs.\<close>

definition occurs_at :: "wtf_string \<Rightarrow> wtf_string \<Rightarrow> nat \<Rightarrow> bool" where
  "occurs_at s t i \<longleftrightarrow> i + length t \<le> length s \<and> take (length t) (drop i s) = t"

lemma find_loop_spec:
  assumes "i \<le> delta" "delta = length s - length t" "length t \<le> length s"
    and "searchHash = char_sum (take (length t) (drop i s))" "matchHash = char_sum t"
  shows "find_loop s t delta searchHash matchHash i =
    (if \<exists>k \<ge> i. occurs_at s t k then Some (LEAST k. i \<le> k \<and> occurs_at s t k) else None)"
  using assms
proof (induction s t delta searchHash matchHash i rule: find_loop.induct)
  case (1 s t delta searchHash matchHash i)
  show ?case
  proof (cases "take (length t) (drop i s) = t")
    case True
    then have "occurs_at s t i" using "1.prems" by (simp add: occurs_at_def)
    then have "(LEAST k. i \<le> k \<and> occurs_at s t k) = i" by (intro Least_equality) auto
    with True \<open>occurs_at s t i\<close> "1.prems" show ?thesis by (subst find_loop.simps) auto
  next
    case False
    then have no: "\<not> occurs_at s t i" by (simp add: occurs_at_def)
    have shift: "(\<exists>k \<ge> i. occurs_at s t k) \<longleftrightarrow> (\<exists>k \<ge> i + 1. occurs_at s t k)"
      "i \<le> k \<and> occurs_at s t k \<longleftrightarrow> i + 1 \<le> k \<and> occurs_at s t k" for k
      using no by (metis Suc_eq_plus1 Suc_le_eq le_eq_less_or_eq)+
    show ?thesis
    proof (cases "i \<ge> delta")
      case True
      then have "\<not> (\<exists>k \<ge> i + 1. occurs_at s t k)" using "1.prems" by (auto simp: occurs_at_def)
      with True False show ?thesis by (subst find_loop.simps) (simp add: shift(1))
    next
      case less: False
      then have "drop i s = s ! i # drop (Suc i) s" "i + length t < length s"
        using "1.prems" by (auto simp: Cons_nth_drop_Suc)
      then have "char_sum (take (length t) (drop (Suc i) s)) = searchHash + of_nat (s ! (i + length t)) - of_nat (s ! i)"
        unfolding "1.prems"(4) char_sum_def
        by (cases "length t") (simp_all add: take_Suc_conv_app_nth)
      with "1.IH" less False "1.prems" show ?thesis
        by (subst find_loop.simps) (simp add: shift)
    qed
  qed
qed

lemma least_Some: "(if \<exists>k. P k then Some (LEAST k. P k) else None) = Some k \<longleftrightarrow> P k \<and> (\<forall>j < k. \<not> P j)" for k :: nat
  by (auto intro: LeastI_ex dest: not_less_Least intro: Least_equality) (metis LeastI Least_equality linorder_not_le)

lemma find_char_occurs: "find_char c s index = Some k \<longleftrightarrow> index \<le> k \<and> occurs_at s [c] k \<and> (\<forall>j. index \<le> j \<and> j < k \<longrightarrow> \<not> occurs_at s [c] j)"
proof -
  have at: "occurs_at s [c] j \<longleftrightarrow> j < length s \<and> s ! j = c" for j
    by (auto simp: occurs_at_def Suc_le_eq take_Suc hd_drop_conv_nth)
  show ?thesis
  proof
    assume "find_char c s index = Some k"
    from find_char_Some [OF this] show "index \<le> k \<and> occurs_at s [c] k \<and> (\<forall>j. index \<le> j \<and> j < k \<longrightarrow> \<not> occurs_at s [c] j)"
      by (simp add: at)
  next
    assume R: "index \<le> k \<and> occurs_at s [c] k \<and> (\<forall>j. index \<le> j \<and> j < k \<longrightarrow> \<not> occurs_at s [c] j)"
    then obtain k' where k': "find_char c s index = Some k'" using find_char_None [of c s index k] by (cases "find_char c s index") (auto simp: at)
    from find_char_Some [OF this] R have "k = k'" by (metis at linorder_neqE_nat)
    with k' show "find_char c s index = Some k" by simp
  qed
qed

lemma find_string_spec:
  "t \<noteq> [] \<Longrightarrow> find_string s t index = Some k \<longleftrightarrow>
     index \<le> k \<and> occurs_at s t k \<and> (\<forall>j. index \<le> j \<and> j < k \<longrightarrow> \<not> occurs_at s t j)"
proof (cases "length t = 1")
  case True
  then obtain c where "t = [c]" by (auto simp: length_Suc_conv)
  then show ?thesis by (simp add: find_string_def find_char_occurs)
next
  case False
  assume "t \<noteq> []"
  show ?thesis
  proof (cases "index \<le> length s \<and> length t \<le> length s - index")
    case True
    let ?s = "drop index s"
    have shift: "occurs_at ?s t k \<longleftrightarrow> occurs_at s t (index + k)" for k
      using True by (auto simp: occurs_at_def add.commute)
    have "find_loop ?s t (length ?s - length t) (char_sum (take (length t) ?s)) (char_sum t) 0
        = (if \<exists>k. occurs_at ?s t k then Some (LEAST k. occurs_at ?s t k) else None)"
      using find_loop_spec [of 0 "length ?s - length t" ?s t, OF _ refl _ _ refl] True by simp
    then have "find_loop ?s t (length ?s - length t) (char_sum (take (length t) ?s)) (char_sum t) 0 = Some j
        \<longleftrightarrow> occurs_at s t (index + j) \<and> (\<forall>i < j. \<not> occurs_at s t (index + i))" for j
      by (simp only: least_Some shift)
    then have "find_string s t index = Some k \<longleftrightarrow> (\<exists>j. k = index + j \<and> occurs_at s t (index + j) \<and> (\<forall>i < j. \<not> occurs_at s t (index + i)))"
      using True False \<open>t \<noteq> []\<close> by (auto simp: find_string_def findInner_def)
    also have "\<dots> \<longleftrightarrow> index \<le> k \<and> occurs_at s t k \<and> (\<forall>j. index \<le> j \<and> j < k \<longrightarrow> \<not> occurs_at s t j)"
      by (auto simp: le_iff_add)
    finally show ?thesis .
  next
    case short: False
    then have "find_string s t index = None" using False \<open>t \<noteq> []\<close> by (auto simp: find_string_def)
    moreover have "\<not> occurs_at s t k" if "index \<le> k" using short that \<open>t \<noteq> []\<close> by (auto simp: occurs_at_def)
    ultimately show ?thesis by auto
  qed
qed

text \<open>
  C0: The search with a running hash finds exactly the first place at or behind the start where the text occurs,
  whatever the hashes do, and nothing when there is none.
\<close>

theorem find_string_first:
  "t \<noteq> [] \<Longrightarrow> find_string s t index = Some k \<longleftrightarrow>
     index \<le> k \<and> occurs_at s t k \<and> (\<forall>j. index \<le> j \<and> j < k \<longrightarrow> \<not> occurs_at s t j)"
  by (rule find_string_spec)

theorem find_string_first_witness:
  "find_string (lit ''chat, superchat, soap'') (lit '', '') 5 = Some 15"
proof -
  have "occurs_at (lit ''chat, superchat, soap'') (lit '', '') 15" by code_simp
  moreover have none: "list_all (\<lambda>j. \<not> occurs_at (lit ''chat, superchat, soap'') (lit '', '') j) [5..<15]" by code_simp
  moreover have "\<forall>j. 5 \<le> j \<and> j < 15 \<longrightarrow> \<not> occurs_at (lit ''chat, superchat, soap'') (lit '', '') j" using enum_range [OF none] by blast
  ultimately show ?thesis using find_string_first [of "lit '', ''" "lit ''chat, superchat, soap''" 5 15] by (simp add: lit_def)
qed

section \<open>Splitting and stripping\<close>

text \<open>The loops of \<open>split\<close>, for a separator that is not empty.\<close>

lemma find_string_ge:
  assumes "find_string s t index = Some k" "t \<noteq> []"
  shows "index \<le> k" "k + length t \<le> length s" "take (length t) (drop k s) = t"
  using assms by (auto simp: find_string_spec occurs_at_def)

lemma find_string_progress:
  assumes "find_string s t index = Some k" "t \<noteq> []"
  shows "length s - (k + length t) < length s - index"
  using find_string_ge [OF assms] assms(2) by (cases t) auto

function split_loop :: "wtf_string \<Rightarrow> wtf_string \<Rightarrow> bool \<Rightarrow> nat \<Rightarrow> wtf_string list" where
  "split_loop s separator allowEmptyEntries startPos =
     (case (if separator = [] then None else find_string s separator startPos) of
       Some endPos \<Rightarrow>
         (if allowEmptyEntries \<or> startPos \<noteq> endPos then [substring s startPos (endPos - startPos)] else [])
         @ split_loop s separator allowEmptyEntries (endPos + length separator)
     | None \<Rightarrow> if allowEmptyEntries \<or> startPos \<noteq> length s then [substring_from s startPos] else [])"
  by pat_completeness auto
termination
  by (relation "measure (\<lambda>(s, _, _, startPos). length s - startPos)")
    (auto split: if_splits intro: find_string_progress)

declare split_loop.simps [simp del]

definition split_string :: "wtf_string \<Rightarrow> wtf_string \<Rightarrow> bool \<Rightarrow> wtf_string list" where
  "split_string s separator allowEmptyEntries = split_loop s separator allowEmptyEntries 0"

definition split_char :: "wtf_string \<Rightarrow> code_unit \<Rightarrow> bool \<Rightarrow> wtf_string list" where
  "split_char s separator allowEmptyEntries = split_loop s [separator] allowEmptyEntries 0"

definition stripWhiteSpace :: "icu \<Rightarrow> wtf_string \<Rightarrow> wtf_string" where
  "stripWhiteSpace u s =
     (let start = scan_while (isSpaceOrNewline u) s 0
      in if start \<ge> length s then []
         else let stop = length s - length (takeWhile (isSpaceOrNewline u) (rev s)) in between start stop s)"

definition ascii :: "wtf_string \<Rightarrow> wtf_string" where
  "ascii s = map (\<lambda>c. if c \<noteq> 0 \<and> (c < 0x20 \<or> c > 0x7f) then ch CHR ''?'' else c) s"

fun joinStrings :: "wtf_string list \<Rightarrow> wtf_string \<Rightarrow> wtf_string" where
  "joinStrings [] separator = []"
| "joinStrings [s] separator = s"
| "joinStrings (s # t # strings) separator = s @ separator @ joinStrings (t # strings) separator"

lemma occurs_at_hd: "occurs_at s (c # cs) j \<Longrightarrow> s ! j = c"
  by (auto simp: occurs_at_def take_Suc hd_drop_conv_nth)

lemma split_joined:
  assumes "list_all (\<lambda>s. s \<noteq> [] \<and> c \<notin> set s) (s # strings)" "sep = c # cs"
  shows "split_loop (pre @ joinStrings (s # strings) sep) sep False (length pre) = s # strings"
  using assms(1)
proof (induction strings arbitrary: s pre)
  case Nil
  then have "find_string (pre @ s) sep (length pre) = None"
  proof (cases "find_string (pre @ s) sep (length pre)")
    case (Some k)
    then have "length pre \<le> k" "k + length sep \<le> length (pre @ s)" "take (length sep) (drop k (pre @ s)) = sep"
      using find_string_ge assms(2) by blast+
    then have "c \<in> set s" using assms(2)
      by (metis (no_types, lifting) drop_append drop_all append_Nil in_set_dropD in_set_takeD list.set_intros(1))
    with Nil show ?thesis by simp
  qed simp
  with Nil show ?case using assms(2) by (subst split_loop.simps) (simp add: substring_from_def)
next
  case (Cons t strings)
  let ?rest = "joinStrings (t # strings) sep"
  let ?text = "pre @ s @ sep @ ?rest"
  have "find_string ?text sep (length pre) = Some (length pre + length s)"
    unfolding find_string_spec [of sep, unfolded assms(2), simplified, folded assms(2)]
  proof (intro conjI allI impI)
    show "occurs_at ?text sep (length pre + length s)" by (simp add: occurs_at_def)
    fix j assume j: "length pre \<le> j \<and> j < length pre + length s"
    then have "j - length pre < length s" by auto
    with j have "?text ! j = s ! (j - length pre)" by (simp add: nth_append)
    moreover have "s ! (j - length pre) \<in> set s" using \<open>j - length pre < length s\<close> by simp
    ultimately have "?text ! j \<noteq> c" using Cons.prems by auto
    then show "\<not> occurs_at ?text sep j"
      using assms(2) occurs_at_hd by blast
  qed simp
  moreover have "substring ?text (length pre) (length s) = s" using Cons.prems by (simp add: substring_def)
  moreover have "split_loop ((pre @ s @ sep) @ ?rest) sep False (length (pre @ s @ sep)) = t # strings"
    using Cons.IH [of t "pre @ s @ sep"] Cons.prems by simp
  ultimately show ?case using Cons.prems assms(2) by (subst split_loop.simps) (simp add: add.assoc)
qed

lemma split_join:
  "list_all (\<lambda>s. s \<noteq> [] \<and> c \<notin> set s) strings \<Longrightarrow> strings \<noteq> [] \<Longrightarrow>
     split_string (joinStrings strings (c # cs)) (c # cs) False = strings"
  using split_joined [of c _ _ "c # cs" cs "[]"] by (cases strings) (auto simp: split_string_def)

end
