(* ===== verification/Http_Headers.thy ===== *)
theory Http_Headers
  imports Wtf_Search Wtf_Utf8
begin

text \<open>
  The map of the header fields of a request or a response, \<open>HTTPHeaderMap\<close>: fields with a known
  name in one table, the others in a second one under their names in any case.
\<close>

section \<open>Tables with one entry for each key\<close>

text \<open>
  What the header map needs of a hash table whose keys are compared by \<open>same\<close>: reading, replacing and
  adding behind an existing value, separated by a comma.
\<close>

type_synonym entries = "(wtf_string \<times> wtf_string) list"

fun entry_get :: "(wtf_string \<Rightarrow> wtf_string \<Rightarrow> bool) \<Rightarrow> wtf_string \<Rightarrow> entries \<Rightarrow> wtf_string option" where
  "entry_get same name [] = None"
| "entry_get same name ((key, v) # es) = (if same name key then Some v else entry_get same name es)"

fun entry_put :: "(wtf_string \<Rightarrow> wtf_string \<Rightarrow> bool) \<Rightarrow> wtf_string \<Rightarrow> (wtf_string option \<Rightarrow> wtf_string) \<Rightarrow> entries \<Rightarrow> entries" where
  "entry_put same name f [] = [(name, f None)]"
| "entry_put same name f ((key, v) # es) = (if same name key then (key, f (Some v)) # es else (key, v) # entry_put same name f es)"

fun entry_remove :: "(wtf_string \<Rightarrow> wtf_string \<Rightarrow> bool) \<Rightarrow> wtf_string \<Rightarrow> entries \<Rightarrow> entries" where
  "entry_remove same name [] = []"
| "entry_remove same name ((key, v) # es) = (if same name key then es else (key, v) # entry_remove same name es)"

locale key_comparison =
  fixes same :: "wtf_string \<Rightarrow> wtf_string \<Rightarrow> bool"
  assumes equiv: "equivp same"
begin

lemma get_put: "entry_get same n (entry_put same m f es) = (if same n m then Some (f (entry_get same m es)) else entry_get same n es)"
proof (induction es)
  case Nil
  then show ?case by simp
next
  case (Cons e es)
  obtain k v where "e = (k, v)" by (cases e)
  with Cons show ?case
    using equivp_symp [OF equiv, of n m] equivp_transp [OF equiv, of n m k] equivp_transp [OF equiv, of m n k]
      equivp_symp [OF equiv, of m k] equivp_transp [OF equiv, of n k m] by auto
qed

end

interpretation exact: key_comparison "(=)"
  by unfold_locales (rule identity_equivp)

interpretation folded: key_comparison "equalIgnoringCase u" for u
  by unfold_locales (auto simp: equalIgnoringCase_def intro!: equivpI reflpI sympI transpI)

section \<open>Header names\<close>

definition HTTPHeaderNames :: "wtf_string list" where
  "HTTPHeaderNames = map lit
    [''Accept'', ''Accept-Charset'', ''Accept-Language'', ''Accept-Encoding'', ''Accept-Ranges'', 
     ''Access-Control-Allow-Credentials'', ''Access-Control-Allow-Headers'', ''Access-Control-Allow-Methods'', 
     ''Access-Control-Allow-Origin'', ''Access-Control-Expose-Headers'', ''Access-Control-Max-Age'', 
     ''Access-Control-Request-Headers'', ''Access-Control-Request-Method'', ''Age'', ''Alternate-Protocol'', 
     ''Authorization'', ''Cache-Control'', ''Connection'', ''Content-Disposition'', ''Content-Encoding'', 
     ''Content-Language'', ''Content-Length'', ''Content-Security-Policy'', ''Content-Security-Policy-Report-Only'', 
     ''Content-Type'', ''Content-Transfer-Encoding'', ''Cookie'', ''Cookie2'', ''Date'', ''DNT'', ''Default-Style'', 
     ''ETag'', ''Expect'', ''Expires'', ''Host'', ''If-Match'', ''If-Modified-Since'', ''If-None-Match'', 
     ''If-Range'', ''If-Unmodified-Since'', ''Keep-Alive'', ''Last-Event-ID'', ''Last-Modified'', ''Location'', 
     ''Origin'', ''Ping-From'', ''Ping-To'', ''Purpose'', ''Pragma'', ''Range'', ''Referer'', ''Refresh'', 
     ''Sec-WebSocket-Accept'', ''Sec-WebSocket-Extensions'', ''Sec-WebSocket-Key'', ''Sec-WebSocket-Protocol'', 
     ''Sec-WebSocket-Version'', ''Server'', ''Set-Cookie'', ''Set-Cookie2'', ''TE'', ''Timing-Allow-Origin'', 
     ''Trailer'', ''Transfer-Encoding'', ''Upgrade'', ''User-Agent'', ''Vary'', ''Via'', ''X-Check-Cacheable'', 
     ''X-Content-Type-Options'', ''X-DNS-Prefetch-Control'', ''X-Frame-Options'', ''X-Powered-By'', 
     ''X-WebKit-CSP'', ''X-WebKit-CSP-Report-Only'', ''X-XSS-Protection'', ''Icy-Genre'', ''Icy-MetaInt'', 
     ''Icy-Metadata'', ''Icy-Name'', ''Icy-Title'', ''Icy-URL'']"

text \<open>The table of known names is searched without regard to the case of ASCII letters; a known name stands for its enumerator.\<close>

definition findHTTPHeaderName :: "wtf_string \<Rightarrow> wtf_string option" where
  "findHTTPHeaderName name =
     (if \<not> list_all isASCII name then None
      else find (\<lambda>known. map toASCIILower known = map toASCIILower name) HTTPHeaderNames)"

section \<open>The header map\<close>

record header_map =
  hm_common :: entries
  hm_uncommon :: entries

definition HTTPHeaderMap :: header_map where
  "HTTPHeaderMap = \<lparr>hm_common = [], hm_uncommon = []\<rparr>"

definition combined :: "wtf_string \<Rightarrow> wtf_string option \<Rightarrow> wtf_string" where
  "combined v old = (case old of None \<Rightarrow> v | Some w \<Rightarrow> w @ lit '', '' @ v)"

definition hm_get_name :: "wtf_string \<Rightarrow> header_map \<Rightarrow> wtf_string option" where
  "hm_get_name header m = entry_get (=) header (hm_common m)"

definition hm_set_name :: "wtf_string \<Rightarrow> wtf_string \<Rightarrow> header_map \<Rightarrow> header_map" where
  "hm_set_name header v m = m\<lparr>hm_common := entry_put (=) header (\<lambda>_. v) (hm_common m)\<rparr>"

definition hm_contains :: "wtf_string \<Rightarrow> header_map \<Rightarrow> bool" where
  "hm_contains header m \<longleftrightarrow> entry_get (=) header (hm_common m) \<noteq> None"

definition hm_remove :: "wtf_string \<Rightarrow> header_map \<Rightarrow> header_map" where
  "hm_remove header m = m\<lparr>hm_common := entry_remove (=) header (hm_common m)\<rparr>"

definition hm_add_name :: "wtf_string \<Rightarrow> wtf_string \<Rightarrow> header_map \<Rightarrow> header_map" where
  "hm_add_name header v m = m\<lparr>hm_common := entry_put (=) header (combined v) (hm_common m)\<rparr>"

definition hm_get :: "icu \<Rightarrow> wtf_string \<Rightarrow> header_map \<Rightarrow> wtf_string option" where
  "hm_get u name m =
     (case findHTTPHeaderName name of
       None \<Rightarrow> entry_get (equalIgnoringCase u) name (hm_uncommon m)
     | Some header \<Rightarrow> entry_get (=) header (hm_common m))"

definition hm_set :: "icu \<Rightarrow> wtf_string \<Rightarrow> wtf_string \<Rightarrow> header_map \<Rightarrow> header_map" where
  "hm_set u name v m =
     (case findHTTPHeaderName name of
       None \<Rightarrow> m\<lparr>hm_uncommon := entry_put (equalIgnoringCase u) name (\<lambda>_. v) (hm_uncommon m)\<rparr>
     | Some header \<Rightarrow> hm_set_name header v m)"

definition hm_add :: "icu \<Rightarrow> wtf_string \<Rightarrow> wtf_string \<Rightarrow> header_map \<Rightarrow> header_map" where
  "hm_add u name v m =
     (case findHTTPHeaderName name of
       None \<Rightarrow> m\<lparr>hm_uncommon := entry_put (equalIgnoringCase u) name (combined v) (hm_uncommon m)\<rparr>
     | Some header \<Rightarrow> hm_add_name header v m)"

definition hm_isEmpty :: "header_map \<Rightarrow> bool" where
  "hm_isEmpty m \<longleftrightarrow> hm_common m = [] \<and> hm_uncommon m = []"

definition hm_size :: "header_map \<Rightarrow> nat" where
  "hm_size m = length (hm_common m) + length (hm_uncommon m)"

definition hm_clear :: "header_map \<Rightarrow> header_map" where
  "hm_clear m = m\<lparr>hm_common := [], hm_uncommon := []\<rparr>"

text \<open>Two names are of the same field: the same known name, or equal up to case where neither is known.\<close>

definition same_field :: "icu \<Rightarrow> wtf_string \<Rightarrow> wtf_string \<Rightarrow> bool" where
  "same_field u a b \<longleftrightarrow> findHTTPHeaderName a = findHTTPHeaderName b \<and> (findHTTPHeaderName a = None \<longrightarrow> equalIgnoringCase u a b)"

lemma hm_get_add: "hm_get u a (hm_add u b v m) = (if same_field u a b then Some (combined v (hm_get u b m)) else hm_get u a m)"
  by (auto simp: hm_get_def hm_add_def hm_add_name_def same_field_def exact.get_put folded.get_put split: option.splits)

lemma hm_get_set: "hm_get u a (hm_set u b v m) = (if same_field u a b then Some v else hm_get u a m)"
  by (auto simp: hm_get_def hm_set_def hm_set_name_def same_field_def exact.get_put folded.get_put split: option.splits)

text \<open>
  C0: The fields of a message are kept by name: reading a name after any sequence of additions gives the values added
  under that name, in order and separated by commas, and a name that was not added stays as it was. Known names are compared
  by their ASCII letters without case, all others by Unicode case folding.
\<close>

theorem header_fields:
  "hm_get u a (fold (\<lambda>(name, v). hm_add u name v) fs m) =
     fold (\<lambda>v old. Some (combined v old)) (map snd (filter (\<lambda>(name, v). same_field u a name) fs)) (hm_get u a m)"
proof (induction fs arbitrary: m)
  case Nil
  then show ?case by simp
next
  case (Cons f fs)
  obtain name v where "f = (name, v)" by (cases f)
  moreover have "hm_get u name m = hm_get u a m" if "same_field u a name"
  proof (cases "findHTTPHeaderName a")
    case None
    with that have "equalIgnoringCase u a name" "findHTTPHeaderName name = None" by (auto simp: same_field_def)
    moreover from this have "entry_get (equalIgnoringCase u) name es = entry_get (equalIgnoringCase u) a es" for es
      by (induction es) (auto simp: equalIgnoringCase_def)
    ultimately show ?thesis using None by (simp add: hm_get_def)
  qed (use that in \<open>auto simp: same_field_def hm_get_def split: option.splits\<close>)
  ultimately show ?case using Cons by (simp add: hm_get_add)
qed

end
