(* ===== verification/Http_Parsers.thy ===== *)
theory Http_Parsers
  imports Http_Headers Url_Access
begin

text \<open>
  The parsers of \<open>WebCore/platform/network/HTTPParsers.cpp\<close>: header values, the security headers,
  ranges, and the lines of a message.
\<close>

section \<open>Tokens and values\<close>

text \<open>The scanners return whether they found what they look for, and the new position.\<close>

definition skipWhiteSpace :: "wtf_string \<Rightarrow> nat \<Rightarrow> bool \<Rightarrow> bool \<times> nat" where
  "skipWhiteSpace str pos fromHttpEquivMeta =
     (let p = (if fromHttpEquivMeta then scan_while (\<lambda>c. c \<le> ch CHR '' '') str pos
               else scan_while (\<lambda>c. c = 9 \<or> c = ch CHR '' '') str pos)
      in (p < length str, p))"

fun skip_token_loop :: "wtf_string \<Rightarrow> nat \<Rightarrow> wtf_string \<Rightarrow> nat option" where
  "skip_token_loop str current [] = Some current"
| "skip_token_loop str current (t # token) =
     (if current < length str \<and> toASCIILower (str ! current) = t then skip_token_loop str (current + 1) token else None)"

definition skipToken :: "wtf_string \<Rightarrow> nat \<Rightarrow> wtf_string \<Rightarrow> bool \<times> nat" where
  "skipToken str pos token = (case skip_token_loop str pos token of None \<Rightarrow> (False, pos) | Some current \<Rightarrow> (True, current))"

definition skipEquals :: "wtf_string \<Rightarrow> nat \<Rightarrow> bool \<times> nat" where
  "skipEquals str pos =
     (let (more, p) = skipWhiteSpace str pos False in
      if \<not> more then (False, p)
      else if at str p \<noteq> ch CHR ''='' then (False, p + 1)
      else skipWhiteSpace str (p + 1) False)"

definition skipValue :: "wtf_string \<Rightarrow> nat \<Rightarrow> bool \<times> nat" where
  "skipValue str pos =
     (let p = scan_while (\<lambda>c. \<not> (c = ch CHR '' '' \<or> c = 9 \<or> c = ch CHR '';'')) str pos in (p \<noteq> pos, p))"

text \<open>Reading a string outside of its bounds gives the null character; \<open>length() - 1\<close> is outside for an empty string.\<close>

definition isValidHTTPHeaderValue :: "wtf_string \<Rightarrow> bool" where
  "isValidHTTPHeaderValue v \<longleftrightarrow>
     at v 0 \<noteq> ch CHR '' '' \<and> at v 0 \<noteq> 9
     \<and> (v \<noteq> [] \<longrightarrow> at v (length v - 1) \<noteq> ch CHR '' '' \<and> at v (length v - 1) \<noteq> 9)
     \<and> list_all (\<lambda>c. \<not> (c = 0x7F \<or> c > 0xFF \<or> (c < 0x20 \<and> c \<noteq> 9))) v"

definition isValidHTTPToken :: "wtf_string \<Rightarrow> bool" where
  "isValidHTTPToken v \<longleftrightarrow> v \<noteq> [] \<and> list_all (\<lambda>c. \<not> (c \<le> 0x20 \<or> c \<ge> 0x7F \<or> c \<in> set (lit ''()<>@,;:'') \<or> c = 92 \<or> c = 34
     \<or> c \<in> set (lit ''/[]?={}''))) v"

datatype ContentDispositionType = ContentDispositionNone | ContentDispositionInline | ContentDispositionAttachment | ContentDispositionOther

text \<open>\<^const>\<open>None\<close> when the first element of an empty vector is read.\<close>

definition contentDispositionType :: "icu \<Rightarrow> wtf_string \<Rightarrow> ContentDispositionType option" where
  "contentDispositionType u contentDisposition =
     (if contentDisposition = [] then Some ContentDispositionNone
      else case split_char contentDisposition (ch CHR '';'') False of
          [] \<Rightarrow> None
        | dispositionType # _ \<Rightarrow>
            if equalIgnoringCase u dispositionType (lit ''inline'') then Some ContentDispositionInline
            else if \<not> isValidHTTPToken dispositionType then Some ContentDispositionNone
            else Some ContentDispositionAttachment)"

text \<open>The loop over the pairs; the null string is \<^const>\<open>None\<close>.\<close>

fun filename_in :: "icu \<Rightarrow> wtf_string list \<Rightarrow> wtf_string option" where
  "filename_in u [] = None"
| "filename_in u (pair # keyValuePairs) =
     (case find_char (ch CHR ''='') pair 0 of
       None \<Rightarrow> filename_in u keyValuePairs
     | Some valueStartPos \<Rightarrow>
         (let key = stripWhiteSpace u (left pair valueStartPos) in
          if key = [] \<or> key \<noteq> lit ''filename'' then filename_in u keyValuePairs
          else let v = stripWhiteSpace u (substring_from pair (valueStartPos + 1)) in
            if at v 0 = 34 then Some (if length v < 2 then substring_from v 1 else substring v 1 (length v - 2)) else Some v))"

definition filenameFromHTTPContentDisposition :: "icu \<Rightarrow> wtf_string \<Rightarrow> wtf_string option" where
  "filenameFromHTTPContentDisposition u v = filename_in u (split_char v (ch CHR '';'') False)"

definition extractMIMETypeFromMediaType :: "icu \<Rightarrow> wtf_string \<Rightarrow> wtf_string" where
  "extractMIMETypeFromMediaType u mediaType =
     filter (\<lambda>c. \<not> isSpaceOrNewline u c) (takeWhile (\<lambda>c. c \<noteq> ch CHR '';'' \<and> c \<noteq> ch CHR '','') mediaType)"

text \<open>\<open>StringImpl::findIgnoringCase\<close>, for a match that is not empty.\<close>

function find_ignoring_case :: "icu \<Rightarrow> wtf_string \<Rightarrow> wtf_string \<Rightarrow> nat \<Rightarrow> nat option" where
  "find_ignoring_case u s m i =
     (if length s < i + length m \<or> m = [] then None
      else if equalIgnoringCase u (take (length m) (drop i s)) m then Some i
      else find_ignoring_case u s m (i + 1))"
  by pat_completeness auto
termination
  by (relation "measure (\<lambda>(u, s, m, i). length s + 1 - i)") auto

declare find_ignoring_case.simps [simp del]

lemma find_ignoring_case_ge: "find_ignoring_case u s m i = Some k \<Longrightarrow> i \<le> k \<and> k + length m \<le> length s"
proof (induction u s m i rule: find_ignoring_case.induct)
  case (1 u s m i)
  from "1.prems" show ?case
    by (subst (asm) find_ignoring_case.simps) (use "1.IH" in \<open>auto split: if_splits\<close>)
qed

text \<open>The loop of \<open>findCharsetInMediaType\<close>: the position and length found, or \<^const>\<open>None\<close> when they stay as they were.\<close>

function find_charset :: "icu \<Rightarrow> wtf_string \<Rightarrow> nat \<Rightarrow> (nat \<times> nat) option" where
  "find_charset u mediaType pos =
     (if pos \<ge> length mediaType then None
      else case find_ignoring_case u mediaType (lit ''charset'') pos of
          None \<Rightarrow> None
        | Some found \<Rightarrow>
            if found = 0 then None
            else if at mediaType (found - 1) > ch CHR '' '' \<and> at mediaType (found - 1) \<noteq> ch CHR '';''
            then find_charset u mediaType (found + 7)
            else let p = scan_while (\<lambda>c. c \<le> ch CHR '' '') mediaType (found + 7) in
              if at mediaType p \<noteq> ch CHR ''='' then find_charset u mediaType (p + 1)
              else let start = scan_while (\<lambda>c. c \<le> ch CHR '' '' \<or> c = 34 \<or> c = 39) mediaType (p + 1);
                       stop = scan_while (\<lambda>c. c > ch CHR '' '' \<and> c \<noteq> 34 \<and> c \<noteq> 39 \<and> c \<noteq> ch CHR '';'') mediaType start
                   in Some (start, stop - start))"
  by pat_completeness auto
termination
proof (relation "measure (\<lambda>(u, s, i). length s - i)")
  fix u s pos found p
  assume a: "\<not> length s \<le> pos" "find_ignoring_case u s (lit ''charset'') pos = Some found"
    "p = scan_while (\<lambda>c. c \<le> ch CHR '' '') s (found + 7)"
  then show "((u, s, p + 1), u, s, pos) \<in> measure (\<lambda>(u, s, i). length s - i)"
    using find_ignoring_case_ge [OF a(2)] scan_while_ge [of "found + 7" "\<lambda>c. c \<le> ch CHR '' ''" s] by auto
qed (auto dest: find_ignoring_case_ge)

declare find_charset.simps [simp del]

definition findCharsetInMediaType :: "icu \<Rightarrow> wtf_string \<Rightarrow> nat \<Rightarrow> nat \<times> nat" where
  "findCharsetInMediaType u mediaType start = (case find_charset u mediaType start of None \<Rightarrow> (start, 0) | Some r \<Rightarrow> r)"

definition extractCharsetFromMediaType :: "icu \<Rightarrow> wtf_string \<Rightarrow> wtf_string" where
  "extractCharsetFromMediaType u mediaType = (let (pos, len) = findCharsetInMediaType u mediaType 0 in substring mediaType pos len)"

section \<open>Security headers\<close>

datatype ReflectedXSSDisposition = ReflectedXSSUnset | AllowReflectedXSS | ReflectedXSSInvalid | FilterReflectedXSS | BlockReflectedXSS

datatype xss_failure = InvalidToggle | InvalidSeparator | InvalidEquals | InvalidMode | InvalidReport | DuplicateMode
  | DuplicateReport | InvalidDirective

text \<open>The result with the out parameters: a reason and a position where they were set, and the report URL.\<close>

record xss_result =
  xr_disposition :: ReflectedXSSDisposition
  xr_failureReason :: "xss_failure option"
  xr_failurePosition :: "nat option"
  xr_reportURL :: "wtf_string option"

definition xss_fail :: "xss_failure \<Rightarrow> nat \<Rightarrow> xss_result \<Rightarrow> xss_result" where
  "xss_fail reason pos r = r\<lparr>xr_disposition := ReflectedXSSInvalid, xr_failureReason := Some reason, xr_failurePosition := Some pos\<rparr>"

text \<open>One directive: the position behind it and the result so far, or the result of a failure.\<close>

definition xss_directive :: "wtf_string \<Rightarrow> nat \<Rightarrow> bool \<Rightarrow> bool \<Rightarrow> xss_result \<Rightarrow> xss_result + nat \<times> bool \<times> bool \<times> xss_result" where
  "xss_directive header pos modeDirectiveSeen reportDirectiveSeen r =
     (let (isMode, p1) = skipToken header pos (lit ''mode'') in
      if isMode then
        if modeDirectiveSeen then Inl (xss_fail DuplicateMode p1 r)
        else let (eq, p2) = skipEquals header p1 in
          if \<not> eq then Inl (xss_fail InvalidEquals p2 r)
          else let (isBlock, p3) = skipToken header p2 (lit ''block'') in
            if \<not> isBlock then Inl (xss_fail InvalidMode p3 r)
            else Inr (p3, True, reportDirectiveSeen, r\<lparr>xr_disposition := BlockReflectedXSS\<rparr>)
      else let (isReport, p1) = skipToken header pos (lit ''report'') in
      if isReport then
        if reportDirectiveSeen then Inl (xss_fail DuplicateReport p1 r)
        else let (eq, p2) = skipEquals header p1 in
          if \<not> eq then Inl (xss_fail InvalidEquals p2 r)
          else let (some, p3) = skipValue header p2 in
            if \<not> some then Inl (xss_fail InvalidReport p3 r)
            else Inr (p3, modeDirectiveSeen, True,
              r\<lparr>xr_reportURL := Some (substring header p2 (p3 - p2)), xr_failurePosition := Some p2\<rparr>)
      else Inl (xss_fail InvalidDirective pos r))"

lemma skipWhiteSpace_ge: "skipWhiteSpace s pos meta = (b, p) \<Longrightarrow> pos \<le> p"
  by (auto simp: skipWhiteSpace_def Let_def scan_while_ge split: if_splits)

lemma skip_token_loop_ge: "skip_token_loop s pos token = Some p \<Longrightarrow> pos \<le> p"
  by (induction s pos token rule: skip_token_loop.induct) (fastforce split: if_splits)+

lemma skipToken_ge: "skipToken s pos token = (b, p) \<Longrightarrow> pos \<le> p"
  by (auto simp: skipToken_def dest: skip_token_loop_ge split: option.splits)

lemma skipEquals_ge: "skipEquals s pos = (b, p) \<Longrightarrow> pos \<le> p"
  by (fastforce simp: skipEquals_def dest: skipWhiteSpace_ge split: prod.splits if_splits)

lemma skipValue_ge: "skipValue s pos = (b, p) \<Longrightarrow> pos \<le> p"
  by (auto simp: skipValue_def Let_def scan_while_ge)

lemmas skip_ge = skipWhiteSpace_ge skipToken_ge skipEquals_ge skipValue_ge

lemma xss_directive_ge: "xss_directive s pos m r x = Inr (p, y) \<Longrightarrow> pos \<le> p"
  by (auto simp: xss_directive_def Let_def split: prod.splits if_splits)
    (meson order_trans skip_ge)+

lemma xss_progress:
  assumes "skipWhiteSpace header pos False = (True, p)" "skipWhiteSpace header (Suc p) False = (y, q)"
    "xss_directive header q m rs r = Inr (q', z)"
  shows "length header - q' < length header - pos"
proof -
  have "p < length header" using assms(1) by (auto simp: skipWhiteSpace_def Let_def)
  moreover have "pos \<le> p" "Suc p \<le> q" "q \<le> q'"
    using skipWhiteSpace_ge [OF assms(1)] skipWhiteSpace_ge [OF assms(2)] xss_directive_ge [OF assms(3)] by auto
  ultimately show ?thesis by auto
qed

function xss_loop :: "wtf_string \<Rightarrow> nat \<Rightarrow> bool \<Rightarrow> bool \<Rightarrow> xss_result \<Rightarrow> xss_result" where
  "xss_loop header pos modeDirectiveSeen reportDirectiveSeen r =
     (let (ok, p) = skipWhiteSpace header pos False in
      if \<not> ok then r
      else if at header p \<noteq> ch CHR '';'' then xss_fail InvalidSeparator (p + 1) r
      else let (ok', q) = skipWhiteSpace header (p + 1) False in
        if \<not> ok' then r
        else (case xss_directive header q modeDirectiveSeen reportDirectiveSeen r of
            Inl r' \<Rightarrow> r'
          | Inr (q', m', s', r') \<Rightarrow> xss_loop header q' m' s' r'))"
  by pat_completeness auto
termination
  by (relation "measure (\<lambda>(s, p, _). length s - p)") (auto intro: xss_progress [OF sym sym])

declare xss_loop.simps [simp del]

definition parseXSSProtectionHeader :: "wtf_string \<Rightarrow> xss_result" where
  "parseXSSProtectionHeader header =
     (let r0 = \<lparr>xr_disposition = ReflectedXSSUnset, xr_failureReason = None, xr_failurePosition = None, xr_reportURL = None\<rparr>;
          (ok, pos) = skipWhiteSpace header 0 False in
      if \<not> ok then r0
      else if at header pos = ch CHR ''0'' then r0\<lparr>xr_disposition := AllowReflectedXSS\<rparr>
      else if at header pos \<noteq> ch CHR ''1''
      then r0\<lparr>xr_disposition := ReflectedXSSInvalid, xr_failureReason := Some InvalidToggle\<rparr>
      else xss_loop header (pos + 1) False False (r0\<lparr>xr_disposition := FilterReflectedXSS\<rparr>))"

definition extractReasonPhraseFromHTTPStatusLine :: "wtf_string \<Rightarrow> wtf_string" where
  "extractReasonPhraseFromHTTPStatusLine statusLine =
     (let first = find_char (ch CHR '' '') statusLine 0;
          second = find_char (ch CHR '' '') statusLine (case first of None \<Rightarrow> 0 | Some k \<Rightarrow> k + 1) in
      substring_from statusLine (case second of None \<Rightarrow> 0 | Some k \<Rightarrow> k + 1))"

datatype XFrameOptionsDisposition = XFrameOptionsNone | XFrameOptionsDeny | XFrameOptionsSameOrigin | XFrameOptionsAllowAll
  | XFrameOptionsInvalid | XFrameOptionsConflict

definition frame_option :: "icu \<Rightarrow> wtf_string \<Rightarrow> XFrameOptionsDisposition" where
  "frame_option u currentHeader =
     (if equalIgnoringCase u currentHeader (lit ''deny'') then XFrameOptionsDeny
      else if equalIgnoringCase u currentHeader (lit ''sameorigin'') then XFrameOptionsSameOrigin
      else if equalIgnoringCase u currentHeader (lit ''allowall'') then XFrameOptionsAllowAll
      else XFrameOptionsInvalid)"

fun frame_options_loop :: "icu \<Rightarrow> XFrameOptionsDisposition \<Rightarrow> wtf_string list \<Rightarrow> XFrameOptionsDisposition" where
  "frame_options_loop u result [] = result"
| "frame_options_loop u result (h # headers) =
     (let currentValue = frame_option u (stripWhiteSpace u h) in
      if result = XFrameOptionsNone then frame_options_loop u currentValue headers
      else if result \<noteq> currentValue then XFrameOptionsConflict
      else frame_options_loop u result headers)"

definition parseXFrameOptionsHeader :: "icu \<Rightarrow> wtf_string \<Rightarrow> XFrameOptionsDisposition" where
  "parseXFrameOptionsHeader u header =
     (if header = [] then XFrameOptionsNone else frame_options_loop u XFrameOptionsNone (split_char header (ch CHR '','') False))"

section \<open>Ranges\<close>

definition toInt64Strict :: "icu \<Rightarrow> wtf_string \<Rightarrow> int option" where
  "toInt64Strict u s = toIntegralType u (2 ^ 63 - 1) True 10 s"

text \<open>What is returned, and the three out parameters \<open>rangeOffset\<close>, \<open>rangeEnd\<close> and \<open>rangeSuffixLength\<close>.\<close>

definition parseRange :: "icu \<Rightarrow> wtf_string \<Rightarrow> bool \<times> int \<times> int \<times> int" where
  "parseRange u rangeText =
     (if \<not> startsWithIgnoringCase u rangeText (lit ''bytes='') then (False, -1, -1, -1)
      else let byteRange = substring_from rangeText 6 in
        (case find_char (ch CHR ''-'') byteRange 0 of
          None \<Rightarrow> (False, -1, -1, -1)
        | Some index \<Rightarrow>
            if index = 0 then
              (case toInt64Strict u (stripWhiteSpace u (substring_from byteRange (index + 1))) of
                None \<Rightarrow> (True, -1, -1, -1)
              | Some v \<Rightarrow> (True, -1, -1, v))
            else
              (case toInt64Strict u (stripWhiteSpace u (left byteRange index)) of
                None \<Rightarrow> (False, -1, -1, -1)
              | Some firstBytePos \<Rightarrow>
                  let lastBytePosStr = stripWhiteSpace u (substring_from byteRange (index + 1)) in
                  (case (if lastBytePosStr = [] then Some (-1) else toInt64Strict u lastBytePosStr) of
                    None \<Rightarrow> (False, -1, -1, -1)
                  | Some lastBytePos \<Rightarrow>
                      if firstBytePos < 0 \<or> \<not> (lastBytePos = -1 \<or> lastBytePos \<ge> firstBytePos) then (False, -1, -1, -1)
                      else (True, firstBytePos, lastBytePos, -1)))))"

section \<open>Messages\<close>

datatype HTTPVersion = Unknown | HTTP_1_0 | HTTP_1_1

datatype request_line_error = IncompleteRequestLine | NotThreeParts | RequestLineNotCRLF

text \<open>The loop over the line: the number of bytes before the line feed, and the first two spaces.\<close>

fun request_line_loop :: "wtf_string \<Rightarrow> nat \<Rightarrow> nat option \<Rightarrow> nat option \<Rightarrow> nat \<times> nat option \<times> nat option" where
  "request_line_loop [] p space1 space2 = (p, space1, space2)"
| "request_line_loop (c # data) p space1 space2 =
     (if c = ch CHR '' '' then
        if space1 = None then request_line_loop data (p + 1) (Some p) space2
        else if space2 = None then request_line_loop data (p + 1) space1 (Some p)
        else request_line_loop data (p + 1) space1 space2
      else if c = 10 then (p, space1, space2)
      else request_line_loop data (p + 1) space1 space2)"

definition http_version :: "wtf_string \<Rightarrow> HTTPVersion" where
  "http_version httpVersionString =
     (if length httpVersionString \<noteq> 8 \<or> take 7 httpVersionString \<noteq> lit ''HTTP/1.'' then Unknown
      else if at httpVersionString 7 = ch CHR ''0'' then HTTP_1_0
      else if at httpVersionString 7 = ch CHR ''1'' then HTTP_1_1
      else Unknown)"

text \<open>The method, the URL, the version and the length read.\<close>

definition parseHTTPRequestLine :: "wtf_string \<Rightarrow> request_line_error + wtf_string \<times> wtf_string \<times> HTTPVersion \<times> nat" where
  "parseHTTPRequestLine data =
     (let (p, space1, space2) = request_line_loop data 0 None None in
      if p = length data then Inl IncompleteRequestLine
      else case (space1, space2) of
          (Some s1, Some s2) \<Rightarrow>
            if at data (p - 1) \<noteq> 13 then Inl RequestLineNotCRLF
            else Inr (between 0 s1 data, between (s1 + 1) s2 data, http_version (between (s2 + 1) (p - 1) data), p + 1)
        | _ \<Rightarrow> Inl NotThreeParts)"

datatype header_error = CRWithoutLF | CRInName | LFInName | LFInValue | CRWithoutLFAfterValue | InvalidNameUTF8 | InvalidValueUTF8

text \<open>The name of a header line: an error, the end of a blank line, or the name with the position behind the colon.\<close>

datatype name_scan = NameError header_error | BlankLine nat | NameDone wtf_string nat

fun header_name_loop :: "wtf_string \<Rightarrow> nat \<Rightarrow> wtf_string \<Rightarrow> name_scan" where
  "header_name_loop [] p name = NameDone name p"
| "header_name_loop (c # data) p name =
     (if c = 13 then
        if name = [] then (case data of d # _ \<Rightarrow> if d = 10 then BlankLine (p + 2) else NameError CRWithoutLF | [] \<Rightarrow> NameError CRWithoutLF)
        else NameError CRInName
      else if c = 10 then NameError LFInName
      else if c = ch CHR '':'' then NameDone name (p + 1)
      else header_name_loop data (p + 1) (name @ [c]))"

fun header_value_loop :: "bool \<Rightarrow> wtf_string \<Rightarrow> nat \<Rightarrow> wtf_string \<Rightarrow> header_error + wtf_string \<times> nat" where
  "header_value_loop strict [] p v = Inr (v, p)"
| "header_value_loop strict (c # data) p v =
     (if c = 13 then Inr (v, p + 1)
      else if c = 10 then if strict then Inl LFInValue else Inr (v, p + 1)
      else header_value_loop strict data (p + 1) (v @ [c]))"

text \<open>
  The number of bytes read, the name and the value; both are null at the blank line, and empty here.
  After a header line the position is that of its line feed.
\<close>

definition parseHTTPHeader :: "wtf_string \<Rightarrow> bool \<Rightarrow> header_error + nat \<times> wtf_string \<times> wtf_string" where
  "parseHTTPHeader s strict =
     (case header_name_loop s 0 [] of
       NameError e \<Rightarrow> Inl e
     | BlankLine n \<Rightarrow> Inr (n, [], [])
     | NameDone name p0 \<Rightarrow>
         (let p1 = scan_while (\<lambda>c. c = 0x20) s p0 in
          case header_value_loop strict (drop p1 s) p1 [] of
            Inl e \<Rightarrow> Inl e
          | Inr (v, p) \<Rightarrow>
              if p \<ge> length s \<or> (strict \<and> at s p \<noteq> 10) then Inl CRWithoutLFAfterValue
              else (case fromUTF8 name of
                  None \<Rightarrow> Inl InvalidNameUTF8
                | Some nameStr \<Rightarrow> (case fromUTF8 v of
                      None \<Rightarrow> Inl InvalidValueUTF8
                    | Some valueStr \<Rightarrow> Inr (p, nameStr, valueStr)))))"

definition parseHTTPRequestBody :: "wtf_string \<Rightarrow> wtf_string \<times> nat" where
  "parseHTTPRequestBody data = (data, length data)"

section \<open>Lines\<close>

definition header_line :: "wtf_string \<Rightarrow> wtf_string \<Rightarrow> wtf_string" where
  "header_line name v = name @ lit '': '' @ v @ [13, 10]"

definition plain_name :: "wtf_string \<Rightarrow> bool" where
  "plain_name name \<longleftrightarrow> name \<noteq> [] \<and> list_all (\<lambda>c. c \<noteq> 13 \<and> c \<noteq> 10 \<and> c \<noteq> 58) name"

definition plain_value :: "wtf_string \<Rightarrow> bool" where
  "plain_value v \<longleftrightarrow> at v 0 \<noteq> 32 \<and> list_all (\<lambda>c. c \<noteq> 13 \<and> c \<noteq> 10) v"

lemma header_name_loop_name:
  "list_all (\<lambda>c. c \<noteq> 13 \<and> c \<noteq> 10 \<and> c \<noteq> 58) name \<Longrightarrow>
   header_name_loop (name @ 58 # rest) p acc = NameDone (acc @ name) (p + length name + 1)"
  by (induction name arbitrary: p acc) auto

lemma header_value_loop_value:
  "list_all (\<lambda>c. c \<noteq> 13 \<and> c \<noteq> 10) v \<Longrightarrow> header_value_loop strict (v @ 13 # rest) p acc = Inr (acc @ v, p + length v + 1)"
  by (induction v arbitrary: p acc) auto

lemma parseHTTPHeader_line:
  assumes "plain_name name" "plain_value v" "fromUTF8 name = Some n" "fromUTF8 v = Some w"
  shows "parseHTTPHeader (header_line name v @ rest) True = Inr (length name + length v + 3, n, w)"
proof -
  define s where "s = header_line name v @ rest"
  have s: "s = name @ 58 # 32 # v @ 13 # 10 # rest" by (simp add: s_def header_line_def lit_def)
  have name: "header_name_loop s 0 [] = NameDone name (length name + 1)"
    unfolding s using header_name_loop_name [of name] assms(1) by (simp add: plain_name_def)
  have "takeWhile (\<lambda>c. c = 32) (drop (length name + 1) s) = [32]"
    using assms(2) by (cases v) (auto simp: s plain_value_def)
  then have p1: "scan_while (\<lambda>c. c = 32) s (length name + 1) = length name + 2" by (simp add: scan_while_takeWhile)
  have "header_value_loop True (v @ 13 # 10 # rest) (length name + 2) [] = Inr (v, length name + length v + 3)"
    using header_value_loop_value [of v] assms(2) by (simp add: plain_value_def)
  moreover have "drop (length name + 2) s = v @ 13 # 10 # rest" by (simp add: s)
  moreover have "at s (length name + length v + 3) = 10" by (simp add: s at_def nth_append)
  moreover have "length name + length v + 3 < length s" by (simp add: s)
  ultimately have "parseHTTPHeader s True = Inr (length name + length v + 3, n, w)"
    using assms(3,4) p1 by (simp add: parseHTTPHeader_def name Let_def)
  then show ?thesis by (simp add: s_def)
qed

lemma parseHTTPHeader_blank: "parseHTTPHeader (13 # 10 # rest) strict = Inr (2, [], [])"
  by (simp add: parseHTTPHeader_def)

lemma request_line_loop_skip:
  "list_all (\<lambda>c. c \<noteq> 32 \<and> c \<noteq> 10) w \<Longrightarrow> request_line_loop (w @ data) p s1 s2 = request_line_loop data (p + length w) s1 s2"
  by (induction w arbitrary: p) (auto simp: add.assoc)

definition version_text :: "HTTPVersion \<Rightarrow> wtf_string" where
  "version_text v = lit (case v of HTTP_1_0 \<Rightarrow> ''HTTP/1.0'' | HTTP_1_1 \<Rightarrow> ''HTTP/1.1'' | Unknown \<Rightarrow> ''HTTP/0.9'')"

definition request_line :: "wtf_string \<Rightarrow> wtf_string \<Rightarrow> HTTPVersion \<Rightarrow> wtf_string" where
  "request_line method url v = method @ 32 # url @ 32 # version_text v @ [13, 10]"

lemma parseHTTPRequestLine_line:
  assumes "list_all (\<lambda>c. c \<noteq> 32 \<and> c \<noteq> 10) method" "list_all (\<lambda>c. c \<noteq> 32 \<and> c \<noteq> 10) url"
  shows "parseHTTPRequestLine (request_line method url v @ rest) = Inr (method, url, v, length (request_line method url v))"
proof -
  define s where "s = request_line method url v @ rest"
  define n where "n = length method + length url"
  have s: "s = method @ 32 # url @ 32 # (version_text v @ [13]) @ 10 # rest" by (simp add: s_def request_line_def)
  have v8: "length (version_text v) = 8" by (cases v) (simp_all add: version_text_def lit_def)
  have v: "list_all (\<lambda>c. c \<noteq> 32 \<and> c \<noteq> 10) (version_text v @ [13])" by (cases v) (simp_all add: version_text_def lit_def)
  have loop: "request_line_loop s 0 None None = (n + 11, Some (length method), Some (n + 1))"
    unfolding s using v v8 by (simp add: request_line_loop_skip assms request_line_loop_skip [OF v, simplified] n_def)
  have "at s (n + 10) = 13" using v8 by (simp add: s n_def at_def nth_append nth_Cons')
  moreover have "between 0 (length method) s = method" by (simp add: s between_def)
  moreover have "between (length method + 1) (n + 1) s = url" by (simp add: s between_def n_def)
  moreover have "between (n + 2) (n + 10) s = version_text v" using v8 by (simp add: s between_def n_def)
  moreover have "http_version (version_text v) = v"
    by (cases v) (simp_all add: version_text_def http_version_def lit_def at_def)
  moreover have "length s = n + 12 + length rest" "length (request_line method url v) = n + 12"
    using v8 by (simp_all add: s request_line_def n_def)
  ultimately have "parseHTTPRequestLine s = Inr (method, url, v, length (request_line method url v))"
    by (simp add: parseHTTPRequestLine_def loop add.commute [of 10])
  then show ?thesis by (simp add: s_def)
qed

lemma toInt64Strict_number:
  assumes "n < 2 ^ 63"
  shows "toInt64Strict u (numberToString n) = Some (int n)"
proof -
  obtain c rest where cr: "numberToString n = c # rest" by (cases "numberToString n") auto
  then have c: "48 \<le> c" "c \<le> 57" using numberToString_digits [of c n] by auto
  then have sp: "\<not> isSpaceOrNewline u c" "c \<noteq> 43" "c \<noteq> 45"
    by (auto simp: isSpaceOrNewline_def isASCIISpace_def)
  have al: "isCharacterAllowedInBase c 10"
    using digit_allowed [of "c - 48"] c by simp
  have "n \<le> 2 ^ 63 - 1" using assms by simp
  from digit_loop_numberToString [OF this] cr have "digit_loop (2 ^ 63 - 1) 10 False (c # rest) 0 = Some (n, [])" by simp
  then show ?thesis using cr sp al unfolding toInt64Strict_def toIntegralType_def Let_def by simp
qed

lemma stripWhiteSpace_plain:
  assumes "list_all (\<lambda>c. \<not> isSpaceOrNewline u c) s"
  shows "stripWhiteSpace u s = s"
proof (cases "s = []")
  case False
  then obtain a b where "s = a # b" by (cases s) auto
  moreover obtain x y where "rev s = x # y" using False by (cases "rev s") auto
  moreover from this have "x \<in> set s" by (metis list.set_intros(1) set_rev)
  ultimately show ?thesis using assms
    by (auto simp: stripWhiteSpace_def scan_while_takeWhile list_all_iff between_def)
qed (simp add: stripWhiteSpace_def scan_while_takeWhile)

lemma number_plain: "list_all (\<lambda>c. \<not> isSpaceOrNewline u c) (numberToString n)"
  using numberToString_digits [of _ n] by (fastforce simp: list_all_iff isSpaceOrNewline_def isASCIISpace_def)

lemma find_char_behind: "c \<notin> set a \<Longrightarrow> find_char c (a @ c # b) 0 = Some (length a)"
  by (auto simp: find_char_def scan_while_takeWhile takeWhile_append)

definition range_text :: "nat option \<Rightarrow> nat option \<Rightarrow> wtf_string" where
  "range_text a b = lit ''bytes='' @ (case a of None \<Rightarrow> [] | Some k \<Rightarrow> numberToString k) @ [45]
     @ (case b of None \<Rightarrow> [] | Some k \<Rightarrow> numberToString k)"

lemma parseRange_text:
  assumes "45 \<notin> set a"
  shows "parseRange u (lit ''bytes='' @ a @ 45 # b) =
     (if a = [] then (case toInt64Strict u (stripWhiteSpace u b) of None \<Rightarrow> (True, -1, -1, -1) | Some v \<Rightarrow> (True, -1, -1, v))
      else (case toInt64Strict u (stripWhiteSpace u a) of
             None \<Rightarrow> (False, -1, -1, -1)
           | Some x \<Rightarrow> (case (if stripWhiteSpace u b = [] then Some (-1) else toInt64Strict u (stripWhiteSpace u b)) of
               None \<Rightarrow> (False, -1, -1, -1)
             | Some y \<Rightarrow> if x < 0 \<or> \<not> (y = -1 \<or> y \<ge> x) then (False, -1, -1, -1) else (True, x, y, -1))))"
proof -
  have start: "startsWithIgnoringCase u (lit ''bytes='' @ a @ 45 # b) (lit ''bytes='')"
    by (simp add: startsWithIgnoringCase_def lit_def foldCase_def isASCII_def)
  have "substring_from (lit ''bytes='' @ a @ 45 # b) 6 = a @ 45 # b" by (simp add: substring_from_def lit_def)
  moreover have "substring_from (a @ 45 # b) (length a + 1) = b" by (simp add: substring_from_drop)
  ultimately show ?thesis
    using start find_char_behind [OF assms] by (cases "a = []") (simp_all add: parseRange_def left_take substring_from_drop split: option.split)
qed

lemma number_no_minus: "45 \<notin> set (numberToString n)"
  using numberToString_digits by fastforce

text \<open>
  C0: A range that was written is read back: the first and the last position, the first position alone, or the
  length of a suffix, for all numbers of 63 bits; what is not given is -1. A range whose last position is before the first
  one is rejected.
\<close>

theorem range_roundtrip:
  assumes "a < 2 ^ 63" "b < 2 ^ 63"
  shows "parseRange u (range_text (Some a) (Some b)) = (if a \<le> b then (True, int a, int b, -1) else (False, -1, -1, -1))
    \<and> parseRange u (range_text (Some a) None) = (True, int a, -1, -1)
    \<and> parseRange u (range_text None (Some b)) = (True, -1, -1, int b)"
proof -
  have nil: "stripWhiteSpace u [] = []" by (simp add: stripWhiteSpace_def scan_while_takeWhile)
  have n: "stripWhiteSpace u (numberToString k) = numberToString k" for k by (rule stripWhiteSpace_plain [OF number_plain])
  note facts = toInt64Strict_number [OF assms(1)] toInt64Strict_number [OF assms(2)] n nil number_no_minus
  show ?thesis
    by (simp add: range_text_def facts parseRange_text [where a = "numberToString a" and b = "numberToString b"]
        parseRange_text [where a = "numberToString a" and b = "[]"] parseRange_text [where a = "[]" and b = "numberToString b", simplified])
qed

theorem range_roundtrip_witness:
  "(499::nat) < 2 ^ 63 \<and> (1000::nat) < 2 ^ 63
    \<and> parseRange ascii_icu (range_text (Some 499) (Some 1000)) = (True, 499, 1000, -1)"
  using range_roundtrip [of 499 1000 ascii_icu] by simp

section \<open>Frame options and dispositions\<close>

lemma frame_option_cases: "frame_option u h \<noteq> XFrameOptionsNone" "frame_option u h \<noteq> XFrameOptionsConflict"
  by (simp_all add: frame_option_def)

lemma frame_options_loop_agree:
  "d \<noteq> XFrameOptionsNone \<Longrightarrow> d \<noteq> XFrameOptionsConflict \<Longrightarrow>
   frame_options_loop u d hs = (if list_all (\<lambda>h. frame_option u (stripWhiteSpace u h) = d) hs then d else XFrameOptionsConflict)"
  by (induction hs) auto

text \<open>The values of all \<open>X-Frame-Options\<close> fields must agree: the disposition is that of each of them, and a conflict otherwise.\<close>

lemma frame_options_agree:
  assumes "split_char header 44 False = h # hs" "header \<noteq> []"
  shows "parseXFrameOptionsHeader u header =
    (if list_all (\<lambda>k. frame_option u (stripWhiteSpace u k) = frame_option u (stripWhiteSpace u h)) hs
     then frame_option u (stripWhiteSpace u h) else XFrameOptionsConflict)"
  using assms frame_options_loop_agree [OF frame_option_cases] by (simp add: parseXFrameOptionsHeader_def Let_def frame_option_cases)

text \<open>A disposition that is only semicolons reads the first element of an empty vector.\<close>

lemma disposition_of_semicolon: "contentDispositionType u (lit '';'') = None"
proof -
  have "find_string [59] [59] 0 = Some 0" by (auto simp: find_string_spec occurs_at_def)
  moreover have "find_string [59] [59] (Suc 0) = None"
    by (cases "find_string [59] [59] (Suc 0)") (auto simp: find_string_spec occurs_at_def)
  ultimately show ?thesis
    by (simp add: contentDispositionType_def lit_def split_char_def split_loop.simps [of "[59]"])
qed

lemma split_char_plain: "c \<notin> set s \<Longrightarrow> s \<noteq> [] \<Longrightarrow> split_char s c False = [s]"
  using split_joined [of c s "[]" "[c]" "[]" "[]"] by (simp add: split_char_def)

text \<open>The result of stripping white space is dropped: an inline disposition with a space behind it is not one.\<close>

lemma disposition_not_stripped: "contentDispositionType ascii_icu (lit ''inline '') = Some ContentDispositionNone"
proof -
  have "split_char (lit ''inline '') 59 False = [lit ''inline '']" by (rule split_char_plain) (simp_all add: lit_def)
  moreover have "\<not> isValidHTTPToken (lit ''inline '')" by (simp add: isValidHTTPToken_def lit_def)
  moreover have "\<not> equalIgnoringCase u (lit ''inline '') (lit ''inline'')" for u
    using map_eq_imp_length_eq by (fastforce simp: equalIgnoringCase_def lit_def)
  ultimately show ?thesis by (simp add: contentDispositionType_def)
qed

text \<open>The length of a suffix may be negative.\<close>

lemma range_negative_suffix: "parseRange ascii_icu (lit ''bytes=--5'') = (True, -1, -1, -5)"
proof -
  have "stripWhiteSpace ascii_icu [45, 53] = [45, 53]"
    by (rule stripWhiteSpace_plain) (simp add: isSpaceOrNewline_def isASCIISpace_def ascii_icu_def)
  moreover have "toInt64Strict ascii_icu [45, 53] = Some (-5)" 
    unfolding toInt64Strict_def toIntegralType_def
    by (simp add: isSpaceOrNewline_def isASCIISpace_def isCharacterAllowedInBase_def isASCIIDigit_def digitValue_def ascii_icu_def)
  ultimately show ?thesis using parseRange_text [of "[]" ascii_icu "[45, 53]"] by (simp add: lit_def)
qed

end
