(* ===== verification/Spec2Isabelle.thy ===== *)
theory Spec2Isabelle
  imports Prelude Wtf_Text Wtf_Utf8 Url_Chars Url_Path Url_Parse Url_Canonical Url_Access Url_Resolve
    Web_Socket_Frame Region_Shape Region Storage_Map Back_Forward_List Back_Forward_Proxy Scheme_Registry
    Security_Origin Same_Origin Stream_Buffer Web_Socket_Channel Web_Socket_Session Wtf_Digest
    Wtf_Sha1 Wtf_Md5 Wtf_Base64 Wtf_Search Http_Headers Http_Parsers
begin

text \<open>
  A verification library for parts of a WebKit port.

  \<^bold>\<open>Text.\<close> A string is a list of code units; \<open>Prelude\<close> has the reading and scanning
  primitives every component uses. \<open>Wtf_Text\<close> models the string and number operations of
  \<open>WTF/wtf/text\<close>, \<open>Wtf_Utf8\<close> the converters of \<open>WTF/wtf/unicode/UTF8.cpp\<close>.
\<close>

end
